(* ===== verification/C_Prelude.thy ===== *)
theory C_Prelude
  imports Main "HOL-Library.Word" "HOL-Library.Signed_Division"
begin

unbundle bit_operations_syntax

text \<open>
  The fragment of C the labs are written in, as HOL data shared by every component:
  results that may abort (\<open>res\<close>), 32-bit \<open>int\<close> arithmetic whose overflow is an error,
  byte-addressed memory with the little-endian 8-byte accesses of x86-64, and the
  \<open>memset\<close>, \<open>memcpy\<close> and \<open>strcmp\<close> of the C library. The generic lemmas on these are
  collected in \<open>res_simps\<close> (control flow) and \<open>mem_simps\<close> (memory).
\<close>

section \<open>Results that may abort\<close>

named_theorems res_simps \<open>evaluation of sequenced computations\<close>
named_theorems mem_simps \<open>reads and writes of byte memory\<close>

text \<open>
  Every way a function of the labs can end other than by returning: a failed
  \<open>assert\<close>, a call of \<open>exit\<close> with its status, and the undefined behaviours the code can
  reach (an access outside the object a pointer points into, a dereference of \<open>NULL\<close>, a
  signed overflow, a shift by a count that is negative or too large, a division by zero, a use or
  a second \<open>free\<close> of freed memory).
\<close>

datatype c_error =
    AssertFail
  | Exit int
  | OutOfBounds
  | NullDeref
  | SignedOverflow
  | BadShift
  | DivByZero
  | UseAfterFree

type_synonym 'a res = "c_error + 'a"

fun res_bind :: "'a res \<Rightarrow> ('a \<Rightarrow> 'b res) \<Rightarrow> 'b res" where
  "res_bind (Inl e) f = Inl e"
| "res_bind (Inr x) f = f x"

definition c_assert :: "bool \<Rightarrow> unit res" where
  "c_assert b = (if b then Inr () else Inl AssertFail)"

declare res_bind.simps [res_simps]

lemma c_assert_True [simp, res_simps]: "c_assert True = Inr ()"
  by (simp add: c_assert_def)

lemma c_assert_False [simp, res_simps]: "c_assert False = Inl AssertFail"
  by (simp add: c_assert_def)

lemma c_assert_eq_Inr [simp]: "c_assert b = Inr u \<longleftrightarrow> b"
  by (simp add: c_assert_def)

lemma res_bind_eq_Inr: "res_bind m f = Inr y \<longleftrightarrow> (\<exists>x. m = Inr x \<and> f x = Inr y)"
  by (cases m) auto

lemma res_bind_eq_Inl:
  "res_bind m f = Inl e \<longleftrightarrow> m = Inl e \<or> (\<exists>x. m = Inr x \<and> f x = Inl e)"
  by (cases m) auto

lemma res_bind_InrE [elim!]:
  assumes "res_bind m f = Inr y"
  obtains x where "m = Inr x" and "f x = Inr y"
  using assms by (auto simp: res_bind_eq_Inr)

lemma res_bind_assoc: "res_bind (res_bind m f) g = res_bind m (\<lambda>x. res_bind (f x) g)"
  by (cases m) auto

lemma res_bind_Inr_right [simp]: "res_bind m Inr = m"
  by (cases m) auto

text \<open>
  A computation with a loop that may not end has a result of type \<open>'a run\<close>: \<open>None\<close> when it does not
  return. \<open>run_bind\<close> sequences such computations and may enclose a recursive call.
\<close>

type_synonym 'a run = "'a res option"

definition run_bind :: "'a run \<Rightarrow> ('a \<Rightarrow> 'b run) \<Rightarrow> 'b run" where
  "run_bind m f = Option.bind m (\<lambda>r. case r of Inl e \<Rightarrow> Some (Inl e) | Inr x \<Rightarrow> f x)"

lemma run_bind_simps [simp, res_simps]:
  "run_bind None f = None" "run_bind (Some (Inl e)) f = Some (Inl e)"
  "run_bind (Some (Inr x)) f = f x"
  by (simp_all add: run_bind_def)

lemma run_bind_mono [partial_function_mono]:
  assumes m: "mono_option m" and f: "\<And>x. mono_option (\<lambda>g. f x g)"
  shows "mono_option (\<lambda>g. run_bind (m g) (\<lambda>x. f x g))"
  unfolding run_bind_def
proof (rule bind_mono [OF m])
  fix r :: "c_error + 'c"
  show "mono_option (\<lambda>g. case r of Inl e \<Rightarrow> Some (Inl e) | Inr x \<Rightarrow> f x g)"
    using f by (cases r) (auto intro: option.const_mono)
qed

section \<open>Integers of C\<close>

type_synonym byte = "8 word"
type_synonym size_t = "64 word"

definition INT_MAX :: int where "INT_MAX = 2 ^ 31 - 1"

definition INT_MIN :: int where "INT_MIN = - (2 ^ 31)"

definition in_int :: "int \<Rightarrow> bool" where
  "in_int x \<longleftrightarrow> INT_MIN \<le> x \<and> x \<le> INT_MAX"

text \<open>The value of a signed 32-bit expression; overflow is undefined behaviour.\<close>

definition chk_int :: "int \<Rightarrow> int res" where
  "chk_int x = (if in_int x then Inr x else Inl SignedOverflow)"

text \<open>The same for \<open>long long\<close>, of 64 bits.\<close>

definition in_llong :: "int \<Rightarrow> bool" where
  "in_llong x \<longleftrightarrow> - (2 ^ 63) \<le> x \<and> x < 2 ^ 63"

definition chk_llong :: "int \<Rightarrow> int res" where
  "chk_llong x = (if in_llong x then Inr x else Inl SignedOverflow)"

text \<open>The conversion of a \<open>size_t\<close> or \<open>long\<close> value to \<open>int\<close> keeps the low 32 bits (gcc).\<close>

definition int_of_size :: "size_t \<Rightarrow> int" where
  "int_of_size w = sint (ucast w :: 32 word)"

lemma chk_int_Inr [simp, res_simps]: "in_int x \<Longrightarrow> chk_int x = Inr x"
  by (simp add: chk_int_def)

lemma chk_int_eq_Inr [simp]: "chk_int x = Inr y \<longleftrightarrow> in_int x \<and> y = x"
  by (auto simp: chk_int_def)

lemma chk_llong_Inr [simp, res_simps]: "in_llong x \<Longrightarrow> chk_llong x = Inr x"
  by (simp add: chk_llong_def)

lemma in_llongI: "- 9223372036854775808 \<le> x \<Longrightarrow> x \<le> 9223372036854775807 \<Longrightarrow> in_llong x"
  by (simp add: in_llong_def)

lemma in_intI: "- 2147483648 \<le> x \<Longrightarrow> x \<le> 2147483647 \<Longrightarrow> in_int x"
  by (simp add: in_int_def INT_MIN_def INT_MAX_def)

lemma in_int_iff: "in_int x \<longleftrightarrow> - 2147483648 \<le> x \<and> x \<le> 2147483647"
  by (simp add: in_int_def INT_MIN_def INT_MAX_def)

lemma smod_nonneg: "0 \<le> a \<Longrightarrow> 0 < b \<Longrightarrow> a smod b = a mod b" for a b :: int
  by (simp add: signed_modulo_int_def sgn_if)

lemma int_of_size_range: "- (2 ^ 31) \<le> int_of_size w \<and> int_of_size w < 2 ^ 31"
  using sint_greater_eq [of "ucast w :: 32 word"] sint_less [of "ucast w :: 32 word"]
  by (simp add: int_of_size_def)

lemma int_of_size_alt: "int_of_size w = signed_take_bit 31 (uint w)"
  by (simp add: int_of_size_def signed_ucast_eq)

lemma int_of_size_small:
  assumes "uint w < 2 ^ 31"
  shows "int_of_size w = uint w"
  unfolding int_of_size_alt
  by (rule signed_take_bit_int_eq_self) (use assms in \<open>simp_all add: order_trans [of _ 0]\<close>)

lemma uint64_of_int: "0 \<le> k \<Longrightarrow> k < 2 ^ 64 \<Longrightarrow> uint (word_of_int k :: 64 word) = k"
  by (simp add: take_bit_int_eq_self_iff uint_word_of_int_eq)

section \<open>Arrays\<close>

text \<open>Reading and writing an array element; an index outside the array is undefined.\<close>

definition get_arr :: "'a list \<Rightarrow> int \<Rightarrow> 'a res" where
  "get_arr xs i = (if 0 \<le> i \<and> i < int (length xs) then Inr (xs ! nat i) else Inl OutOfBounds)"

definition put_arr :: "'a list \<Rightarrow> int \<Rightarrow> 'a \<Rightarrow> 'a list res" where
  "put_arr xs i v = (if 0 \<le> i \<and> i < int (length xs) then Inr (xs[nat i := v]) else Inl OutOfBounds)"

lemma get_arr_ok [simp, res_simps]:
  "0 \<le> i \<Longrightarrow> i < int (length xs) \<Longrightarrow> get_arr xs i = Inr (xs ! nat i)"
  by (simp add: get_arr_def)

lemma put_arr_ok [simp, res_simps]:
  "0 \<le> i \<Longrightarrow> i < int (length xs) \<Longrightarrow> put_arr xs i v = Inr (xs[nat i := v])"
  by (simp add: put_arr_def)

text \<open>A loop over the elements of an array from index \<open>k\<close> on sees the suffix at \<open>k\<close>.\<close>

lemma drop_eq_Cons:
  assumes "drop (nat k) xs = y # ys" and "0 \<le> k"
  shows "get_arr xs k = Inr y" and "drop (nat (k + 1)) xs = ys"
proof -
  have len: "nat k < length xs" using assms(1) by (metis drop_all list.distinct(1) not_less)
  then have "drop (nat k) xs = xs ! nat k # drop (Suc (nat k)) xs" by (rule Cons_nth_drop_Suc [symmetric])
  moreover have "nat (k + 1) = Suc (nat k)" using assms(2) by simp
  ultimately show "get_arr xs k = Inr y" "drop (nat (k + 1)) xs = ys"
    using assms len by simp_all
qed

section \<open>Strings\<close>

text \<open>
  A C string is the characters up to the first NUL; the end of the list stands for the
  terminating NUL. \<open>char\<close> is signed.
\<close>

definition NUL :: char where "NUL = CHR 0x00"

definition c_str :: "string \<Rightarrow> string" where
  "c_str s = takeWhile (\<lambda>c. c \<noteq> NUL) s"

definition schar :: "char \<Rightarrow> int" where
  "schar c = (if of_char c < (128 :: int) then of_char c else of_char c - 256)"

definition streq :: "string \<Rightarrow> string \<Rightarrow> bool" where
  "streq a b \<longleftrightarrow> c_str a = c_str b"

text \<open>
  \<open>atoi\<close> on strings of decimal digits, with an optional sign: the value \<open>strtol\<close> gives, which stays at
  the ends of \<open>long\<close>, cut to 32 bits.
\<close>

definition digit :: "char \<Rightarrow> int" where "digit c = of_char c - 48"

fun digits_value :: "int \<Rightarrow> string \<Rightarrow> int" where
  "digits_value v [] = v"
| "digits_value v (c # cs) =
     (if 0 \<le> digit c \<and> digit c \<le> 9 then digits_value (10 * v + digit c) cs else v)"

definition long_to_int :: "int \<Rightarrow> int" where
  "long_to_int v = sint (word_of_int (max (- (2 ^ 63)) (min (2 ^ 63 - 1) v)) :: 32 word)"

definition c_atoi :: "string \<Rightarrow> int" where
  "c_atoi s =
     long_to_int
       (case dropWhile (\<lambda>c. c = CHR '' '' \<or> (9 \<le> (of_char c :: int) \<and> (of_char c :: int) \<le> 13)) s of
          [] \<Rightarrow> 0
        | c # cs \<Rightarrow>
            if c = CHR ''-'' then - digits_value 0 cs
            else if c = CHR ''+'' then digits_value 0 cs
            else digits_value 0 (c # cs))"

lemma long_to_int_id [simp]:
  assumes "- (2 ^ 31) \<le> v" and "v < 2 ^ 31"
  shows "long_to_int v = v"
proof -
  have "max (- (2 ^ 63)) (min (2 ^ 63 - 1) v) = v" using assms by simp
  moreover have "sint (word_of_int v :: 32 word) = v"
    using assms by (simp add: signed_of_int signed_take_bit_int_eq_self)
  ultimately show ?thesis by (simp only: long_to_int_def)
qed

lemma c_str_id: "NUL \<notin> set s \<Longrightarrow> c_str s = s"
  by (auto simp: c_str_def takeWhile_eq_all_conv)

lemma of_char_nonneg [simp]: "0 \<le> (of_char c :: int)"
  by (metis of_nat_0_le_iff of_nat_of_char)

lemma of_char_less: "(of_char c :: int) < 256"
proof -
  have "of_char c < (256 :: nat)" by simp
  then show ?thesis by (metis of_nat_less_iff of_nat_numeral of_nat_of_char)
qed

lemma schar_range: "- 128 \<le> schar c \<and> schar c < 128"
  using of_char_less [of c] by (auto simp: schar_def intro: order_trans [of _ 0])

section \<open>Byte memory\<close>

text \<open>
  Addresses are the unsigned values of 64-bit pointers, as integers: the labs never let a
  pointer wrap, and the objects they point into are bounds-checked by the components.
\<close>

type_synonym addr = int
type_synonym mem = "addr \<Rightarrow> byte"

definition NULL :: addr where "NULL = 0"

definition load_bytes :: "mem \<Rightarrow> addr \<Rightarrow> nat \<Rightarrow> byte list" where
  "load_bytes m a n = map (\<lambda>i. m (a + int i)) [0..<n]"

definition store_bytes :: "mem \<Rightarrow> addr \<Rightarrow> byte list \<Rightarrow> mem" where
  "store_bytes m a bs =
     (\<lambda>x. if a \<le> x \<and> x < a + int (length bs) then bs ! nat (x - a) else m x)"

definition memset :: "mem \<Rightarrow> addr \<Rightarrow> byte \<Rightarrow> nat \<Rightarrow> mem" where
  "memset m a c n = store_bytes m a (replicate n c)"

definition memcpy :: "mem \<Rightarrow> addr \<Rightarrow> addr \<Rightarrow> nat \<Rightarrow> mem" where
  "memcpy m dst src n = store_bytes m dst (load_bytes m src n)"

lemma length_load_bytes [simp]: "length (load_bytes m a n) = n"
  by (simp add: load_bytes_def)

lemma nth_load_bytes [simp]: "i < n \<Longrightarrow> load_bytes m a n ! i = m (a + int i)"
  by (simp add: load_bytes_def)

lemma load_bytes_cong:
  "(\<And>i. i < n \<Longrightarrow> m (a + int i) = m' (b + int i)) \<Longrightarrow> load_bytes m a n = load_bytes m' b n"
  by (simp add: load_bytes_def)

lemma store_bytes_outside [mem_simps]:
  "x < a \<or> a + int (length bs) \<le> x \<Longrightarrow> store_bytes m a bs x = m x"
  by (auto simp: store_bytes_def)

lemma store_bytes_inside [mem_simps]:
  "a \<le> x \<Longrightarrow> x < a + int (length bs) \<Longrightarrow> store_bytes m a bs x = bs ! nat (x - a)"
  by (simp add: store_bytes_def)

lemma load_store_same [simp]: "load_bytes (store_bytes m a bs) a (length bs) = bs"
  by (rule nth_equalityI) (simp_all add: store_bytes_def)

lemma load_store_disjoint:
  "a + int n \<le> b \<or> b + int (length bs) \<le> a \<Longrightarrow>
     load_bytes (store_bytes m b bs) a n = load_bytes m a n"
  by (rule load_bytes_cong) (auto simp: store_bytes_def)

lemma memset_outside [mem_simps]: "x < a \<or> a + int n \<le> x \<Longrightarrow> memset m a c n x = m x"
  by (auto simp: memset_def store_bytes_def)

lemma memset_inside [mem_simps]: "a \<le> x \<Longrightarrow> x < a + int n \<Longrightarrow> memset m a c n x = c"
  by (auto simp: memset_def store_bytes_def)

lemma memcpy_outside [mem_simps]:
  "x < dst \<or> dst + int n \<le> x \<Longrightarrow> memcpy m dst src n x = m x"
  by (auto simp: memcpy_def store_bytes_def)

lemma memcpy_inside [mem_simps]: "i < n \<Longrightarrow> memcpy m dst src n (dst + int i) = m (src + int i)"
  by (simp add: memcpy_def store_bytes_def)

subsection \<open>Eight-byte little-endian words\<close>

definition bytes_of64 :: "64 word \<Rightarrow> byte list" where
  "bytes_of64 w = map (\<lambda>i. ucast (drop_bit (8 * i) w)) [0..<8]"

definition word64_of :: "byte list \<Rightarrow> 64 word" where
  "word64_of bs = word_of_int (horner_sum uint 256 bs)"

definition load64 :: "mem \<Rightarrow> addr \<Rightarrow> 64 word" where
  "load64 m a = word64_of (load_bytes m a 8)"

definition store64 :: "mem \<Rightarrow> addr \<Rightarrow> 64 word \<Rightarrow> mem" where
  "store64 m a w = store_bytes m a (bytes_of64 w)"

lemma length_bytes_of64 [simp]: "length (bytes_of64 w) = 8"
  by (simp add: bytes_of64_def)

lemma uint_byte_of64: "uint (ucast (drop_bit (8 * i) w) :: byte) = uint w div 256 ^ i mod 256"
  for w :: "64 word"
proof -
  have "uint (ucast (drop_bit (8 * i) w) :: byte) = take_bit 8 (uint (drop_bit (8 * i) w))"
    by (simp add: unsigned_ucast_eq)
  also have "uint (drop_bit (8 * i) w) = drop_bit (8 * i) (uint w)"
    by (simp only: unsigned_drop_bit_eq bintr_uint [OF order_refl])
  also have "\<dots> = uint w div 256 ^ i"
    by (simp add: drop_bit_eq_div power_mult)
  finally show ?thesis by (simp add: take_bit_eq_mod)
qed

lemma horner_digits: "horner_sum (\<lambda>i. x div b ^ i mod b) b [0..<n] = x mod b ^ n"
  if "0 < b" for x b :: int
proof (induction n arbitrary: x)
  case 0
  then show ?case by simp
next
  case (Suc n)
  have shift: "horner_sum (\<lambda>i. x div b ^ i mod b) b (map Suc [0..<n])
      = horner_sum (\<lambda>i. (x div b) div b ^ i mod b) b [0..<n]"
    using that by (simp add: horner_sum_eq_sum_funpow o_def horner_sum_eq_sum div_mult2_eq
        zdiv_zmult2_eq cong: map_cong)
  have "horner_sum (\<lambda>i. x div b ^ i mod b) b [0..<Suc n]
      = x mod b + b * ((x div b) mod b ^ n)"
    by (simp add: upt_conv_Cons map_Suc_upt [symmetric] shift Suc.IH del: upt_Suc)
  also have "\<dots> = x mod b ^ Suc n"
    using that by (simp add: zmod_zmult2_eq mult.commute)
  finally show ?case .
qed

lemma word64_of_bytes_of64 [simp]: "word64_of (bytes_of64 w) = w"
proof -
  have "horner_sum uint 256 (bytes_of64 w) = horner_sum (\<lambda>i. uint w div 256 ^ i mod 256) 256 [0..<8]"
    unfolding bytes_of64_def horner_sum_foldr
    by (simp add: foldr_map o_def uint_byte_of64 del: upt_rec_numeral)
  also have "\<dots> = uint w mod 256 ^ 8"
    by (rule horner_digits) simp
  also have "\<dots> = uint w"
    using uint_lt2p [of w] by simp
  finally show ?thesis by (simp add: word64_of_def)
qed

lemma load64_store64 [simp, mem_simps]: "load64 (store64 m a w) a = w"
  using load_store_same [of m a "bytes_of64 w"] by (simp add: load64_def store64_def)

lemma load64_store_bytes:
  "a + 8 \<le> b \<or> b + int (length bs) \<le> a \<Longrightarrow> load64 (store_bytes m b bs) a = load64 m a"
  by (simp add: load64_def load_store_disjoint)

lemma load64_store64_other [mem_simps]:
  "a + 8 \<le> b \<or> b + 8 \<le> a \<Longrightarrow> load64 (store64 m b w) a = load64 m a"
  by (simp add: store64_def load64_store_bytes)

lemma store64_outside [mem_simps]: "x < a \<or> a + 8 \<le> x \<Longrightarrow> store64 m a w x = m x"
  by (simp add: store64_def store_bytes_outside)

lemma load64_cong: "(\<And>x. a \<le> x \<Longrightarrow> x < a + 8 \<Longrightarrow> m x = m' x) \<Longrightarrow> load64 m a = load64 m' a"
  unfolding load64_def by (rule arg_cong [OF load_bytes_cong]) simp

end
