(* ===== verification/Memlib.thy ===== *)
theory Memlib
  imports C_Prelude
begin

text \<open>
  \<open>malloclab/memlib.c\<close>: the simulated memory system under the malloc packages. Its three
  private pointers, the bytes of the block they delimit and \<open>errno\<close> are the record
  \<open>memlib\<close>; each function is a definition of the same name. The block itself comes from the C
  library's \<open>malloc\<close>, whose answer is an argument of \<open>mem_init\<close>.
\<close>

section \<open>State and operations\<close>

record memlib =
  mem_bytes :: mem
  mem_start_brk :: addr
  mem_brk :: addr
  mem_max_addr :: addr
  mem_live :: bool
  mem_errno :: int

definition ALIGNMENT :: nat where "ALIGNMENT = 16"

definition MAX_HEAP :: int where "MAX_HEAP = 200 * (1 * 2 ^ 20)"

definition ENOMEM :: int where "ENOMEM = 12"

text \<open>\<open>(void *)-1\<close>: the address with all bits set.\<close>

definition SBRK_FAIL :: addr where "SBRK_FAIL = 2 ^ 64 - 1"

definition align :: "size_t \<Rightarrow> size_t" where
  "align sz = (sz + (of_nat ALIGNMENT - 1)) AND NOT (of_nat ALIGNMENT - 1)"

definition is_aligned :: "addr \<Rightarrow> bool" where
  "is_aligned p \<longleftrightarrow> sint (word_of_int p :: 64 word) smod int ALIGNMENT = 0"

text \<open>\<open>mem_init\<close>: the argument \<open>blk\<close> is what \<open>malloc(MAX_HEAP)\<close> returned.\<close>

definition mem_init :: "addr \<Rightarrow> memlib \<Rightarrow> memlib res" where
  "mem_init blk s =
     (if blk = NULL then Inl (Exit 1)
      else Inr (s\<lparr>mem_start_brk := blk, mem_max_addr := blk + MAX_HEAP, mem_brk := blk,
                  mem_live := True\<rparr>))"

definition mem_deinit :: "memlib \<Rightarrow> memlib res" where
  "mem_deinit s = (if mem_live s then Inr (s\<lparr>mem_live := False\<rparr>) else Inl UseAfterFree)"

definition mem_reset_brk :: "memlib \<Rightarrow> memlib" where
  "mem_reset_brk s = s\<lparr>mem_brk := mem_start_brk s\<rparr>"

definition mem_sbrk :: "memlib \<Rightarrow> int \<Rightarrow> addr \<times> memlib" where
  "mem_sbrk s incr =
     (if incr < 0 \<or> mem_brk s + incr > mem_max_addr s
      then (SBRK_FAIL, s\<lparr>mem_errno := ENOMEM\<rparr>)
      else (mem_brk s, s\<lparr>mem_brk := mem_brk s + incr\<rparr>))"

definition mem_heap_lo :: "memlib \<Rightarrow> addr" where
  "mem_heap_lo s = mem_start_brk s"

definition mem_heap_hi :: "memlib \<Rightarrow> addr" where
  "mem_heap_hi s = mem_brk s - 1"

definition mem_heapsize :: "memlib \<Rightarrow> size_t" where
  "mem_heapsize s = word_of_int (mem_brk s - mem_start_brk s)"

definition mem_pagesize :: "int \<Rightarrow> size_t" where
  "mem_pagesize getpagesize = word_of_int getpagesize"

text \<open>
  Accesses through pointers into the block: defined while the block is allocated and
  the bytes lie inside it, undefined behaviour otherwise.
\<close>

definition in_block :: "memlib \<Rightarrow> addr \<Rightarrow> int \<Rightarrow> bool" where
  "in_block s a n \<longleftrightarrow> mem_live s \<and> 0 \<le> n \<and> mem_start_brk s \<le> a \<and> a + n \<le> mem_max_addr s"

definition chk_block :: "memlib \<Rightarrow> addr \<Rightarrow> int \<Rightarrow> unit res" where
  "chk_block s a n =
     (if \<not> mem_live s then Inl UseAfterFree
      else if in_block s a n then Inr () else Inl OutOfBounds)"

section \<open>Alignment\<close>

lemma align_alt: "align sz = (sz + 15) AND NOT (mask 4)"
  by (simp add: align_def ALIGNMENT_def mask_eq_exp_minus_1)

lemma uint_and_not_mask: "uint (w AND NOT (mask n)) = 2 ^ n * (uint w div 2 ^ n)"
  for w :: "'a::len word"
proof -
  have "uint (w AND NOT (mask n)) = push_bit n (drop_bit n (uint w))"
    by (rule bit_eqI) (auto simp: bit_simps bit_uint_iff dest: bit_imp_le_length)
  then show ?thesis
    by (simp add: push_bit_eq_mult drop_bit_eq_div mult.commute)
qed

lemma uint_align:
  assumes "uint sz < 2 ^ 64 - 15"
  shows "uint (align sz) = 16 * ((uint sz + 15) div 16)"
proof -
  have "uint (sz + 15) = uint sz + 15"
    using assms by (simp add: uint_add_lem [THEN iffD1])
  then show ?thesis by (simp add: align_alt uint_and_not_mask)
qed

lemma align_dvd: "16 dvd uint (align sz)"
  by (simp add: align_alt uint_and_not_mask)

lemma align_ge: "uint sz < 2 ^ 64 - 15 \<Longrightarrow> uint sz \<le> uint (align sz)"
  by (simp add: uint_align)

lemma align_le: "uint sz < 2 ^ 64 - 15 \<Longrightarrow> uint (align sz) \<le> uint sz + 15"
  by (simp add: uint_align)

lemma is_aligned_iff: "is_aligned p \<longleftrightarrow> p mod 16 = 0"
proof -
  let ?k = "sint (word_of_int p :: 64 word)"
  have "is_aligned p \<longleftrightarrow> ?k = 0 \<or> 16 dvd \<bar>?k\<bar>"
    by (simp add: is_aligned_def ALIGNMENT_def signed_modulo_int_def sgn_0_0
        mod_eq_0_iff_dvd del: dvd_abs_iff)
  then have "is_aligned p \<longleftrightarrow> take_bit 4 ?k = 0"
    by (auto simp: take_bit_eq_mod mod_eq_0_iff_dvd)
  also have "take_bit 4 ?k = take_bit 4 p"
    by (simp add: signed_of_int take_bit_signed_take_bit)
  finally show ?thesis by (simp add: take_bit_eq_mod)
qed

section \<open>The heap discipline\<close>

text \<open>
  What the C library documents of \<open>malloc\<close> when it succeeds: the block is not at \<open>NULL\<close>, is
  aligned for every type (16 bytes on x86-64) and lies in the user half of the address space.
\<close>

definition libc_block :: "addr \<Rightarrow> int \<Rightarrow> bool" where
  "libc_block p n \<longleftrightarrow> NULL < p \<and> p mod 16 = 0 \<and> p + n < 2 ^ 63"

definition memlib_inv :: "memlib \<Rightarrow> bool" where
  "memlib_inv s \<longleftrightarrow>
     mem_live s \<and> libc_block (mem_start_brk s) MAX_HEAP \<and>
     mem_max_addr s = mem_start_brk s + MAX_HEAP \<and>
     mem_start_brk s \<le> mem_brk s \<and> mem_brk s \<le> mem_max_addr s"

text \<open>Two states share their block: no operation after \<open>mem_init\<close> moves it.\<close>

definition same_block :: "memlib \<Rightarrow> memlib \<Rightarrow> bool" where
  "same_block s t \<longleftrightarrow>
     mem_start_brk t = mem_start_brk s \<and> mem_max_addr t = mem_max_addr s \<and>
     mem_live t = mem_live s"

lemma same_block_refl [simp]: "same_block s s"
  by (simp add: same_block_def)

lemma same_block_trans: "same_block s t \<Longrightarrow> same_block t u \<Longrightarrow> same_block s u"
  by (simp add: same_block_def)

lemma memlib_inv_bounds:
  assumes "memlib_inv s"
  shows "0 < mem_start_brk s" "mem_start_brk s \<le> mem_brk s" "mem_brk s \<le> mem_max_addr s"
    "mem_max_addr s < 2 ^ 63" "mem_max_addr s = mem_start_brk s + MAX_HEAP" "mem_live s"
    "mem_start_brk s mod 16 = 0"
  using assms by (auto simp: memlib_inv_def libc_block_def NULL_def)

lemma memlib_inv_mem_bytes [simp]: "memlib_inv (s\<lparr>mem_bytes := m\<rparr>) = memlib_inv s"
  by (simp add: memlib_inv_def)

lemma mem_init_inv:
  assumes "libc_block blk MAX_HEAP"
  shows "\<exists>t. mem_init blk s = Inr t \<and> memlib_inv t \<and> mem_brk t = mem_start_brk t \<and>
    mem_start_brk t = blk \<and> mem_bytes t = mem_bytes s"
  using assms by (auto simp: mem_init_def memlib_inv_def libc_block_def MAX_HEAP_def)

lemma mem_reset_brk_inv: "memlib_inv s \<Longrightarrow> memlib_inv (mem_reset_brk s)"
  by (simp add: mem_reset_brk_def memlib_inv_def)

lemma mem_sbrk_inv: "memlib_inv s \<Longrightarrow> memlib_inv (snd (mem_sbrk s incr))"
  by (auto simp: mem_sbrk_def memlib_inv_def)

lemma mem_sbrk_fail_iff:
  assumes "memlib_inv s"
  shows "fst (mem_sbrk s incr) = SBRK_FAIL \<longleftrightarrow> incr < 0 \<or> mem_brk s + incr > mem_max_addr s"
  using memlib_inv_bounds [OF assms] by (auto simp: mem_sbrk_def SBRK_FAIL_def)

lemma chk_block_ok [simp, res_simps]: "in_block s a n \<Longrightarrow> chk_block s a n = Inr ()"
  by (simp add: chk_block_def in_block_def)

lemma chk_block_eq_Inr [simp]: "chk_block s a n = Inr u \<longleftrightarrow> in_block s a n"
  by (auto simp: chk_block_def in_block_def)

lemma in_block_mem_bytes [simp]: "in_block (s\<lparr>mem_bytes := m\<rparr>) a n = in_block s a n"
  by (simp add: in_block_def)

lemma in_blockI:
  "memlib_inv s \<Longrightarrow> 0 \<le> n \<Longrightarrow> mem_start_brk s \<le> a \<Longrightarrow> a + n \<le> mem_brk s \<Longrightarrow> in_block s a n"
  by (auto simp: in_block_def memlib_inv_def)

lemma uint_mem_heapsize:
  assumes "memlib_inv s"
  shows "uint (mem_heapsize s) = mem_brk s - mem_start_brk s"
  unfolding mem_heapsize_def
  by (rule uint64_of_int) (use memlib_inv_bounds [OF assms] in \<open>simp_all add: MAX_HEAP_def\<close>)

section \<open>What the memory system promises\<close>

text \<open>
  \<open>mem_sbrk\<close> keeps the memory system in order. It fails, with \<open>errno\<close> set to \<open>ENOMEM\<close>, exactly
  when the increment is negative or would pass the end of the 200 MB block, and then the heap is as
  before; otherwise it returns the old end of the heap and the heap is larger by the increment.
\<close>

theorem mem_sbrk_spec:
  assumes "memlib_inv s"
  shows "memlib_inv (snd (mem_sbrk s incr)) \<and>
    (if incr < 0 \<or> uint (mem_heapsize s) + incr > MAX_HEAP
     then fst (mem_sbrk s incr) = SBRK_FAIL \<and> mem_errno (snd (mem_sbrk s incr)) = ENOMEM \<and>
       mem_heapsize (snd (mem_sbrk s incr)) = mem_heapsize s
     else fst (mem_sbrk s incr) = mem_heap_hi s + 1 \<and> fst (mem_sbrk s incr) \<noteq> SBRK_FAIL \<and>
       uint (mem_heapsize (snd (mem_sbrk s incr))) = uint (mem_heapsize s) + incr)"
proof -
  have inv: "memlib_inv (snd (mem_sbrk s incr))" using assms by (rule mem_sbrk_inv)
  have "mem_brk s + incr > mem_max_addr s \<longleftrightarrow> uint (mem_heapsize s) + incr > MAX_HEAP"
    using memlib_inv_bounds [OF assms] by (auto simp: uint_mem_heapsize [OF assms])
  moreover have "mem_heapsize (s\<lparr>mem_errno := ENOMEM\<rparr>) = mem_heapsize s"
    by (simp add: mem_heapsize_def)
  ultimately show ?thesis
    using inv mem_sbrk_fail_iff [OF assms, of incr] uint_mem_heapsize [OF inv]
    by (auto simp: uint_mem_heapsize [OF assms] mem_sbrk_def mem_heap_hi_def)
qed

theorem mem_sbrk_spec_witness:
  "fst (mem_sbrk \<lparr>mem_bytes = (\<lambda>_. 0), mem_start_brk = 4096, mem_brk = 4096,
      mem_max_addr = 4096 + MAX_HEAP, mem_live = True, mem_errno = 0\<rparr> 48) = 4096"
  using mem_sbrk_spec [of "\<lparr>mem_bytes = (\<lambda>_. 0), mem_start_brk = 4096, mem_brk = 4096,
      mem_max_addr = 4096 + MAX_HEAP, mem_live = True, mem_errno = 0\<rparr>" 48]
  by (simp add: memlib_inv_def libc_block_def MAX_HEAP_def NULL_def mem_heapsize_def mem_heap_hi_def)

end
