(* ===== verification/MM_Package.thy ===== *)
theory MM_Package
  imports Memlib
begin

text \<open>
  The interface of \<open>malloclab/mm.h\<close>: a malloc package is the record of its four functions over
  the memory system's state, and the driver is linked against one (\<open>mm.o\<close> or
  \<open>mm-naive.o\<close>). The locale \<open>mm_contract\<close> states what the driver expects of a correct package:
  \<open>live s L\<close> says that in state \<open>s\<close> the blocks allocated and not yet freed are those of the map
  \<open>L\<close> from payload address to requested size, and \<open>cost n\<close> bounds what a request of \<open>n\<close> bytes
  takes off the heap.
\<close>

record mm_pkg =
  pkg_init :: "memlib \<Rightarrow> (int \<times> memlib) res"
  pkg_malloc :: "memlib \<Rightarrow> size_t \<Rightarrow> (addr \<times> memlib) res"
  pkg_free :: "memlib \<Rightarrow> addr \<Rightarrow> memlib res"
  pkg_realloc :: "memlib \<Rightarrow> addr \<Rightarrow> size_t \<Rightarrow> (addr \<times> memlib) res"

type_synonym live_map = "addr \<rightharpoonup> int"

text \<open>The bytes of the live blocks of \<open>L\<close> are the same in both states.\<close>

definition blocks_kept :: "live_map \<Rightarrow> memlib \<Rightarrow> memlib \<Rightarrow> bool" where
  "blocks_kept L s t \<longleftrightarrow>
     (\<forall>p n x. L p = Some n \<longrightarrow> p \<le> x \<longrightarrow> x < p + n \<longrightarrow> mem_bytes t x = mem_bytes s x)"

text \<open>A write that only touches bytes of the live block at \<open>p\<close>.\<close>

definition write_inside :: "live_map \<Rightarrow> addr \<Rightarrow> mem \<Rightarrow> mem \<Rightarrow> bool" where
  "write_inside L p m m' \<longleftrightarrow>
     (\<exists>n. L p = Some n \<and> (\<forall>x. x < p \<or> p + n \<le> x \<longrightarrow> m' x = m x))"

locale mm_contract =
  fixes pkg :: mm_pkg
    and live :: "memlib \<Rightarrow> live_map \<Rightarrow> bool"
    and cost :: "int \<Rightarrow> int"
  assumes live_inv: "live s L \<Longrightarrow> memlib_inv s"
    and live_block: "live s L \<Longrightarrow> L p = Some n \<Longrightarrow>
      0 < n \<and> p mod 16 = 0 \<and> mem_start_brk s \<le> p \<and> p + n \<le> mem_brk s"
    and live_disjoint: "live s L \<Longrightarrow> L p = Some n \<Longrightarrow> L q = Some k \<Longrightarrow> p \<noteq> q \<Longrightarrow>
      p + n \<le> q \<or> q + k \<le> p"
    and live_write: "live s L \<Longrightarrow> write_inside L p (mem_bytes s) m \<Longrightarrow>
      live (s\<lparr>mem_bytes := m\<rparr>) L"
    and cost_pos: "0 < n \<Longrightarrow> n \<le> cost n"
    and init_ok: "memlib_inv s \<Longrightarrow> mem_brk s = mem_start_brk s \<Longrightarrow>
      \<exists>r t. pkg_init pkg s = Inr (r, t) \<and> 0 \<le> r \<and> live t Map.empty \<and> same_block s t \<and>
        mem_brk t = mem_brk s"
    and malloc_ok: "live s L \<Longrightarrow> 0 < n \<Longrightarrow> mem_brk s + cost n \<le> mem_max_addr s \<Longrightarrow>
      \<exists>p t. pkg_malloc pkg s (word_of_int n) = Inr (p, t) \<and> L p = None \<and> live t (L(p \<mapsto> n)) \<and>
        same_block s t \<and> mem_brk s \<le> mem_brk t \<and> mem_brk t \<le> mem_brk s + cost n \<and> blocks_kept L s t"
    and free_ok: "live s L \<Longrightarrow> L p = Some n \<Longrightarrow>
      \<exists>t. pkg_free pkg s p = Inr t \<and> live t (L(p := None)) \<and> same_block s t \<and>
        mem_brk t = mem_brk s \<and> blocks_kept (L(p := None)) s t"
    and realloc_ok: "live s L \<Longrightarrow> L p = Some k \<Longrightarrow> 0 < n \<Longrightarrow>
      mem_brk s + cost n \<le> mem_max_addr s \<Longrightarrow>
      \<exists>q t. pkg_realloc pkg s p (word_of_int n) = Inr (q, t) \<and> (L(p := None)) q = None \<and>
        live t (L(p := None, q \<mapsto> n)) \<and> same_block s t \<and> mem_brk s \<le> mem_brk t \<and> mem_brk t \<le> mem_brk s + cost n \<and>
        blocks_kept (L(p := None)) s t \<and>
        (\<forall>i. 0 \<le> i \<longrightarrow> i < min k n \<longrightarrow> mem_bytes t (q + i) = mem_bytes s (p + i))"
begin

lemma live_not_null: "live s L \<Longrightarrow> L p = Some n \<Longrightarrow> p \<noteq> NULL"
  using live_block [of s L p n] live_inv [of s L] memlib_inv_bounds [of s]
  by (auto simp: NULL_def)

lemma live_in_block: "live s L \<Longrightarrow> L p = Some n \<Longrightarrow> in_block s p n"
  using live_block [of s L p n] by (auto intro!: in_blockI dest: live_inv)

text \<open>Filling a live block with a byte keeps the package's view of the heap.\<close>

lemma live_memset:
  assumes "live s L" and "L p = Some n"
  shows "live (s\<lparr>mem_bytes := memset (mem_bytes s) p c (nat n)\<rparr>) L"
proof (rule live_write [OF assms(1)])
  show "write_inside L p (mem_bytes s) (memset (mem_bytes s) p c (nat n))"
    using assms live_block [OF assms] by (auto simp: write_inside_def memset_outside)
qed

lemma blocks_kept_memset:
  assumes "live s L" and "L p = Some n"
  shows "blocks_kept (L(p := None)) s (s\<lparr>mem_bytes := memset (mem_bytes s) p c (nat n)\<rparr>)"
  unfolding blocks_kept_def
proof (intro allI impI)
  fix q k x
  assume q: "(L(p := None)) q = Some k" and x: "q \<le> x" "x < q + k"
  then have "p + n \<le> q \<or> q + k \<le> p"
    using assms live_disjoint [OF assms, of q k] by (auto split: if_splits)
  with x live_block [OF assms]
  show "mem_bytes (s\<lparr>mem_bytes := memset (mem_bytes s) p c (nat n)\<rparr>) x = mem_bytes s x"
    by (auto intro!: memset_outside)
qed

end

end
