(* ===== verification/MM_Naive.thy ===== *)
theory MM_Naive
  imports MM_Package
begin

text \<open>
  \<open>malloclab/mm-naive.c\<close>: the example malloc package. Chunks are carved off the end of the
  heap by \<open>mem_sbrk\<close>; each starts with a 16-byte header whose first word holds the chunk size
  with the allocation status in its lowest bit. The package keeps no variables of its own, so
  its state is the memory system's. Every header access is a checked access of the block.
\<close>

section \<open>Chunk headers\<close>

definition sizeof_header :: int where "sizeof_header = 16"

definition get_size_n_status :: "memlib \<Rightarrow> addr \<Rightarrow> 64 word res" where
  "get_size_n_status s hdr =
     res_bind (chk_block s hdr 8) (\<lambda>_. Inr (load64 (mem_bytes s) hdr))"

definition put_size_n_status :: "memlib \<Rightarrow> addr \<Rightarrow> 64 word \<Rightarrow> memlib res" where
  "put_size_n_status s hdr w =
     res_bind (chk_block s hdr 8) (\<lambda>_. Inr (s\<lparr>mem_bytes := store64 (mem_bytes s) hdr w\<rparr>))"

definition set_chunk_size_status :: "memlib \<Rightarrow> addr \<Rightarrow> size_t \<Rightarrow> bool \<Rightarrow> memlib res" where
  "set_chunk_size_status s hdr sz status = put_size_n_status s hdr (sz OR of_bool status)"

definition set_chunk_status :: "memlib \<Rightarrow> addr \<Rightarrow> bool \<Rightarrow> memlib res" where
  "set_chunk_status s hdr status =
     (let msk = NOT (1 - of_bool status)
      in res_bind (get_size_n_status s hdr) (\<lambda>w. put_size_n_status s hdr (w AND msk)))"

definition get_chunk_status :: "memlib \<Rightarrow> addr \<Rightarrow> bool res" where
  "get_chunk_status s hdr = res_bind (get_size_n_status s hdr) (\<lambda>w. Inr (w AND 1 \<noteq> 0))"

definition get_chunk_size :: "memlib \<Rightarrow> addr \<Rightarrow> size_t res" where
  "get_chunk_size s hdr = res_bind (get_size_n_status s hdr) (\<lambda>w. Inr (w AND NOT 1))"

definition payload_to_header :: "addr \<Rightarrow> addr" where
  "payload_to_header p = p - sizeof_header"

definition header_to_payload :: "addr \<Rightarrow> addr" where
  "header_to_payload hdr = hdr + sizeof_header"

definition get_next_chunk :: "memlib \<Rightarrow> addr \<Rightarrow> addr res" where
  "get_next_chunk s hdr = res_bind (get_chunk_size s hdr) (\<lambda>sz. Inr (hdr + uint sz))"

section \<open>The package\<close>

definition mm_init :: "memlib \<Rightarrow> (int \<times> memlib) res" where
  "mm_init s = Inr (0, s)"

definition mm_malloc :: "memlib \<Rightarrow> size_t \<Rightarrow> (addr \<times> memlib) res" where
  "mm_malloc s sz =
     (let newsize = int_of_size (align sz + word_of_int sizeof_header);
          (h, s1) = mem_sbrk s newsize
      in if h = SBRK_FAIL then Inr (NULL, s1)
         else
           res_bind (c_assert (is_aligned h)) (\<lambda>_.
           res_bind (set_chunk_size_status s1 h (word_of_int newsize) True) (\<lambda>s2.
           res_bind (get_chunk_status s2 h) (\<lambda>st.
           res_bind (c_assert (st = True)) (\<lambda>_.
           res_bind (get_chunk_size s2 h) (\<lambda>csz.
           res_bind (c_assert (csz = word_of_int newsize)) (\<lambda>_.
           Inr (header_to_payload h, s2))))))))"

definition mm_free :: "memlib \<Rightarrow> addr \<Rightarrow> memlib res" where
  "mm_free s ptr =
     res_bind (c_assert (ptr \<ge> mem_heap_lo s \<and> ptr \<le> mem_heap_hi s)) (\<lambda>_.
     (let h = payload_to_header ptr
      in res_bind (set_chunk_status s h False) (\<lambda>s1.
         res_bind (get_chunk_status s1 h) (\<lambda>st.
         res_bind (c_assert (st = False)) (\<lambda>_.
         Inr s1)))))"

text \<open>The copy of \<open>mm_realloc\<close>: both ranges must lie in the block.\<close>

definition block_memcpy :: "memlib \<Rightarrow> addr \<Rightarrow> addr \<Rightarrow> size_t \<Rightarrow> memlib res" where
  "block_memcpy s dst src n =
     res_bind (chk_block s src (uint n)) (\<lambda>_.
     res_bind (chk_block s dst (uint n)) (\<lambda>_.
     Inr (s\<lparr>mem_bytes := memcpy (mem_bytes s) dst src (unat n)\<rparr>)))"

definition mm_realloc_copy :: "memlib \<Rightarrow> addr \<Rightarrow> addr \<Rightarrow> size_t \<Rightarrow> memlib res" where
  "mm_realloc_copy s newptr ptr sz =
     (let h = payload_to_header ptr
      in res_bind (get_chunk_size s h) (\<lambda>csz.
         (let copySize = csz - word_of_int sizeof_header;
              copySize' = (if sz < copySize then sz else copySize)
          in block_memcpy s newptr ptr copySize')))"

definition mm_realloc :: "memlib \<Rightarrow> addr \<Rightarrow> size_t \<Rightarrow> (addr \<times> memlib) res" where
  "mm_realloc s ptr sz =
     res_bind
       (if sz > 0
        then res_bind (mm_malloc s sz) (\<lambda>(newptr, s1).
               if newptr = NULL then Inr (Inl s1)
               else if ptr \<noteq> NULL
               then res_bind (mm_realloc_copy s1 newptr ptr sz) (\<lambda>s2. Inr (Inr (newptr, s2)))
               else Inr (Inr (newptr, s1)))
        else Inr (Inr (NULL, s)))
       (\<lambda>r. case r of
          Inl s1 \<Rightarrow> Inr (NULL, s1)
        | Inr (newptr, s2) \<Rightarrow>
            if ptr \<noteq> NULL then res_bind (mm_free s2 ptr) (\<lambda>s3. Inr (newptr, s3))
            else Inr (newptr, s2))"

text \<open>
  \<open>mm_checkheap\<close>: the walk over the chunks. It may run forever on a corrupt heap, so its
  value is \<open>None\<close> when it does not return; what it prints is the list of its lines.
\<close>

record heap_totals =
  total_allocated :: "64 word"
  total_free :: "64 word"
  total_allocated_sz :: "64 word"
  total_free_sz :: "64 word"

datatype heap_line =
    ChunkLine "64 word" bool
  | TotalLine "64 word" "64 word" "64 word" "64 word"

definition NORMAL_VERBOSE :: int where "NORMAL_VERBOSE = 1"

definition count_chunk :: "heap_totals \<Rightarrow> size_t \<Rightarrow> bool \<Rightarrow> heap_totals" where
  "count_chunk t sz st =
     (if st then t\<lparr>total_allocated_sz := total_allocated_sz t + sz,
                    total_allocated := total_allocated t + 1\<rparr>
      else t\<lparr>total_free_sz := total_free_sz t + sz, total_free := total_free t + 1\<rparr>)"

partial_function (option) checkheap_loop ::
  "memlib \<Rightarrow> int \<Rightarrow> addr \<Rightarrow> heap_totals \<Rightarrow> heap_line list \<Rightarrow>
     ((heap_totals \<times> heap_line list) res) option" where
  "checkheap_loop s verbose_level h t out =
     (if h < mem_heap_hi s
      then (case get_chunk_size s h of Inl e \<Rightarrow> Some (Inl e)
           | Inr sz \<Rightarrow>
        (case get_chunk_status s h of Inl e \<Rightarrow> Some (Inl e)
           | Inr st \<Rightarrow>
        (case get_next_chunk s h of Inl e \<Rightarrow> Some (Inl e)
           | Inr nxt \<Rightarrow>
           checkheap_loop s verbose_level nxt (count_chunk t sz st)
             (if verbose_level > NORMAL_VERBOSE then out @ [ChunkLine sz st] else out))))
      else Some (Inr (t, out)))"

definition mm_checkheap :: "memlib \<Rightarrow> int \<Rightarrow> (heap_line list res) option" where
  "mm_checkheap s verbose_level =
     map_option
       (\<lambda>r. res_bind r (\<lambda>(t, out).
          Inr (if verbose_level > 0
               then out @ [TotalLine (total_allocated t) (total_allocated_sz t)
                             (total_free t) (total_free_sz t)]
               else out)))
       (checkheap_loop s verbose_level (mem_heap_lo s)
          \<lparr>total_allocated = 0, total_free = 0, total_allocated_sz = 0, total_free_sz = 0\<rparr> [])"

section \<open>Header words\<close>

text \<open>The word a chunk header holds.\<close>

definition hdr_word :: "int \<Rightarrow> bool \<Rightarrow> 64 word" where
  "hdr_word sz st = word_of_int sz OR of_bool st"

lemma even_word_bit0: "16 dvd sz \<Longrightarrow> \<not> bit (word_of_int sz :: 64 word) 0" for sz :: int
  by (auto simp: bit_word_of_int_iff bit_0 elim: dvdE)

lemma bit_hdr_word_0: "16 dvd sz \<Longrightarrow> bit (hdr_word sz st) 0 = st"
  using even_word_bit0 [of sz] by (simp add: hdr_word_def bit_or_iff bit_of_bool_iff)

lemma hdr_word_status [simp]: "16 dvd sz \<Longrightarrow> (hdr_word sz st AND 1 = 0) = (\<not> st)"
  using bit_hdr_word_0 [of sz st] by (auto simp: and_one_eq bit_0 mod2_eq_if)

lemma hdr_word_size [simp]:
  assumes "16 dvd sz"
  shows "hdr_word sz st AND - 2 = word_of_int sz"
proof (rule bit_word_eqI)
  fix n assume "n < LENGTH(64)"
  have "(- 2 :: 64 word) = NOT 1" by simp
  then have "bit (hdr_word sz st AND - 2) n = (n \<noteq> 0 \<and> bit (hdr_word sz st) n)"
    using \<open>n < LENGTH(64)\<close> by (simp only: bit_and_iff bit_not_iff bit_1_iff) auto
  then show "bit (hdr_word sz st AND - 2) n = bit (word_of_int sz :: 64 word) n"
    using even_word_bit0 [OF assms] by (cases n) (simp_all add: hdr_word_def bit_simps)
qed

lemma hdr_word_False: "hdr_word sz False = word_of_int sz"
  by (simp add: hdr_word_def)

section \<open>The tiling of the heap by chunks\<close>

text \<open>
  A chunk list describes the heap from \<open>lo\<close> to \<open>hi\<close>: sizes and statuses of consecutive chunks,
  each recorded in its header.
\<close>

type_synonym chunks = "(int \<times> bool) list"

fun tiles :: "mem \<Rightarrow> addr \<Rightarrow> chunks \<Rightarrow> addr \<Rightarrow> bool" where
  "tiles m lo [] hi \<longleftrightarrow> lo = hi"
| "tiles m lo ((sz, st) # cs) hi \<longleftrightarrow>
     load64 m lo = hdr_word sz st \<and> 16 \<le> sz \<and> 16 dvd sz \<and> tiles m (lo + sz) cs hi"

fun chunk_at :: "addr \<Rightarrow> chunks \<Rightarrow> addr \<Rightarrow> (int \<times> bool) option" where
  "chunk_at lo [] a = None"
| "chunk_at lo ((sz, st) # cs) a = (if a = lo then Some (sz, st) else chunk_at (lo + sz) cs a)"

fun header_addrs :: "addr \<Rightarrow> chunks \<Rightarrow> addr set" where
  "header_addrs lo [] = {}"
| "header_addrs lo ((sz, st) # cs) = {lo..<lo + 8} \<union> header_addrs (lo + sz) cs"

fun free_chunk :: "addr \<Rightarrow> chunks \<Rightarrow> addr \<Rightarrow> chunks" where
  "free_chunk lo [] a = []"
| "free_chunk lo ((sz, st) # cs) a =
     (if a = lo then (sz, False) # cs else (sz, st) # free_chunk (lo + sz) cs a)"

lemma tiles_le: "tiles m lo cs hi \<Longrightarrow> lo \<le> hi"
  by (induction cs arbitrary: lo) (auto, force)

lemma tiles_append:
  "tiles m lo (cs @ ds) hi \<longleftrightarrow> (\<exists>mid. tiles m lo cs mid \<and> tiles m mid ds hi)"
  by (induction cs arbitrary: lo) auto

lemma header_addrs_append:
  "tiles m lo cs mid \<Longrightarrow> header_addrs lo (cs @ ds) = header_addrs lo cs \<union> header_addrs mid ds"
  by (induction cs arbitrary: lo) auto

lemma header_addrs_bounds: "tiles m lo cs hi \<Longrightarrow> x \<in> header_addrs lo cs \<Longrightarrow> lo \<le> x \<and> x < hi"
  by (induction cs arbitrary: lo) (fastforce dest: tiles_le)+

lemma tiles_cong:
  "tiles m lo cs hi \<Longrightarrow> (\<And>x. x \<in> header_addrs lo cs \<Longrightarrow> m' x = m x) \<Longrightarrow> tiles m' lo cs hi"
proof (induction cs arbitrary: lo)
  case (Cons c cs)
  obtain sz st where c: "c = (sz, st)" by (cases c)
  have "load64 m' lo = load64 m lo"
    by (rule load64_cong) (simp add: Cons.prems(2) c)
  with Cons c show ?case by auto
qed simp

lemma chunk_at_bounds:
  "tiles m lo cs hi \<Longrightarrow> chunk_at lo cs a = Some (sz, st) \<Longrightarrow>
     lo \<le> a \<and> a + sz \<le> hi \<and> 16 \<le> sz \<and> 16 dvd sz \<and> load64 m a = hdr_word sz st \<and>
     16 dvd a - lo"
proof (induction cs arbitrary: lo)
  case (Cons c cs)
  obtain sz' st' where c: "c = (sz', st')" by (cases c)
  show ?case
  proof (cases "a = lo")
    case True
    with Cons.prems c show ?thesis by (auto dest: tiles_le)
  next
    case False
    with Cons c have IH: "lo + sz' \<le> a" "a + sz \<le> hi" "16 \<le> sz" "16 dvd sz"
      "load64 m a = hdr_word sz st" "16 dvd a - (lo + sz')" "16 \<le> sz'" "16 dvd sz'"
      by auto
    from IH(6,8) have "16 dvd a - lo" by presburger
    with IH show ?thesis by auto
  qed
qed simp

lemma chunk_at_appendI: "chunk_at lo cs a = Some c \<Longrightarrow> chunk_at lo (cs @ ds) a = Some c"
  by (induction lo cs a rule: chunk_at.induct) (auto split: if_splits)

lemma chunk_at_last: "tiles m lo cs mid \<Longrightarrow> chunk_at lo (cs @ [c]) mid = Some c"
proof (induction cs arbitrary: lo)
  case Nil
  then show ?case by (cases c) simp
next
  case (Cons d cs)
  obtain sz st where d: "d = (sz, st)" by (cases d)
  from Cons.prems d have t: "tiles m (lo + sz) cs mid" "16 \<le> sz" by auto
  with Cons.IH [OF t(1)] d show ?case by (auto dest: tiles_le)
qed

lemma header_addrs_below: "tiles m lo cs hi \<Longrightarrow> x \<in> header_addrs lo cs \<Longrightarrow> lo \<le> x"
  by (auto dest: header_addrs_bounds)

text \<open>No header byte lies in the payload of a chunk, nor in another chunk's header.\<close>

lemma header_addrs_chunk:
  "tiles m lo cs hi \<Longrightarrow> chunk_at lo cs a = Some (sz, st) \<Longrightarrow> x \<in> header_addrs lo cs \<Longrightarrow>
     x < a + 8 \<or> a + sz \<le> x"
proof (induction cs arbitrary: lo)
  case (Cons c cs)
  obtain sz' st' where c: "c = (sz', st')" by (cases c)
  from Cons.prems c have t: "tiles m (lo + sz') cs hi" "16 \<le> sz'" by auto
  show ?case
  proof (cases "a = lo")
    case True
    with Cons.prems c t show ?thesis by (auto dest: header_addrs_below)
  next
    case False
    with Cons.prems c have at: "chunk_at (lo + sz') cs a = Some (sz, st)" by simp
    with chunk_at_bounds [OF t(1)] have "lo + sz' \<le> a" by blast
    with Cons.prems c Cons.IH [OF t(1) at] t show ?thesis by auto
  qed
qed simp

lemma chunks_disjoint:
  "tiles m lo cs hi \<Longrightarrow> chunk_at lo cs a = Some (sz, st) \<Longrightarrow> chunk_at lo cs b = Some (sz', st') \<Longrightarrow>
     a \<noteq> b \<Longrightarrow> a + sz \<le> b \<or> b + sz' \<le> a"
proof (induction cs arbitrary: lo)
  case (Cons c cs)
  obtain sz0 st0 where c: "c = (sz0, st0)" by (cases c)
  from Cons.prems c have t: "tiles m (lo + sz0) cs hi" by auto
  from Cons.prems c show ?case
    using chunk_at_bounds [OF t] Cons.IH [OF t] by (auto split: if_splits)
qed simp

lemma tiles_free_chunk:
  "tiles m lo cs hi \<Longrightarrow> chunk_at lo cs a = Some (sz, st) \<Longrightarrow>
     tiles (store64 m a (hdr_word sz False)) lo (free_chunk lo cs a) hi"
proof (induction cs arbitrary: lo)
  case (Cons c cs)
  obtain sz' st' where c: "c = (sz', st')" by (cases c)
  from Cons.prems c have t: "tiles m (lo + sz') cs hi" and sz': "16 \<le> sz'" "16 dvd sz'" by auto
  show ?case
  proof (cases "a = lo")
    case True
    have "store64 m a (hdr_word sz False) x = m x" if "x \<in> header_addrs (lo + sz') cs" for x
      using header_addrs_below [OF t that] True sz' by (intro store64_outside) simp
    then have "tiles (store64 m a (hdr_word sz False)) (lo + sz') cs hi"
      by (rule tiles_cong [OF t])
    with True Cons.prems c show ?thesis by auto
  next
    case False
    with Cons.prems c have at: "chunk_at (lo + sz') cs a = Some (sz, st)" by simp
    then have "lo + sz' \<le> a" using chunk_at_bounds [OF t] by blast
    with sz' have "load64 (store64 m a (hdr_word sz False)) lo = load64 m lo"
      by (intro load64_store64_other) simp
    with False Cons.prems c Cons.IH [OF t at] show ?thesis by simp
  qed
qed simp

lemma header_addrs_free_chunk [simp]: "header_addrs lo (free_chunk lo cs a) = header_addrs lo cs"
  by (induction lo cs a rule: free_chunk.induct) auto

lemma chunk_at_free_chunk:
  "chunk_at lo (free_chunk lo cs a) b =
     (if b = a then map_option (\<lambda>(sz, st). (sz, False)) (chunk_at lo cs b) else chunk_at lo cs b)"
  by (induction lo cs a rule: free_chunk.induct) auto

section \<open>The heap invariant and what each operation does to it\<close>

definition heap_inv :: "memlib \<Rightarrow> chunks \<Rightarrow> bool" where
  "heap_inv s cs \<longleftrightarrow> memlib_inv s \<and> tiles (mem_bytes s) (mem_start_brk s) cs (mem_brk s)"

text \<open>What a request of \<open>n\<close> bytes takes off the heap: the payload rounded up and its header.\<close>

definition chunk_size :: "int \<Rightarrow> int" where
  "chunk_size n = 16 * ((n + 15) div 16) + 16"

lemma chunk_size_bounds: "0 \<le> n \<Longrightarrow> n + 16 \<le> chunk_size n \<and> chunk_size n \<le> n + 31"
  unfolding chunk_size_def by presburger

lemma chunk_size_uint_ge: "16 \<le> chunk_size (uint w)"
  using chunk_size_bounds [OF uint_ge_0 [of w]] uint_ge_0 [of w] by linarith

lemma chunk_size_dvd [simp]: "16 dvd chunk_size n"
  by (simp add: chunk_size_def)

lemma heap_inv_empty: "memlib_inv s \<Longrightarrow> mem_brk s = mem_start_brk s \<Longrightarrow> heap_inv s []"
  by (simp add: heap_inv_def)

lemma heap_brk_aligned:
  assumes "heap_inv s cs"
  shows "mem_brk s mod 16 = 0"
proof -
  have "tiles m lo cs hi \<Longrightarrow> 16 dvd hi - lo" for m lo hi
  proof (induction cs arbitrary: lo)
    case (Cons c cs)
    obtain sz st where c: "c = (sz, st)" by (cases c)
    with Cons have "16 dvd hi - (lo + sz)" "16 dvd sz" by auto
    then show ?case by presburger
  qed simp
  with assms have "16 dvd mem_brk s - mem_start_brk s" by (auto simp: heap_inv_def)
  moreover from assms have "mem_start_brk s mod 16 = 0"
    by (auto simp: heap_inv_def dest: memlib_inv_bounds)
  ultimately show ?thesis by presburger
qed

text \<open>The size the package asks of \<open>mem_sbrk\<close>, for requests below 2 GB.\<close>

lemma newsize_small:
  assumes "uint sz \<le> 2 ^ 31 - 32"
  shows "int_of_size (align sz + word_of_int sizeof_header) = chunk_size (uint sz)"
    and "uint (word_of_int (chunk_size (uint sz)) :: 64 word) = chunk_size (uint sz)"
proof -
  have a: "uint (align sz) = 16 * ((uint sz + 15) div 16)"
    using assms by (intro uint_align) simp
  then have "uint (align sz) \<le> 2 ^ 31 - 32" using assms by simp
  then have "uint (align sz + 16) = uint (align sz) + 16"
    by (simp add: uint_add_lem [THEN iffD1])
  then have u: "uint (align sz + word_of_int sizeof_header) = chunk_size (uint sz)"
    by (simp add: sizeof_header_def chunk_size_def a)
  have "chunk_size (uint sz) < 2 ^ 31"
    using assms by (simp add: chunk_size_def)
  with u show "int_of_size (align sz + word_of_int sizeof_header) = chunk_size (uint sz)"
    by (simp add: int_of_size_small)
  show "uint (word_of_int (chunk_size (uint sz)) :: 64 word) = chunk_size (uint sz)"
    using chunk_size_uint_ge [of sz] \<open>chunk_size (uint sz) < 2 ^ 31\<close> by (intro uint64_of_int) simp_all
qed

text \<open>The header accessors on a header inside the block.\<close>

lemma set_chunk_size_status_ok:
  "in_block s h 8 \<Longrightarrow> set_chunk_size_status s h (word_of_int sz) st =
     Inr (s\<lparr>mem_bytes := store64 (mem_bytes s) h (hdr_word sz st)\<rparr>)"
  by (simp add: set_chunk_size_status_def put_size_n_status_def hdr_word_def)

lemma get_chunk_status_ok:
  "in_block s h 8 \<Longrightarrow> load64 (mem_bytes s) h = hdr_word sz st \<Longrightarrow> 16 dvd sz \<Longrightarrow>
     get_chunk_status s h = Inr st"
  by (simp add: get_chunk_status_def get_size_n_status_def)

lemma get_chunk_size_ok:
  "in_block s h 8 \<Longrightarrow> load64 (mem_bytes s) h = hdr_word sz st \<Longrightarrow> 16 dvd sz \<Longrightarrow>
     get_chunk_size s h = Inr (word_of_int sz)"
  by (simp add: get_chunk_size_def get_size_n_status_def)

lemma set_chunk_status_False_ok:
  "in_block s h 8 \<Longrightarrow> load64 (mem_bytes s) h = hdr_word sz st \<Longrightarrow> 16 dvd sz \<Longrightarrow>
     set_chunk_status s h False =
       Inr (s\<lparr>mem_bytes := store64 (mem_bytes s) h (hdr_word sz False)\<rparr>)"
  by (simp add: set_chunk_status_def get_size_n_status_def put_size_n_status_def hdr_word_False)

lemmas hdr_ops_ok = set_chunk_size_status_ok get_chunk_status_ok get_chunk_size_ok
  set_chunk_status_False_ok

text \<open>
  A successful request: the new chunk is the last of the heap, only its header word is
  written, and the two assertions on the header hold.
\<close>

lemma mm_malloc_ok:
  assumes inv: "heap_inv s cs" and sz: "uint sz \<le> 2 ^ 31 - 32"
    and room: "mem_brk s + chunk_size (uint sz) \<le> mem_max_addr s"
  shows "mm_malloc s sz = Inr (mem_brk s + 16,
    s\<lparr>mem_brk := mem_brk s + chunk_size (uint sz),
      mem_bytes := store64 (mem_bytes s) (mem_brk s) (hdr_word (chunk_size (uint sz)) True)\<rparr>)"
proof -
  let ?n = "chunk_size (uint sz)"
  have b: "memlib_inv s" using inv by (simp add: heap_inv_def)
  note bd = memlib_inv_bounds [OF b]
  note n = chunk_size_uint_ge [of sz]
  have "mem_sbrk s ?n = (mem_brk s, s\<lparr>mem_brk := mem_brk s + ?n\<rparr>)"
    using n room by (simp add: mem_sbrk_def)
  moreover have "mem_brk s \<noteq> SBRK_FAIL" using bd by (simp add: SBRK_FAIL_def)
  moreover have "in_block (s\<lparr>mem_brk := mem_brk s + ?n\<rparr>) (mem_brk s) 8"
    using bd n room by (simp add: in_block_def)
  ultimately show ?thesis
    using heap_brk_aligned [OF inv]
    unfolding mm_malloc_def newsize_small (1) [OF sz] Let_def
    by (simp add: hdr_ops_ok is_aligned_iff header_to_payload_def sizeof_header_def)
qed

lemma mm_malloc_heap_inv:
  assumes inv: "heap_inv s cs" and sz: "uint sz \<le> 2 ^ 31 - 32"
    and room: "mem_brk s + chunk_size (uint sz) \<le> mem_max_addr s"
    and eq: "mm_malloc s sz = Inr (p, t)"
  shows "heap_inv t (cs @ [(chunk_size (uint sz), True)])"
proof -
  let ?n = "chunk_size (uint sz)" and ?lo = "mem_start_brk s" and ?hi = "mem_brk s"
  let ?m = "store64 (mem_bytes s) ?hi (hdr_word ?n True)"
  have t: "tiles (mem_bytes s) ?lo cs ?hi" and m: "memlib_inv s"
    using inv by (auto simp: heap_inv_def)
  have "tiles ?m ?lo cs ?hi"
    using t by (rule tiles_cong) (auto simp: store64_outside dest: header_addrs_bounds [OF t])
  moreover have "tiles ?m ?hi [(?n, True)] (?hi + ?n)"
    using chunk_size_uint_ge by simp
  ultimately have "tiles ?m ?lo (cs @ [(?n, True)]) (?hi + ?n)"
    by (auto simp: tiles_append)
  moreover have "memlib_inv t" "mem_start_brk t = ?lo" "mem_brk t = ?hi + ?n" "mem_bytes t = ?m"
    using m eq room chunk_size_uint_ge [of sz]
    by (auto simp: mm_malloc_ok [OF inv sz room] memlib_inv_def)
  ultimately show ?thesis by (simp add: heap_inv_def)
qed

text \<open>A request that does not fit returns \<open>NULL\<close> and leaves the heap as it was.\<close>

lemma mm_malloc_fail:
  assumes inv: "heap_inv s cs" and sz: "uint sz \<le> 2 ^ 31 - 32"
    and full: "mem_brk s + chunk_size (uint sz) > mem_max_addr s"
  shows "mm_malloc s sz = Inr (NULL, s\<lparr>mem_errno := ENOMEM\<rparr>)"
  using full unfolding mm_malloc_def newsize_small (1) [OF sz] Let_def
  by (simp add: mem_sbrk_def)

text \<open>Freeing an allocated block: only its header changes, and only its status bit.\<close>

lemma mm_free_ok:
  assumes inv: "heap_inv s cs" and at: "chunk_at (mem_start_brk s) cs (p - 16) = Some (sz, st)"
    and p: "p < mem_brk s"
  shows "mm_free s p = Inr (s\<lparr>mem_bytes := store64 (mem_bytes s) (p - 16) (hdr_word sz False)\<rparr>)"
    and "heap_inv (s\<lparr>mem_bytes := store64 (mem_bytes s) (p - 16) (hdr_word sz False)\<rparr>)
      (free_chunk (mem_start_brk s) cs (p - 16))"
proof -
  have t: "tiles (mem_bytes s) (mem_start_brk s) cs (mem_brk s)" and m: "memlib_inv s"
    using inv by (auto simp: heap_inv_def)
  note c = chunk_at_bounds [OF t at]
  have blk: "in_block s (p - 16) 8"
    using c by (intro in_blockI [OF m]) auto
  show "mm_free s p = Inr (s\<lparr>mem_bytes := store64 (mem_bytes s) (p - 16) (hdr_word sz False)\<rparr>)"
    using blk c p
    by (simp add: mm_free_def mem_heap_lo_def mem_heap_hi_def payload_to_header_def
        sizeof_header_def hdr_ops_ok)
  show "heap_inv (s\<lparr>mem_bytes := store64 (mem_bytes s) (p - 16) (hdr_word sz False)\<rparr>)
      (free_chunk (mem_start_brk s) cs (p - 16))"
    using m tiles_free_chunk [OF t at] by (simp add: heap_inv_def)
qed

lemma mm_realloc_copy_ok:
  assumes inv: "heap_inv s cs" and at: "chunk_at (mem_start_brk s) cs (p - 16) = Some (csz, st)"
    and q: "mem_start_brk s \<le> q" "q + uint sz \<le> mem_brk s"
  defines "k \<equiv> min (uint sz) (csz - 16)"
  shows "mm_realloc_copy s q p sz = Inr (s\<lparr>mem_bytes := memcpy (mem_bytes s) q p (nat k)\<rparr>)"
proof -
  have t: "tiles (mem_bytes s) (mem_start_brk s) cs (mem_brk s)" and m: "memlib_inv s"
    using inv by (auto simp: heap_inv_def)
  note c = chunk_at_bounds [OF t at]
  have csz: "csz < 2 ^ 63" using c memlib_inv_bounds [OF m] by linarith
  have u: "uint (word_of_int csz - word_of_int sizeof_header :: 64 word) = csz - 16"
    unfolding sizeof_header_def wi_hom_sub by (rule uint64_of_int) (use c csz in auto)
  define n where "n = (if sz < word_of_int csz - word_of_int sizeof_header then sz
      else word_of_int csz - word_of_int sizeof_header)"
  have n: "uint n = k"
    unfolding n_def k_def word_less_alt u by (auto simp: u)
  have k: "0 \<le> k" "k \<le> csz - 16" "k \<le> uint sz"
    using c unfolding k_def by auto
  have "in_block s p (uint n)" "in_block s q (uint n)" "in_block s (p - 16) 8"
    unfolding n using k c q by (auto intro!: in_blockI [OF m])
  moreover have "unat n = nat k" by (simp add: unat_eq_nat_uint n)
  moreover have "get_chunk_size s (payload_to_header p) = Inr (word_of_int csz)"
    using c \<open>in_block s (p - 16) 8\<close>
    by (simp add: payload_to_header_def sizeof_header_def get_chunk_size_ok)
  then have "mm_realloc_copy s q p sz = block_memcpy s q p n"
    by (simp only: mm_realloc_copy_def Let_def res_bind.simps n_def)
  ultimately show ?thesis by (simp add: block_memcpy_def)
qed

text \<open>
  Reallocating an allocated block: the new block is the last chunk, holds the old bytes up to the
  smaller size, and the old chunk is marked free.
\<close>

lemma mm_realloc_ok:
  assumes inv: "heap_inv s cs" and at: "chunk_at (mem_start_brk s) cs (p - 16) = Some (csz, st)"
    and sz: "0 < sz" "uint sz \<le> 2 ^ 31 - 32"
    and room: "mem_brk s + chunk_size (uint sz) \<le> mem_max_addr s"
  defines "n \<equiv> chunk_size (uint sz)" and "q \<equiv> mem_brk s + 16"
  defines "m1 \<equiv> store64 (mem_bytes s) (mem_brk s) (hdr_word n True)"
  defines "m2 \<equiv> memcpy m1 q p (nat (min (uint sz) (csz - 16)))"
  defines "t \<equiv> s\<lparr>mem_brk := mem_brk s + n, mem_bytes := store64 m2 (p - 16) (hdr_word csz False)\<rparr>"
  shows "mm_realloc s p sz = Inr (q, t)"
    and "heap_inv t (free_chunk (mem_start_brk s) (cs @ [(n, True)]) (p - 16))"
proof -
  let ?lo = "mem_start_brk s" and ?cs = "cs @ [(n, True)]"
  let ?s1 = "s\<lparr>mem_brk := mem_brk s + n, mem_bytes := m1\<rparr>"
  let ?s2 = "?s1\<lparr>mem_bytes := m2\<rparr>"
  have tl: "tiles (mem_bytes s) ?lo cs (mem_brk s)" and m: "memlib_inv s"
    using inv by (auto simp: heap_inv_def)
  note c = chunk_at_bounds [OF tl at]
  have mal: "mm_malloc s sz = Inr (q, ?s1)"
    unfolding q_def m1_def n_def by (rule mm_malloc_ok [OF inv sz(2) room])
  have inv1: "heap_inv ?s1 ?cs"
    unfolding n_def by (rule mm_malloc_heap_inv [OF inv sz(2) room mal [unfolded n_def]])
  have at1: "chunk_at ?lo ?cs (p - 16) = Some (csz, st)"
    by (rule chunk_at_appendI [OF at])
  have n: "uint sz + 16 \<le> n"
    using chunk_size_bounds [OF uint_ge_0 [of sz]] by (simp add: n_def)
  have copy: "mm_realloc_copy ?s1 q p sz = Inr ?s2"
    using mm_realloc_copy_ok [OF inv1, of p csz st q sz] at1 n memlib_inv_bounds [OF m]
    by (simp add: q_def m2_def)
  have tl1: "tiles m1 ?lo ?cs (mem_brk s + n)" using inv1 by (simp add: heap_inv_def)
  have last: "chunk_at ?lo ?cs (mem_brk s) = Some (n, True)" by (rule chunk_at_last [OF tl])
  have "m2 x = m1 x" if "x \<in> header_addrs ?lo ?cs" for x
    unfolding m2_def using header_addrs_chunk [OF tl1 last that] n c
    by (intro memcpy_outside) (auto simp: q_def)
  then have "tiles m2 ?lo ?cs (mem_brk s + n)" by (rule tiles_cong [OF tl1])
  with inv1 have inv2: "heap_inv ?s2 ?cs" by (simp add: heap_inv_def)
  have p: "p \<noteq> NULL" "p < mem_brk ?s2"
    using c chunk_size_uint_ge [of sz] memlib_inv_bounds [OF m]
    by (auto simp: NULL_def simp flip: n_def)
  have q: "q \<noteq> NULL"
    using memlib_inv_bounds [OF m] by (simp add: q_def NULL_def)
  note fr = mm_free_ok [OF inv2, of p csz st]
  show "mm_realloc s p sz = Inr (q, t)"
    using fr(1) at1 p q sz(1) by (simp add: mm_realloc_def mal copy t_def)
  show "heap_inv t (free_chunk ?lo ?cs (p - 16))"
    using fr(2) at1 p by (simp add: t_def)
qed

section \<open>The heap walk\<close>

definition chunk_lines :: "int \<Rightarrow> chunks \<Rightarrow> heap_line list" where
  "chunk_lines v cs =
     (if v > NORMAL_VERBOSE then map (\<lambda>(sz, st). ChunkLine (word_of_int sz) st) cs else [])"

definition count_chunks :: "heap_totals \<Rightarrow> chunks \<Rightarrow> heap_totals" where
  "count_chunks t cs = fold (\<lambda>(sz, st) t. count_chunk t (word_of_int sz) st) cs t"

lemma checkheap_loop_tiles:
  assumes "memlib_inv s" and "mem_start_brk s \<le> h" and "tiles (mem_bytes s) h cs (mem_brk s)"
  shows "checkheap_loop s v h t out = Some (Inr (count_chunks t cs, out @ chunk_lines v cs))"
  using assms(2,3)
proof (induction cs arbitrary: h t out)
  case Nil
  then show ?case
    by (subst checkheap_loop.simps)
      (simp add: mem_heap_hi_def count_chunks_def chunk_lines_def)
next
  case (Cons c cs)
  obtain sz st where c: "c = (sz, st)" by (cases c)
  have tl: "tiles (mem_bytes s) (h + sz) cs (mem_brk s)" "16 \<le> sz" "16 dvd sz"
    "load64 (mem_bytes s) h = hdr_word sz st"
    using Cons.prems(2) c by auto
  have le: "h + sz \<le> mem_brk s" by (rule tiles_le [OF tl(1)])
  have blk: "in_block s h 8"
    using le tl(2) Cons.prems(1) by (intro in_blockI [OF assms(1)]) auto
  have u: "uint (word_of_int sz :: 64 word) = sz"
    using le tl(2) Cons.prems(1) memlib_inv_bounds [OF assms(1)] by (intro uint64_of_int) auto
  have guard: "h < mem_heap_hi s" using le tl(2) by (simp add: mem_heap_hi_def)
  have IH: "checkheap_loop s v (h + sz) t' out' =
      Some (Inr (count_chunks t' cs, out' @ chunk_lines v cs))" for t' out'
    using Cons.prems(1) tl by (intro Cons.IH) auto
  have "checkheap_loop s v h t out = checkheap_loop s v (h + sz) (count_chunk t (word_of_int sz) st)
      (if v > NORMAL_VERBOSE then out @ [ChunkLine (word_of_int sz) st] else out)"
    using guard blk tl
    by (subst checkheap_loop.simps)
      (simp add: get_chunk_size_ok get_chunk_status_ok get_next_chunk_def u)
  then show ?case
    by (simp add: IH c count_chunks_def chunk_lines_def)
qed

text \<open>The totals, computed with 64-bit wrap-around, are the counts and sums over the chunks.\<close>

definition alloc_chunks :: "chunks \<Rightarrow> chunks" where
  "alloc_chunks cs = filter snd cs"

definition freed_chunks :: "chunks \<Rightarrow> chunks" where
  "freed_chunks cs = filter (\<lambda>c. \<not> snd c) cs"

lemma count_chunks_totals:
  "total_allocated (count_chunks t cs) = total_allocated t + word_of_nat (length (alloc_chunks cs))"
  "total_free (count_chunks t cs) = total_free t + word_of_nat (length (freed_chunks cs))"
  "total_allocated_sz (count_chunks t cs) =
     total_allocated_sz t + word_of_int (sum_list (map fst (alloc_chunks cs)))"
  "total_free_sz (count_chunks t cs) =
     total_free_sz t + word_of_int (sum_list (map fst (freed_chunks cs)))"
  by (induction cs arbitrary: t)
    (auto simp: count_chunks_def count_chunk_def alloc_chunks_def freed_chunks_def)

lemma sum_alloc_freed:
  "sum_list (map fst (alloc_chunks cs)) + sum_list (map fst (freed_chunks cs)) = sum_list (map fst cs)"
  by (induction cs) (auto simp: alloc_chunks_def freed_chunks_def)

lemma tiles_sum: "tiles m lo cs hi \<Longrightarrow> hi = lo + sum_list (map fst cs)"
  by (induction cs arbitrary: lo) (auto, fastforce)

lemma mm_checkheap_tiles:
  assumes "heap_inv s cs"
  shows "mm_checkheap s v = Some (Inr (chunk_lines v cs @
    (if v > 0 then
       [TotalLine (word_of_nat (length (alloc_chunks cs)))
          (word_of_int (sum_list (map fst (alloc_chunks cs))))
          (word_of_nat (length (freed_chunks cs)))
          (word_of_int (sum_list (map fst (freed_chunks cs))))]
     else [])))"
proof -
  have "memlib_inv s" and "tiles (mem_bytes s) (mem_start_brk s) cs (mem_brk s)"
    using assms by (auto simp: heap_inv_def)
  then show ?thesis
    by (simp add: mm_checkheap_def mem_heap_lo_def checkheap_loop_tiles count_chunks_totals)
qed

section \<open>The package meets the contract\<close>

definition naive_pkg :: mm_pkg where
  "naive_pkg = \<lparr>pkg_init = mm_init, pkg_malloc = mm_malloc, pkg_free = mm_free,
                pkg_realloc = mm_realloc\<rparr>"

text \<open>The live blocks of a heap: each is the payload of a chunk marked allocated.\<close>

definition chunk_cover :: "addr \<Rightarrow> chunks \<Rightarrow> live_map \<Rightarrow> bool" where
  "chunk_cover lo cs L \<longleftrightarrow>
     (\<forall>p n. L p = Some n \<longrightarrow>
        0 < n \<and> (\<exists>sz. chunk_at lo cs (p - 16) = Some (sz, True) \<and> n + 16 \<le> sz))"

definition naive_live :: "memlib \<Rightarrow> live_map \<Rightarrow> bool" where
  "naive_live s L \<longleftrightarrow> (\<exists>cs. heap_inv s cs \<and> chunk_cover (mem_start_brk s) cs L)"

lemma chunk_coverE:
  assumes "chunk_cover lo cs L" and "L p = Some n"
  obtains sz where "chunk_at lo cs (p - 16) = Some (sz, True)" "0 < n" "n + 16 \<le> sz"
  using assms unfolding chunk_cover_def by blast

lemma chunk_cover_empty [simp]: "chunk_cover lo cs Map.empty"
  by (simp add: chunk_cover_def)

lemma chunk_cover_snoc:
  assumes "tiles m lo cs hi" and "chunk_cover lo cs L" and "0 < n" and "n + 16 \<le> sz"
  shows "chunk_cover lo (cs @ [(sz, True)]) (L(hi + 16 \<mapsto> n))"
  unfolding chunk_cover_def
proof (intro allI impI)
  fix p k assume p: "(L(hi + 16 \<mapsto> n)) p = Some k"
  show "0 < k \<and> (\<exists>sz'. chunk_at lo (cs @ [(sz, True)]) (p - 16) = Some (sz', True) \<and> k + 16 \<le> sz')"
  proof (cases "p = hi + 16")
    case True
    with p assms(3,4) chunk_at_last [OF assms(1), of "(sz, True)"] show ?thesis by auto
  next
    case False
    with p have "L p = Some k" by simp
    with assms(2) obtain sz' where "chunk_at lo cs (p - 16) = Some (sz', True)" "0 < k" "k + 16 \<le> sz'"
      by (rule chunk_coverE)
    then show ?thesis by (blast intro: chunk_at_appendI)
  qed
qed

lemma chunk_cover_free:
  "chunk_cover lo cs L \<Longrightarrow> chunk_cover lo (free_chunk lo cs (p - 16)) (L(p := None))"
  by (auto simp: chunk_cover_def chunk_at_free_chunk)

text \<open>A block that stays live keeps clear of the chunk of another block.\<close>

lemma chunk_cover_apart:
  assumes "tiles m lo cs hi" and "chunk_cover lo cs L" and "L q = Some k" and "p \<noteq> q"
    and "chunk_at lo cs (p - 16) = Some (sz, st)"
  shows "p + sz \<le> q \<or> q + k \<le> p - 16"
proof -
  from assms(2,3) obtain sz' where
    q: "chunk_at lo cs (q - 16) = Some (sz', True)" and k: "k + 16 \<le> sz'"
    by (rule chunk_coverE)
  have "p - 16 \<noteq> q - 16" using assms(4) by simp
  from chunks_disjoint [OF assms(1,5) q this] k show ?thesis by linarith
qed

lemma naive_liveE:
  assumes "naive_live s L"
  obtains cs where "heap_inv s cs" "memlib_inv s" "chunk_cover (mem_start_brk s) cs L"
    "tiles (mem_bytes s) (mem_start_brk s) cs (mem_brk s)"
  using assms unfolding naive_live_def heap_inv_def by blast

lemma naive_live_block:
  assumes "naive_live s L" and "L p = Some n"
  shows "0 < n \<and> p mod 16 = 0 \<and> mem_start_brk s \<le> p \<and> p + n \<le> mem_brk s"
proof -
  from assms(1) obtain cs where m: "memlib_inv s" and cov: "chunk_cover (mem_start_brk s) cs L"
    and t: "tiles (mem_bytes s) (mem_start_brk s) cs (mem_brk s)"
    by (rule naive_liveE)
  from cov assms(2) obtain sz where
    at: "chunk_at (mem_start_brk s) cs (p - 16) = Some (sz, True)" and sz: "0 < n" "n + 16 \<le> sz"
    by (rule chunk_coverE)
  note c = chunk_at_bounds [OF t at]
  from c have "16 dvd p - 16 - mem_start_brk s" by blast
  with memlib_inv_bounds (7) [OF m] have "p mod 16 = 0" by presburger
  with c sz show ?thesis by auto
qed

lemma naive_live_disjoint:
  assumes "naive_live s L" and "L p = Some n" and "L q = Some k" and "p \<noteq> q"
  shows "p + n \<le> q \<or> q + k \<le> p"
proof -
  from assms(1) obtain cs where cov: "chunk_cover (mem_start_brk s) cs L"
    and t: "tiles (mem_bytes s) (mem_start_brk s) cs (mem_brk s)"
    by (rule naive_liveE)
  from cov assms(2) obtain sz where
    at: "chunk_at (mem_start_brk s) cs (p - 16) = Some (sz, True)" and sz: "0 < n" "n + 16 \<le> sz"
    by (rule chunk_coverE)
  from chunk_cover_apart [OF t cov assms(3,4) at] sz show ?thesis by linarith
qed

lemma naive_live_write:
  assumes live: "naive_live s L" and wr: "write_inside L p (mem_bytes s) m"
  shows "naive_live (s\<lparr>mem_bytes := m\<rparr>) L"
proof -
  from live obtain cs where h: "heap_inv s cs" and cov: "chunk_cover (mem_start_brk s) cs L"
    and t: "tiles (mem_bytes s) (mem_start_brk s) cs (mem_brk s)"
    by (rule naive_liveE)
  obtain n where n: "L p = Some n" and out: "\<And>x. x < p \<or> p + n \<le> x \<Longrightarrow> m x = mem_bytes s x"
    using wr unfolding write_inside_def by blast
  from cov n obtain sz where
    at: "chunk_at (mem_start_brk s) cs (p - 16) = Some (sz, True)" and sz: "n + 16 \<le> sz"
    by (rule chunk_coverE)
  have "tiles m (mem_start_brk s) cs (mem_brk s)"
    using t by (rule tiles_cong) (use header_addrs_chunk [OF t at] sz in \<open>fastforce intro: out\<close>)
  then show ?thesis
    using h cov unfolding naive_live_def heap_inv_def by auto
qed

text \<open>The request size as the driver passes it: a positive \<open>int\<close> that fits the heap.\<close>

lemma request_size:
  assumes "memlib_inv s" and "0 < n" and "mem_brk s + chunk_size n \<le> mem_max_addr s"
  shows "uint (word_of_int n :: 64 word) = n" and "n \<le> 2 ^ 31 - 32"
proof -
  show "n \<le> 2 ^ 31 - 32"
    using assms memlib_inv_bounds [OF assms(1)] chunk_size_bounds [of n]
    by (simp add: MAX_HEAP_def)
  then show "uint (word_of_int n :: 64 word) = n"
    using assms(2) by (intro uint64_of_int) auto
qed

lemma naive_malloc_ok:
  assumes live: "naive_live s L" and n: "0 < n" and room: "mem_brk s + chunk_size n \<le> mem_max_addr s"
  shows "\<exists>p t. mm_malloc s (word_of_int n) = Inr (p, t) \<and> L p = None \<and> naive_live t (L(p \<mapsto> n)) \<and>
    same_block s t \<and>
    mem_brk s \<le> mem_brk t \<and> mem_brk t \<le> mem_brk s + chunk_size n \<and> blocks_kept L s t"
proof -
  from live obtain cs where h: "heap_inv s cs" and m: "memlib_inv s"
    and cov: "chunk_cover (mem_start_brk s) cs L"
    and tl: "tiles (mem_bytes s) (mem_start_brk s) cs (mem_brk s)"
    by (rule naive_liveE)
  note rq = request_size [OF m n room]
  let ?b = "mem_brk s" and ?c = "(chunk_size n, True)"
  let ?t = "s\<lparr>mem_brk := ?b + chunk_size n,
    mem_bytes := store64 (mem_bytes s) ?b (hdr_word (chunk_size n) True)\<rparr>"
  have mal: "mm_malloc s (word_of_int n) = Inr (?b + 16, ?t)"
    using mm_malloc_ok [OF h, of "word_of_int n"] rq room by simp
  have h': "heap_inv ?t (cs @ [?c])"
    using mm_malloc_heap_inv [OF h, of "word_of_int n"] rq room mal by simp
  have nb: "L (?b + 16) = None"
    using naive_live_block [OF live, of "?b + 16"] by (cases "L (?b + 16)") auto
  have "chunk_cover (mem_start_brk s) (cs @ [?c]) (L(?b + 16 \<mapsto> n))"
    using chunk_size_bounds [of n] n by (intro chunk_cover_snoc [OF tl cov]) auto
  with h' have "naive_live ?t (L(?b + 16 \<mapsto> n))"
    unfolding naive_live_def by auto
  moreover have "blocks_kept L s ?t"
    using naive_live_block [OF live] unfolding blocks_kept_def by (force intro: store64_outside)
  ultimately show ?thesis
    using mal nb chunk_size_bounds [of n] n by (auto simp: same_block_def)
qed

lemma naive_free_ok:
  assumes live: "naive_live s L" and p: "L p = Some n"
  shows "\<exists>t. mm_free s p = Inr t \<and> naive_live t (L(p := None)) \<and> same_block s t \<and>
    mem_brk t = mem_brk s \<and> blocks_kept (L(p := None)) s t"
proof -
  from live obtain cs where h: "heap_inv s cs" and cov: "chunk_cover (mem_start_brk s) cs L"
    and tl: "tiles (mem_bytes s) (mem_start_brk s) cs (mem_brk s)"
    by (rule naive_liveE)
  from cov p obtain sz where
    at: "chunk_at (mem_start_brk s) cs (p - 16) = Some (sz, True)" and sz: "0 < n" "n + 16 \<le> sz"
    by (rule chunk_coverE)
  have lt: "p < mem_brk s" using naive_live_block [OF live p] by linarith
  let ?t = "s\<lparr>mem_bytes := store64 (mem_bytes s) (p - 16) (hdr_word sz False)\<rparr>"
  note fr = mm_free_ok [OF h at lt]
  have "naive_live ?t (L(p := None))"
    using fr(2) chunk_cover_free [OF cov, of p] unfolding naive_live_def by auto
  moreover have "blocks_kept (L(p := None)) s ?t"
    unfolding blocks_kept_def
  proof (intro allI impI)
    fix q k x
    assume "(L(p := None)) q = Some k" and x: "q \<le> x" "x < q + k"
    then have "L q = Some k" "p \<noteq> q" by (auto split: if_splits)
    from chunk_cover_apart [OF tl cov this at] x sz show "mem_bytes ?t x = mem_bytes s x"
      by (auto intro!: store64_outside)
  qed
  ultimately show ?thesis
    using fr(1) by (auto simp: same_block_def)
qed

lemma naive_realloc_ok:
  assumes live: "naive_live s L" and p: "L p = Some k" and n: "0 < n"
    and room: "mem_brk s + chunk_size n \<le> mem_max_addr s"
  shows "\<exists>q t. mm_realloc s p (word_of_int n) = Inr (q, t) \<and> (L(p := None)) q = None \<and>
    naive_live t (L(p := None, q \<mapsto> n)) \<and> same_block s t \<and>
    mem_brk s \<le> mem_brk t \<and> mem_brk t \<le> mem_brk s + chunk_size n \<and>
    blocks_kept (L(p := None)) s t \<and>
    (\<forall>i. 0 \<le> i \<longrightarrow> i < min k n \<longrightarrow> mem_bytes t (q + i) = mem_bytes s (p + i))"
proof -
  from live obtain cs where h: "heap_inv s cs" and m: "memlib_inv s"
    and cov: "chunk_cover (mem_start_brk s) cs L"
    and tl: "tiles (mem_bytes s) (mem_start_brk s) cs (mem_brk s)"
    by (rule naive_liveE)
  from cov p obtain sz where
    at: "chunk_at (mem_start_brk s) cs (p - 16) = Some (sz, True)" and sz: "0 < k" "k + 16 \<le> sz"
    by (rule chunk_coverE)
  note rq = request_size [OF m n room] and c = chunk_at_bounds [OF tl at]
  let ?b = "mem_brk s" and ?N = "chunk_size n"
  let ?m1 = "store64 (mem_bytes s) ?b (hdr_word ?N True)"
  let ?m2 = "memcpy ?m1 (?b + 16) p (nat (min n (sz - 16)))"
  let ?t = "s\<lparr>mem_brk := ?b + ?N, mem_bytes := store64 ?m2 (p - 16) (hdr_word sz False)\<rparr>"
  have pos: "0 < (word_of_int n :: 64 word)" using rq n by (simp add: word_less_alt)
  have re: "mm_realloc s p (word_of_int n) = Inr (?b + 16, ?t)"
    and h': "heap_inv ?t (free_chunk (mem_start_brk s) (cs @ [(?N, True)]) (p - 16))"
    using mm_realloc_ok [OF h at pos] rq room by simp_all
  have nb: "(L(p := None)) (?b + 16) = None"
    using naive_live_block [OF live, of "?b + 16"] by (cases "L (?b + 16)") auto
  have "chunk_cover (mem_start_brk s) (cs @ [(?N, True)]) (L(?b + 16 \<mapsto> n))"
    using chunk_size_bounds [of n] n by (intro chunk_cover_snoc [OF tl cov]) auto
  from chunk_cover_free [OF this, of p] h' have "naive_live ?t ((L(?b + 16 \<mapsto> n))(p := None))"
    unfolding naive_live_def by auto
  moreover have "p \<noteq> ?b + 16" using c by linarith
  ultimately have live': "naive_live ?t (L(p := None, ?b + 16 \<mapsto> n))"
    by (simp add: fun_upd_twist)
  have low: "mem_bytes ?t x = mem_bytes s x" if "x < ?b" "x < p - 16 \<or> p - 8 \<le> x" for x
    using that c by (simp add: store64_outside memcpy_outside)
  have "blocks_kept (L(p := None)) s ?t"
    unfolding blocks_kept_def
  proof (intro allI impI)
    fix q l x
    assume "(L(p := None)) q = Some l" and x: "q \<le> x" "x < q + l"
    then have q: "L q = Some l" "p \<noteq> q" by (auto split: if_splits)
    from chunk_cover_apart [OF tl cov q at] x sz naive_live_block [OF live q(1)]
    show "mem_bytes ?t x = mem_bytes s x" by (intro low) linarith+
  qed
  moreover have "mem_bytes ?t (?b + 16 + i) = mem_bytes s (p + i)" if "0 \<le> i" "i < min k n" for i
  proof -
    have i: "nat i < nat (min n (sz - 16))" using that sz by auto
    have "mem_bytes ?t (?b + 16 + i) = ?m2 (?b + 16 + int (nat i))"
      using that c by (simp add: store64_outside)
    also have "\<dots> = ?m1 (p + i)" using memcpy_inside [OF i] that by simp
    also have "\<dots> = mem_bytes s (p + i)" using that c sz by (intro store64_outside) linarith
    finally show ?thesis .
  qed
  ultimately show ?thesis
    using re nb live' chunk_size_bounds [of n] n by (auto simp: same_block_def)
qed

lemma naive_init_ok:
  assumes "memlib_inv s" and "mem_brk s = mem_start_brk s"
  shows "\<exists>r t. mm_init s = Inr (r, t) \<and> 0 \<le> r \<and> naive_live t Map.empty \<and> same_block s t \<and>
    mem_brk t = mem_brk s"
  using heap_inv_empty [OF assms] by (auto simp: naive_live_def mm_init_def)

lemma naive_pkg_simps [simp]:
  "pkg_init naive_pkg = mm_init" "pkg_malloc naive_pkg = mm_malloc" "pkg_free naive_pkg = mm_free"
  "pkg_realloc naive_pkg = mm_realloc"
  by (simp_all add: naive_pkg_def)

interpretation naive: mm_contract naive_pkg naive_live chunk_size
proof (unfold_locales, unfold naive_pkg_simps, goal_cases)
  case 1 then show ?case by (rule naive_liveE)
next
  case 2 then show ?case by (rule naive_live_block)
next
  case 3 then show ?case by (rule naive_live_disjoint)
next
  case 4 then show ?case by (rule naive_live_write)
next
  case (5 n) then show ?case using chunk_size_bounds [of n] by linarith
next
  case 6 then show ?case by (rule naive_init_ok)
next
  case 7 then show ?case by (rule naive_malloc_ok)
next
  case 8 then show ?case by (rule naive_free_ok)
next
  case 9 then show ?case by (rule naive_realloc_ok)
qed

section \<open>What the package promises its callers\<close>

text \<open>A heap of one allocated 32-byte block, at 4096, for the witnesses.\<close>

definition demo_heap :: memlib where
  "demo_heap = \<lparr>mem_bytes = store64 (\<lambda>_. 0) 4096 (hdr_word 48 True), mem_start_brk = 4096,
     mem_brk = 4144, mem_max_addr = 4096 + MAX_HEAP, mem_live = True, mem_errno = 0\<rparr>"

lemma demo_heap_inv: "heap_inv demo_heap [(48, True)]"
  by (simp add: heap_inv_def demo_heap_def memlib_inv_def libc_block_def MAX_HEAP_def NULL_def)

lemma demo_heap_live: "naive_live demo_heap [4112 \<mapsto> 32]"
proof -
  have "chunk_cover (mem_start_brk demo_heap) [(48, True)] [4112 \<mapsto> 32]"
    by (simp add: chunk_cover_def demo_heap_def)
  with demo_heap_inv show ?thesis unfolding naive_live_def by blast
qed

lemma demo_heap_room: "mem_brk demo_heap + chunk_size 100 \<le> mem_max_addr demo_heap"
  by (simp add: demo_heap_def chunk_size_def MAX_HEAP_def)

text \<open>
  C12: while the heap has room for the request and its header, \<open>mm_malloc\<close> returns a block that
  was not live; it is 16-byte aligned, lies inside the heap, does not overlap any live block, and
  the contents of the live blocks are kept. None of the three assertions fails.
\<close>

theorem mm_malloc_contract:
  assumes "naive_live s L" and "0 < n" and "mem_brk s + chunk_size n \<le> mem_max_addr s"
  shows "\<exists>p t. mm_malloc s (word_of_int n) = Inr (p, t) \<and> L p = None \<and> naive_live t (L(p \<mapsto> n)) \<and>
    p mod 16 = 0 \<and> mem_heap_lo t \<le> p \<and> p + n - 1 \<le> mem_heap_hi t \<and>
    (\<forall>q k. L q = Some k \<longrightarrow> p + n \<le> q \<or> q + k \<le> p) \<and> blocks_kept L s t"
proof -
  obtain p t where "mm_malloc s (word_of_int n) = Inr (p, t)" "L p = None"
    and lv: "naive_live t (L(p \<mapsto> n))" and "blocks_kept L s t"
    using naive.malloc_ok [OF assms] by auto
  moreover have "p mod 16 = 0 \<and> mem_heap_lo t \<le> p \<and> p + n - 1 \<le> mem_heap_hi t"
    using naive.live_block [OF lv, of p n] by (auto simp: mem_heap_lo_def mem_heap_hi_def)
  moreover have "p + n \<le> q \<or> q + k \<le> p" if "L q = Some k" for q k
    using naive.live_disjoint [OF lv, of p n q k] that \<open>L p = None\<close> by (cases "q = p") auto
  ultimately show ?thesis by (intro exI [of _ p] exI [of _ t]) auto
qed

theorem mm_malloc_contract_witness:
  "\<exists>p t. mm_malloc demo_heap (word_of_int 100) = Inr (p, t) \<and>
    naive_live t ([4112 \<mapsto> 32, p \<mapsto> 100]) \<and> p mod 16 = 0"
  using mm_malloc_contract [OF demo_heap_live, of 100] demo_heap_room by auto

text \<open>
  C14: freeing a live block never fails an assertion; the block is no longer live, the other
  blocks stay live with their contents, and the heap keeps its extent.
\<close>

theorem mm_free_contract:
  assumes "naive_live s L" and "L p = Some n"
  shows "\<exists>t. mm_free s p = Inr t \<and> naive_live t (L(p := None)) \<and> mem_brk t = mem_brk s \<and>
    blocks_kept (L(p := None)) s t"
  using naive.free_ok [OF assms] by auto

theorem mm_free_contract_witness:
  "\<exists>t. mm_free demo_heap 4112 = Inr t \<and> naive_live t Map.empty"
proof -
  have e: "[4112 \<mapsto> 32](4112 := None) = (Map.empty :: live_map)" by auto
  show ?thesis
    using mm_free_contract [OF demo_heap_live, of 4112 32] unfolding e by auto
qed

text \<open>
  C13: reallocating a live block to a positive size that fits returns a live block of the new size
  whose first bytes, up to the smaller of the two sizes, are those of the old block; the old block
  is no longer live, and the other live blocks keep their contents.
\<close>

theorem mm_realloc_contract:
  assumes "naive_live s L" and "L p = Some k" and "0 < n"
    and "mem_brk s + chunk_size n \<le> mem_max_addr s"
  shows "\<exists>q t. mm_realloc s p (word_of_int n) = Inr (q, t) \<and> (L(p := None)) q = None \<and>
    naive_live t (L(p := None, q \<mapsto> n)) \<and> blocks_kept (L(p := None)) s t \<and>
    (\<forall>i. 0 \<le> i \<longrightarrow> i < min k n \<longrightarrow> mem_bytes t (q + i) = mem_bytes s (p + i))"
  using naive.realloc_ok [OF assms] unfolding naive_pkg_simps by blast

theorem mm_realloc_contract_witness:
  "\<exists>q t. mm_realloc demo_heap 4112 (word_of_int 100) = Inr (q, t) \<and>
    (\<forall>i. 0 \<le> i \<longrightarrow> i < min 32 100 \<longrightarrow> mem_bytes t (q + i) = mem_bytes demo_heap (4112 + i))"
  using mm_realloc_contract [OF demo_heap_live, of 4112 32 100] demo_heap_room by auto

text \<open>
  When the heap has no room left, \<open>mm_malloc\<close> returns \<open>NULL\<close> with \<open>errno\<close> set to \<open>ENOMEM\<close> and
  \<open>mm_realloc\<close> does the same, leaving the old block allocated and every byte as it was.
\<close>

theorem mm_out_of_memory:
  assumes "heap_inv s cs" and "0 < sz" and "uint sz \<le> 2 ^ 31 - 32"
    and "mem_brk s + chunk_size (uint sz) > mem_max_addr s"
  shows "mm_malloc s sz = Inr (NULL, s\<lparr>mem_errno := ENOMEM\<rparr>) \<and>
    mm_realloc s p sz = Inr (NULL, s\<lparr>mem_errno := ENOMEM\<rparr>)"
  using mm_malloc_fail [OF assms(1,3,4)] assms(2) by (simp add: mm_realloc_def)

theorem mm_out_of_memory_witness:
  "mm_realloc demo_heap 4112 (word_of_int MAX_HEAP) = Inr (NULL, demo_heap\<lparr>mem_errno := ENOMEM\<rparr>)"
  using mm_out_of_memory [OF demo_heap_inv, of "word_of_int MAX_HEAP"]
  by (simp add: demo_heap_def chunk_size_def MAX_HEAP_def word_less_alt)

text \<open>
  C24: on a well-formed heap \<open>mm_checkheap\<close> always returns and never reads outside the block; at
  verbosity 1 it prints one line, whose two chunk counts add up to the number of chunks and whose
  two byte counts add up to the size of the heap.
\<close>

theorem mm_checkheap_totals:
  assumes "heap_inv s cs"
  shows "\<exists>na za nf zf. mm_checkheap s 1 = Some (Inr [TotalLine na za nf zf]) \<and>
    na + nf = word_of_nat (length cs) \<and> za + zf = mem_heapsize s"
proof -
  have len: "length (alloc_chunks cs) + length (freed_chunks cs) = length cs"
    by (induction cs) (auto simp: alloc_chunks_def freed_chunks_def)
  have "mem_brk s - mem_start_brk s = sum_list (map fst cs)"
    using assms tiles_sum [of "mem_bytes s" "mem_start_brk s" cs "mem_brk s"] by (simp add: heap_inv_def)
  then have sz: "mem_heapsize s = word_of_int (sum_list (map fst cs))" by (simp add: mem_heapsize_def)
  show ?thesis
    using mm_checkheap_tiles [OF assms, of 1] len sum_alloc_freed [of cs]
    by (auto simp: chunk_lines_def NORMAL_VERBOSE_def sz simp flip: of_nat_add of_int_add)
qed

theorem mm_checkheap_totals_witness:
  "\<exists>na za nf zf. mm_checkheap demo_heap 1 = Some (Inr [TotalLine na za nf zf]) \<and>
    na + nf = 1 \<and> za + zf = 48"
  using mm_checkheap_totals [OF demo_heap_inv] by (simp add: mem_heapsize_def demo_heap_def)

section \<open>Where the package departs from what it means to do\<close>

text \<open>
  C30: \<open>int newsize\<close> drops the high bits of a large request: \<open>mm_malloc\<close> of 4 GB does not fail, it
  returns a chunk of 16 bytes, all header, whose payload starts at the new end of the heap.
\<close>

theorem mm_malloc_4GB_truncated:
  assumes "heap_inv s cs" and "mem_brk s + 16 \<le> mem_max_addr s"
  shows "\<exists>t. mm_malloc s (2 ^ 32) = Inr (mem_brk s + 16, t) \<and> mem_brk t = mem_brk s + 16"
proof -
  have "mm_malloc s (2 ^ 32) = mm_malloc s 0"
    by (simp add: mm_malloc_def align_def ALIGNMENT_def sizeof_header_def int_of_size_def)
  moreover have "chunk_size (uint (0 :: 64 word)) = 16" by (simp add: chunk_size_def)
  ultimately show ?thesis
    using mm_malloc_ok [OF assms(1), of 0] assms(2) by simp
qed

theorem mm_malloc_4GB_truncated_witness:
  "\<exists>t. mm_malloc demo_heap (2 ^ 32) = Inr (4160, t) \<and> mem_brk t = 4160"
  using mm_malloc_4GB_truncated [OF demo_heap_inv] by (simp add: demo_heap_def MAX_HEAP_def)

text \<open>
  The pointer \<open>mm_malloc(0)\<close> returns cannot be freed while it is the last block: it is one
  past the last heap byte and the assertion of \<open>mm_free\<close> fails.
\<close>

theorem mm_free_of_empty_block_aborts:
  assumes "heap_inv s cs" and "mem_brk s + 16 \<le> mem_max_addr s"
  shows "\<exists>p t. mm_malloc s 0 = Inr (p, t) \<and> p \<noteq> NULL \<and> mm_free t p = Inl AssertFail"
proof -
  have z: "chunk_size (uint (0 :: 64 word)) = 16" by (simp add: chunk_size_def)
  have b: "0 < mem_brk s" using assms memlib_inv_bounds [of s] by (auto simp: heap_inv_def)
  show ?thesis
    using mm_malloc_ok [OF assms(1), of 0] assms(2) b unfolding z
    by (simp add: mm_free_def mem_heap_hi_def NULL_def)
qed

theorem mm_free_of_empty_block_aborts_witness:
  "\<exists>p t. mm_malloc demo_heap 0 = Inr (p, t) \<and> p \<noteq> NULL \<and> mm_free t p = Inl AssertFail"
  using mm_free_of_empty_block_aborts [OF demo_heap_inv] by (simp add: demo_heap_def MAX_HEAP_def)

end
