(* ===== verification/MM_Stub.thy ===== *)
theory MM_Stub
  imports MM_Package
begin

text \<open>
  The package \<open>malloclab/mm.c\<close> as the repository ships it, before a student fills it in: every
  function is a stub that keeps the heap as it is.
\<close>

definition stub_init :: "memlib \<Rightarrow> (int \<times> memlib) res" where
  "stub_init s = Inr (0, s)"

definition stub_malloc :: "memlib \<Rightarrow> size_t \<Rightarrow> (addr \<times> memlib) res" where
  "stub_malloc s sz = Inr (NULL, s)"

definition stub_free :: "memlib \<Rightarrow> addr \<Rightarrow> memlib res" where
  "stub_free s p = Inr s"

definition stub_realloc :: "memlib \<Rightarrow> addr \<Rightarrow> size_t \<Rightarrow> (addr \<times> memlib) res" where
  "stub_realloc s p sz = Inr (NULL, s)"

definition stub_checkheap :: "memlib \<Rightarrow> int \<Rightarrow> memlib" where
  "stub_checkheap s verbose_level = s"

definition stub_pkg :: mm_pkg where
  "stub_pkg = \<lparr>pkg_init = stub_init, pkg_malloc = stub_malloc, pkg_free = stub_free,
               pkg_realloc = stub_realloc\<rparr>"

lemma stub_pkg_simps [simp]:
  "pkg_init stub_pkg s = Inr (0, s)" "pkg_malloc stub_pkg s n = Inr (NULL, s)"
  "pkg_free stub_pkg s p = Inr s" "pkg_realloc stub_pkg s p n = Inr (NULL, s)"
  by (simp_all add: stub_pkg_def stub_init_def stub_malloc_def stub_free_def stub_realloc_def)

end
