(* ===== verification/Mdriver_Ranges.thy ===== *)
theory Mdriver_Ranges
  imports Memlib
begin

text \<open>
  The error reports and the range list of \<open>malloclab/mdriver.c\<close>. The range list records the
  payload extents of the allocated blocks, newest first; the record \<open>mdriver\<close> holds the driver's
  global error count, what it has printed about errors and how many more of its own small
  allocations the C library can serve. Error counts and line numbers are not cut to 32 bits: they stay
  below the number of requests and traces of a run.
\<close>

section \<open>Reports\<close>

datatype err_msg =
    NotAligned addr
  | OutsideHeap addr addr addr addr
  | Overlaps addr addr addr addr
  | MmInitFailed
  | MmMallocFailed
  | MmReallocFailed
  | DataNotPreserved
  | LibcMallocFailed
  | LibcReallocFailed

record mdriver =
  errors :: int
  reports :: "(int \<times> int \<times> err_msg) list"
  libc_avail :: nat

definition LINENUM :: "int \<Rightarrow> int" where "LINENUM i = i + 5"

definition malloc_error :: "mdriver \<Rightarrow> int \<Rightarrow> int \<Rightarrow> err_msg \<Rightarrow> mdriver" where
  "malloc_error d tracenum opnum msg =
     d\<lparr>errors := errors d + 1, reports := reports d @ [(tracenum, LINENUM opnum, msg)]\<rparr>"

text \<open>\<open>app_error\<close> and \<open>unix_error\<close> print their message and end the process.\<close>

definition app_error :: "'a res" where "app_error = Inl (Exit 1)"

definition unix_error :: "'a res" where "unix_error = Inl (Exit 1)"

section \<open>The range list\<close>

record range_t =
  r_lo :: addr
  r_hi :: addr

text \<open>The scan of \<open>add_range\<close>: the first range one of whose bytes is an end of the new payload.\<close>

fun find_overlap :: "range_t list \<Rightarrow> addr \<Rightarrow> addr \<Rightarrow> range_t option" where
  "find_overlap [] lo hi = None"
| "find_overlap (p # ps) lo hi =
     (if (lo \<ge> r_lo p \<and> lo \<le> r_hi p) \<or> (hi \<ge> r_lo p \<and> hi \<le> r_hi p)
      then Some p else find_overlap ps lo hi)"

definition add_range ::
  "mdriver \<Rightarrow> memlib \<Rightarrow> range_t list \<Rightarrow> addr \<Rightarrow> int \<Rightarrow> int \<Rightarrow> int \<Rightarrow>
     (int \<times> mdriver \<times> range_t list) res" where
  "add_range d s ranges lo sz tracenum opnum =
     (let hi = lo + sz - 1
      in res_bind (c_assert (sz > 0)) (\<lambda>_.
         if \<not> is_aligned lo
         then Inr (0, malloc_error d tracenum opnum (NotAligned lo), ranges)
         else if lo < mem_heap_lo s \<or> lo > mem_heap_hi s \<or> hi < mem_heap_lo s \<or> hi > mem_heap_hi s
         then Inr (0, malloc_error d tracenum opnum
                        (OutsideHeap lo hi (mem_heap_lo s) (mem_heap_hi s)), ranges)
         else case find_overlap ranges lo hi of
             Some p \<Rightarrow> Inr (0, malloc_error d tracenum opnum (Overlaps lo hi (r_lo p) (r_hi p)), ranges)
           | None \<Rightarrow>
               if libc_avail d = 0 then unix_error
               else Inr (1, d\<lparr>libc_avail := libc_avail d - 1\<rparr>,
                         \<lparr>r_lo = lo, r_hi = hi\<rparr> # ranges)))"

fun remove_range :: "mdriver \<Rightarrow> range_t list \<Rightarrow> addr \<Rightarrow> mdriver \<times> range_t list" where
  "remove_range d [] lo = (d, [])"
| "remove_range d (p # ps) lo =
     (if r_lo p = lo then (d\<lparr>libc_avail := libc_avail d + 1\<rparr>, ps)
      else (let (d', ps') = remove_range d ps lo in (d', p # ps')))"

fun clear_ranges :: "mdriver \<Rightarrow> range_t list \<Rightarrow> mdriver \<times> range_t list" where
  "clear_ranges d [] = (d, [])"
| "clear_ranges d (p # ps) = clear_ranges (d\<lparr>libc_avail := libc_avail d + 1\<rparr>) ps"

section \<open>What the list means\<close>

text \<open>The extents as a map from payload address to size, as the packages' contract has it.\<close>

definition extents :: "range_t list \<Rightarrow> addr \<rightharpoonup> int" where
  "extents rs = map_of (map (\<lambda>r. (r_lo r, r_hi r - r_lo r + 1)) rs)"

definition ranges_for :: "range_t list \<Rightarrow> (addr \<rightharpoonup> int) \<Rightarrow> bool" where
  "ranges_for rs L \<longleftrightarrow> distinct (map r_lo rs) \<and> extents rs = L"

lemma extents_Nil [simp]: "extents [] = Map.empty"
  by (simp add: extents_def)

lemma extents_Cons [simp]: "extents (r # rs) = (extents rs)(r_lo r \<mapsto> r_hi r - r_lo r + 1)"
  by (simp add: extents_def)

lemma dom_extents: "dom (extents rs) = r_lo ` set rs"
  by (simp add: extents_def dom_map_of_conv_image_fst image_image)

lemma extents_mem:
  "distinct (map r_lo rs) \<Longrightarrow> r \<in> set rs \<Longrightarrow> extents rs (r_lo r) = Some (r_hi r - r_lo r + 1)"
  by (induction rs) (auto, metis imageI)

lemma find_overlap_None:
  "find_overlap rs lo hi = None \<longleftrightarrow>
     (\<forall>p \<in> set rs. \<not> (r_lo p \<le> lo \<and> lo \<le> r_hi p) \<and> \<not> (r_lo p \<le> hi \<and> hi \<le> r_hi p))"
  by (induction rs) auto

lemma find_overlap_Some:
  "find_overlap rs lo hi = Some p \<Longrightarrow>
     p \<in> set rs \<and> (r_lo p \<le> lo \<and> lo \<le> r_hi p \<or> r_lo p \<le> hi \<and> hi \<le> r_hi p)"
  by (induction rs) (auto split: if_splits)

lemma ranges_for_empty [simp]: "ranges_for [] L \<longleftrightarrow> L = Map.empty"
  by (auto simp: ranges_for_def)

lemma ranges_for_add:
  assumes "ranges_for rs L" and "L p = None"
  shows "ranges_for (\<lparr>r_lo = p, r_hi = p + n - 1\<rparr> # rs) (L(p \<mapsto> n))"
  using assms dom_extents [of rs] by (auto simp: ranges_for_def)

lemma remove_range_dom:
  "distinct (map r_lo rs) \<Longrightarrow> r_lo ` set (snd (remove_range d rs p)) = r_lo ` set rs - {p}"
  by (induction rs) (auto simp: case_prod_beta Let_def, metis imageI)

lemma remove_range_distinct:
  "distinct (map r_lo rs) \<Longrightarrow> distinct (map r_lo (snd (remove_range d rs p)))"
proof (induction rs)
  case (Cons r rs)
  then show ?case using remove_range_dom [of rs d p] by (auto simp: case_prod_beta Let_def)
qed simp

lemma remove_range_extents:
  "distinct (map r_lo rs) \<Longrightarrow> extents (snd (remove_range d rs p)) = (extents rs)(p := None)"
proof (induction rs)
  case (Cons r rs)
  then have "extents rs (r_lo r) = None" using dom_extents [of rs] by auto
  with Cons show ?case by (auto simp: case_prod_beta Let_def fun_upd_idem fun_upd_twist)
qed simp

lemma remove_range_avail:
  "fst (remove_range d rs p) =
     d\<lparr>libc_avail := libc_avail d + (if p \<in> r_lo ` set rs then 1 else 0)\<rparr>"
  by (induction rs) (auto simp: case_prod_beta Let_def)

lemma ranges_for_remove:
  assumes "ranges_for rs L" and "L p = Some n"
  obtains rs' where "remove_range d rs p = (d\<lparr>libc_avail := libc_avail d + 1\<rparr>, rs')"
    and "ranges_for rs' (L(p := None))"
proof
  have "p \<in> r_lo ` set rs" using assms dom_extents [of rs] by (auto simp: ranges_for_def)
  then show "remove_range d rs p = (d\<lparr>libc_avail := libc_avail d + 1\<rparr>, snd (remove_range d rs p))"
    using remove_range_avail [of d rs p] by (metis prod.collapse)
  show "ranges_for (snd (remove_range d rs p)) (L(p := None))"
    using assms by (auto simp: ranges_for_def remove_range_distinct remove_range_extents)
qed

lemma clear_ranges_eq:
  "clear_ranges d rs = (d\<lparr>libc_avail := libc_avail d + length rs\<rparr>, [])"
  by (induction rs arbitrary: d) auto

text \<open>
  A payload that is aligned, lies in the heap and has no byte in common with the recorded ones
  is accepted.
\<close>

lemma add_range_accepts:
  assumes "0 < n" and "p mod 16 = 0" and "mem_start_brk s \<le> p" and "p + n \<le> mem_brk s"
    and "ranges_for rs L" and "\<And>q k. L q = Some k \<Longrightarrow> p + n \<le> q \<or> q + k \<le> p"
    and "libc_avail d > 0"
  shows "add_range d s rs p n tracenum opnum =
    Inr (1, d\<lparr>libc_avail := libc_avail d - 1\<rparr>, \<lparr>r_lo = p, r_hi = p + n - 1\<rparr> # rs)"
proof -
  have "find_overlap rs p (p + n - 1) = None"
    unfolding find_overlap_None
  proof
    fix r assume "r \<in> set rs"
    with assms(5) have "L (r_lo r) = Some (r_hi r - r_lo r + 1)"
      by (auto simp: ranges_for_def extents_mem)
    from assms(6) [OF this] assms(1)
    show "\<not> (r_lo r \<le> p \<and> p \<le> r_hi r) \<and> \<not> (r_lo r \<le> p + n - 1 \<and> p + n - 1 \<le> r_hi r)"
      by linarith
  qed
  then show ?thesis
    using assms by (simp add: add_range_def is_aligned_iff mem_heap_lo_def mem_heap_hi_def)
qed

section \<open>The verdicts of add\_range\<close>

text \<open>
  C23: for a payload of positive size, \<open>add_range\<close> accepts exactly when the address is 16-byte
  aligned, both ends lie in the heap and neither end lies in a recorded payload. An accepted
  payload is recorded; a rejected one leaves the list alone and adds one error and one report: that
  the address is not aligned, or else that the payload is outside the heap, or else which recorded
  payload it overlaps, with the line of the request.
\<close>

theorem add_range_verdict:
  assumes "0 < n" and "0 < libc_avail d"
  shows "\<exists>ok d' rs'. add_range d s rs p n tracenum opnum = Inr (ok, d', rs') \<and>
    (if p mod 16 = 0 \<and> mem_heap_lo s \<le> p \<and> p + n - 1 \<le> mem_heap_hi s \<and>
        (\<forall>r\<in>set rs. \<not> (r_lo r \<le> p \<and> p \<le> r_hi r) \<and>
          \<not> (r_lo r \<le> p + n - 1 \<and> p + n - 1 \<le> r_hi r))
     then ok = 1 \<and> errors d' = errors d \<and> reports d' = reports d \<and>
       rs' = \<lparr>r_lo = p, r_hi = p + n - 1\<rparr> # rs
     else ok = 0 \<and> errors d' = errors d + 1 \<and> rs' = rs \<and>
       (\<exists>msg. reports d' = reports d @ [(tracenum, LINENUM opnum, msg)] \<and>
         (if p mod 16 \<noteq> 0 then msg = NotAligned p
          else if \<not> (mem_heap_lo s \<le> p \<and> p + n - 1 \<le> mem_heap_hi s)
          then msg = OutsideHeap p (p + n - 1) (mem_heap_lo s) (mem_heap_hi s)
          else \<exists>r\<in>set rs. (r_lo r \<le> p \<and> p \<le> r_hi r \<or> r_lo r \<le> p + n - 1 \<and> p + n - 1 \<le> r_hi r) \<and>
            msg = Overlaps p (p + n - 1) (r_lo r) (r_hi r))))"
proof (cases "find_overlap rs p (p + n - 1)")
  case None
  then show ?thesis
    using assms find_overlap_None [of rs p "p + n - 1"]
    by (auto simp: add_range_def Let_def is_aligned_iff malloc_error_def)
next
  case (Some r)
  with find_overlap_Some [OF this] show ?thesis
    using assms by (auto simp: add_range_def Let_def is_aligned_iff malloc_error_def)
qed

theorem add_range_verdict_witness:
  "\<exists>ok d' rs'. add_range \<lparr>errors = 0, reports = [], libc_avail = 1\<rparr>
      \<lparr>mem_bytes = (\<lambda>_. 0), mem_start_brk = 4096, mem_brk = 8192, mem_max_addr = 8192,
        mem_live = True, mem_errno = 0\<rparr> [] 4112 64 0 0 = Inr (ok, d', rs') \<and> ok = 1 \<and>
    rs' = [\<lparr>r_lo = 4112, r_hi = 4175\<rparr>]"
  using add_range_verdict [of 64 "\<lparr>errors = 0, reports = [], libc_avail = 1\<rparr>"
      "\<lparr>mem_bytes = (\<lambda>_. 0), mem_start_brk = 4096, mem_brk = 8192, mem_max_addr = 8192,
        mem_live = True, mem_errno = 0\<rparr>" "[]" 4112 0 0]
  by (auto simp: mem_heap_lo_def mem_heap_hi_def)

text \<open>
  The overlap check looks at the two ends of the new payload only: a payload that strictly
  contains a live one is accepted, although the two overlap.
\<close>

theorem add_range_accepts_enclosing:
  assumes "0 < libc_avail d" and "p mod 16 = 0" and "mem_heap_lo s \<le> p" and "p + n - 1 \<le> mem_heap_hi s"
    and "p < r_lo r" and "r_lo r \<le> r_hi r" and "r_hi r < p + n - 1"
  shows "\<exists>d' rs'. add_range d s [r] p n tracenum opnum = Inr (1, d', rs') \<and> errors d' = errors d"
  using assms by (auto simp: add_range_def is_aligned_iff)

theorem add_range_accepts_enclosing_witness:
  "\<exists>d' rs'. add_range \<lparr>errors = 0, reports = [], libc_avail = 1\<rparr>
      \<lparr>mem_bytes = (\<lambda>_. 0), mem_start_brk = 4096, mem_brk = 8192, mem_max_addr = 8192,
        mem_live = True, mem_errno = 0\<rparr> [\<lparr>r_lo = 4128, r_hi = 4143\<rparr>] 4112 64 0 0 =
      Inr (1, d', rs') \<and> errors d' = 0"
  using add_range_accepts_enclosing [of "\<lparr>errors = 0, reports = [], libc_avail = 1\<rparr>" 4112
      "\<lparr>mem_bytes = (\<lambda>_. 0), mem_start_brk = 4096, mem_brk = 8192, mem_max_addr = 8192,
        mem_live = True, mem_errno = 0\<rparr>" 64 "\<lparr>r_lo = 4128, r_hi = 4143\<rparr>" 0 0]
  by (simp add: mem_heap_lo_def mem_heap_hi_def)

end
