(* ===== verification/C_Alloc.thy ===== *)
theory C_Alloc
  imports C_Prelude
begin

text \<open>
  The C library's \<open>malloc\<close> and \<open>free\<close> as the programs see them through their own bookkeeping: the set of
  the blocks that are allocated, in which freeing a block that is not there is undefined. Which
  address a call of \<open>malloc\<close> returns is an argument, a function of the number of the call and of the
  allocated blocks, so an address may come back once it has been freed.
\<close>

definition c_free :: "addr \<Rightarrow> addr set \<Rightarrow> addr set res" where
  "c_free p live =
     (if p = NULL then Inr live else if p \<in> live then Inr (live - {p}) else Inl UseAfterFree)"

record ledger =
  l_calls :: nat
  l_live :: "addr set"

type_synonym new_addr = "nat \<Rightarrow> addr set \<Rightarrow> addr"

definition led_empty :: ledger where "led_empty = \<lparr>l_calls = 0, l_live = {}\<rparr>"

definition led_malloc :: "new_addr \<Rightarrow> ledger \<Rightarrow> addr \<times> ledger" where
  "led_malloc new l =
     (let p = new (l_calls l) (l_live l) in
      (p, \<lparr>l_calls = Suc (l_calls l), l_live = (if p = NULL then l_live l else insert p (l_live l))\<rparr>))"

definition led_free :: "addr \<Rightarrow> ledger \<Rightarrow> ledger res" where
  "led_free p l = res_bind (c_free p (l_live l)) (\<lambda>live. Inr (l\<lparr>l_live := live\<rparr>))"

text \<open>What \<open>malloc\<close> promises when it does not fail: a block, and not one that is allocated.\<close>

definition malloc_fresh :: "new_addr \<Rightarrow> bool" where
  "malloc_fresh new \<longleftrightarrow> (\<forall>k live. finite live \<longrightarrow> new k live \<noteq> NULL \<and> new k live \<notin> live)"

definition demo_new :: new_addr where
  "demo_new k live = 16 * (1 + Max (insert 0 (abs ` live)))"

lemma demo_new_fresh: "malloc_fresh demo_new"
proof -
  have "demo_new k live \<noteq> NULL \<and> demo_new k live \<notin> live" if "finite live" for k and live :: "addr set"
  proof -
    define M where "M = Max (insert 0 (abs ` live))"
    have "0 \<le> M" "\<And>x. x \<in> live \<Longrightarrow> x \<le> M"
      using that by (auto simp: M_def intro: order_trans [OF abs_ge_self] Max_ge)
    then show ?thesis unfolding demo_new_def M_def [symmetric] NULL_def by fastforce
  qed
  then show ?thesis by (simp add: malloc_fresh_def)
qed

lemma led_malloc_ok:
  assumes "malloc_fresh new" and "finite (l_live l)" and "led_malloc new l = (p, l')"
  shows "p \<noteq> NULL \<and> p \<notin> l_live l \<and> l_live l' = insert p (l_live l) \<and> finite (l_live l')"
  using assms by (auto simp: led_malloc_def malloc_fresh_def Let_def)

lemma led_free_ok [simp]:
  "p \<noteq> NULL \<Longrightarrow> p \<in> l_live l \<Longrightarrow> led_free p l = Inr (l\<lparr>l_live := l_live l - {p}\<rparr>)"
  by (simp add: led_free_def c_free_def)

lemma led_free_NULL [simp]: "led_free NULL l = Inr l"
  by (simp add: led_free_def c_free_def)

lemma led_double_free: "p \<noteq> NULL \<Longrightarrow> led_free p l = Inr l' \<Longrightarrow> led_free p l' = Inl UseAfterFree"
  by (auto simp: led_free_def c_free_def split: if_splits)

end
