(* ===== verification/Mdriver_Trace.thy ===== *)
theory Mdriver_Trace
  imports Mdriver_Ranges C_Alloc
begin

text \<open>
  Traces of \<open>malloclab/mdriver.c\<close> and \<open>read_trace\<close>, which parses a trace file. The file is the
  string of its characters; \<open>fscanf\<close> is modelled for the three conversions the driver uses. What
  \<open>malloc\<close> leaves in fresh memory is the argument \<open>u\<close>, and the answers of its four calls of \<open>malloc\<close>
  (did the call with this number and this size succeed) the argument \<open>mal\<close>.
\<close>

section \<open>Traces\<close>

datatype op_type = ALLOC | FREE | REALLOC

record traceop_t =
  op_type :: op_type
  op_index :: int
  op_size :: int

record trace_t =
  sugg_heapsize :: int
  num_ids :: int
  num_ops :: int
  weight :: int
  ops :: "traceop_t list"
  blocks :: "addr list"
  block_sizes :: "size_t list"

section \<open>The conversions of fscanf\<close>

definition isspace :: "char \<Rightarrow> bool" where
  "isspace c \<longleftrightarrow> (of_char c :: nat) = 32 \<or> (9 \<le> (of_char c :: nat) \<and> (of_char c :: nat) \<le> 13)"

definition isdigit :: "char \<Rightarrow> bool" where
  "isdigit c \<longleftrightarrow> 48 \<le> (of_char c :: nat) \<and> (of_char c :: nat) \<le> 57"

definition skip_ws :: "string \<Rightarrow> string" where
  "skip_ws inp = dropWhile isspace inp"

text \<open>\<open>%s\<close>: the next run of other characters, or the end of the file.\<close>

definition scan_s :: "string \<Rightarrow> (string \<times> string) option" where
  "scan_s inp =
     (let r = skip_ws inp
      in if r = [] then None
         else Some (takeWhile (\<lambda>c. \<not> isspace c) r, dropWhile (\<lambda>c. \<not> isspace c) r))"

text \<open>A decimal number with an optional sign; without a digit the conversion fails.\<close>

definition num_val :: "string \<Rightarrow> int" where
  "num_val ds = foldl (\<lambda>n c. 10 * n + (int (of_char c) - 48)) 0 ds"

fun scan_sign :: "string \<Rightarrow> bool \<times> string" where
  "scan_sign [] = (False, [])"
| "scan_sign (c # cs) =
     (if c = CHR ''-'' then (True, cs) else if c = CHR ''+'' then (False, cs) else (False, c # cs))"

definition scan_num :: "string \<Rightarrow> int option \<times> string" where
  "scan_num inp =
     (let (neg, r) = scan_sign (skip_ws inp); ds = takeWhile isdigit r
      in if ds = [] then (None, r)
         else (Some (if neg then - num_val ds else num_val ds), dropWhile isdigit r))"

text \<open>
  \<open>%d\<close> stores the number clamped to \<open>long\<close> and \<open>%u\<close> the number clamped to \<open>unsigned long\<close>, each
  cut to 32 bits; a failed conversion leaves the variable as it was.
\<close>

definition conv_d :: "int \<Rightarrow> int" where
  "conv_d v = sint (word_of_int (max (- (2 ^ 63)) (min (2 ^ 63 - 1) v)) :: 32 word)"

definition conv_u :: "int \<Rightarrow> 32 word" where
  "conv_u v = word_of_int (if \<bar>v\<bar> < 2 ^ 64 then v else 2 ^ 64 - 1)"

definition scan_d :: "int \<Rightarrow> string \<Rightarrow> int \<times> string" where
  "scan_d old inp =
     (let (r, rest) = scan_num inp in (case r of None \<Rightarrow> old | Some v \<Rightarrow> conv_d v, rest))"

definition scan_u :: "32 word \<Rightarrow> string \<Rightarrow> bool \<times> 32 word \<times> string" where
  "scan_u old inp =
     (let (r, rest) = scan_num inp
      in case r of None \<Rightarrow> (False, old, rest) | Some v \<Rightarrow> (True, conv_u v, rest))"

definition scan_uu :: "32 word \<Rightarrow> 32 word \<Rightarrow> string \<Rightarrow> 32 word \<times> 32 word \<times> string" where
  "scan_uu a b inp =
     (let (ok, a', r) = scan_u a inp
      in if ok then (let (ok', b', r') = scan_u b r in (a', b', r')) else (a', b, r))"

definition scan_ud :: "32 word \<Rightarrow> string \<Rightarrow> 32 word \<times> string" where
  "scan_ud a inp =
     (let (ok, a', r) = scan_u a inp
      in (a', if ok \<and> r \<noteq> [] \<and> hd r = CHR ''d'' then tl r else r))"

section \<open>read\_trace\<close>

text \<open>The contents of memory fresh from \<open>malloc\<close>, and of the local variable \<open>size\<close>.\<close>

record uninit =
  u_hdr :: trace_t
  u_ops :: "nat \<Rightarrow> traceop_t"
  u_blocks :: "nat \<Rightarrow> addr"
  u_block_sizes :: "nat \<Rightarrow> size_t"
  u_size :: "32 word"

definition MAXLINE :: nat where "MAXLINE = 1024"

text \<open>One request line: the operation it stores, from the old value of the array element.\<close>

definition read_op ::
  "char \<Rightarrow> traceop_t \<Rightarrow> 32 word \<Rightarrow> 32 word \<Rightarrow> 32 word \<Rightarrow> string \<Rightarrow>
     (traceop_t \<times> 32 word \<times> 32 word \<times> 32 word \<times> string) res" where
  "read_op ty old index sz max_index inp =
     (if ty = CHR ''a'' then
        (let (i, n, r) = scan_uu index sz inp
         in Inr (old\<lparr>op_type := ALLOC, op_index := sint i, op_size := sint n\<rparr>, i, n,
                 (if i > max_index then i else max_index), r))
      else if ty = CHR ''r'' then
        (let (i, n, r) = scan_uu index sz inp
         in Inr (old\<lparr>op_type := REALLOC, op_index := sint i, op_size := sint n\<rparr>, i, n,
                 (if i > max_index then i else max_index), r))
      else if ty = CHR ''f'' then
        (let (i, r) = scan_ud index inp
         in Inr (old\<lparr>op_type := FREE, op_index := sint i\<rparr>, i, sz, max_index, r))
      else Inl (Exit 1))"

lemma length_skip_ws: "length (skip_ws inp) \<le> length inp"
  by (simp add: skip_ws_def length_dropWhile_le)

lemma scan_s_shorter:
  assumes "scan_s inp = Some (tok, r)"
  shows "length r < length inp"
proof -
  let ?w = "skip_ws inp"
  have ne: "?w \<noteq> []" and r: "r = dropWhile (\<lambda>c. \<not> isspace c) ?w"
    using assms by (auto simp: scan_s_def Let_def split: if_splits)
  have "\<not> isspace (hd ?w)"
    using ne unfolding skip_ws_def by (rule hd_dropWhile)
  then obtain c w where "?w = c # w" "\<not> isspace c" using ne by (cases ?w) auto
  then have "length r \<le> length w" using r by (simp add: length_dropWhile_le)
  with \<open>?w = c # w\<close> length_skip_ws [of inp] show ?thesis by simp
qed

lemma length_scan_sign: "length (snd (scan_sign inp)) \<le> length inp"
  by (cases inp) auto

lemma length_scan_num: "length (snd (scan_num inp)) \<le> length inp"
proof -
  let ?w = "skip_ws inp"
  have "length (snd (scan_sign ?w)) \<le> length inp"
    using length_scan_sign [of ?w] length_skip_ws [of inp] by linarith
  moreover have "length (dropWhile isdigit (snd (scan_sign ?w))) \<le> length (snd (scan_sign ?w))"
    by (rule length_dropWhile_le)
  ultimately show ?thesis
    by (auto simp: scan_num_def Let_def case_prod_beta)
qed

lemma length_scan_u: "scan_u a inp = (ok, v, r) \<Longrightarrow> length r \<le> length inp"
  using length_scan_num [of inp] by (auto simp: scan_u_def Let_def split: prod.splits option.splits)

lemma length_scan_uu: "scan_uu a b inp = (v, w, r) \<Longrightarrow> length r \<le> length inp"
  by (auto simp: scan_uu_def Let_def split: prod.splits if_splits dest!: length_scan_u)

lemma length_scan_ud: "scan_ud a inp = (v, r) \<Longrightarrow> length r \<le> length inp"
  by (auto simp: scan_ud_def Let_def split: prod.splits if_splits dest!: length_scan_u)

lemma length_read_op:
  "read_op ty old i n mx inp = Inr (op, i', n', mx', r) \<Longrightarrow> length r \<le> length inp"
  by (auto simp: read_op_def Let_def split: if_splits prod.splits
      dest: length_scan_uu length_scan_ud)

text \<open>
  The loop over the request lines. Each round stores into element \<open>op_index\<close> of the array,
  which is undefined once the file holds more lines than its header announced.
\<close>

function read_ops ::
  "traceop_t list \<Rightarrow> nat \<Rightarrow> 32 word \<Rightarrow> 32 word \<Rightarrow> 32 word \<Rightarrow> string \<Rightarrow>
     (traceop_t list \<times> nat \<times> 32 word) res" where
  "read_ops arr k index sz max_index inp =
     (case scan_s inp of
        None \<Rightarrow> Inr (arr, k, max_index)
      | Some (tok, r) \<Rightarrow>
          if length tok \<ge> MAXLINE then Inl OutOfBounds
          else if k \<ge> length arr \<and> hd tok \<in> {CHR ''a'', CHR ''r'', CHR ''f''} then Inl OutOfBounds
          else case read_op (hd tok) (arr ! k) index sz max_index r of
                 Inl e \<Rightarrow> Inl e
               | Inr (op, i, n, mx, r') \<Rightarrow> read_ops (arr[k := op]) (Suc k) i n mx r')"
  by pat_completeness auto
termination
  by (relation "measure (\<lambda>(arr, k, i, n, mx, inp). length inp)")
    (auto dest!: scan_s_shorter length_read_op)

declare read_ops.simps [simp del]

definition read_trace ::
  "uninit \<Rightarrow> (nat \<Rightarrow> size_t \<Rightarrow> bool) \<Rightarrow> string option \<Rightarrow> trace_t res" where
  "read_trace u mal file =
     (if \<not> mal 1 40 then unix_error
      else case file of
        None \<Rightarrow> unix_error
      | Some inp \<Rightarrow>
          (let (hs, r1) = scan_d (sugg_heapsize (u_hdr u)) inp;
               (ids, r2) = scan_d (num_ids (u_hdr u)) r1;
               (nops, r3) = scan_d (num_ops (u_hdr u)) r2;
               (wt, r4) = scan_d (weight (u_hdr u)) r3
           in if \<not> mal 2 (word_of_int nops * 12) then unix_error
              else if \<not> mal 3 (word_of_int ids * 8) then unix_error
              else if \<not> mal 4 (word_of_int ids * 8) then unix_error
              else
                res_bind (read_ops (map (u_ops u) [0..<nat nops]) 0 0 (u_size u) 0 r4)
                  (\<lambda>(arr, k, max_index).
                res_bind (chk_int (ids - 1)) (\<lambda>last.
                res_bind (c_assert (max_index = word_of_int last)) (\<lambda>_.
                res_bind (c_assert (word_of_int nops = (word_of_nat k :: 32 word))) (\<lambda>_.
                Inr \<lparr>sugg_heapsize = hs, num_ids = ids, num_ops = nops, weight = wt, ops = arr,
                     blocks = map (u_blocks u) [0..<nat ids],
                     block_sizes = map (u_block_sizes u) [0..<nat ids]\<rparr>))))))"

section \<open>The memory of a trace\<close>

text \<open>
  The addresses of the four blocks \<open>read_trace\<close> allocates, in the order it allocates them, and
  \<open>free_trace\<close>, which frees them.
\<close>

record trace_ptrs =
  tp_trace :: addr
  tp_ops :: addr
  tp_blocks :: addr
  tp_block_sizes :: addr

definition trace_mallocs :: "new_addr \<Rightarrow> ledger \<Rightarrow> trace_ptrs \<times> ledger" where
  "trace_mallocs new l0 =
     (let (t, l1) = led_malloc new l0; (os, l2) = led_malloc new l1;
          (bs, l3) = led_malloc new l2; (ss, l4) = led_malloc new l3
      in (\<lparr>tp_trace = t, tp_ops = os, tp_blocks = bs, tp_block_sizes = ss\<rparr>, l4))"

definition free_trace :: "trace_ptrs \<Rightarrow> ledger \<Rightarrow> ledger res" where
  "free_trace tp l0 =
     res_bind (led_free (tp_ops tp) l0) (\<lambda>l1.
     res_bind (led_free (tp_blocks tp) l1) (\<lambda>l2.
     res_bind (led_free (tp_block_sizes tp) l2) (\<lambda>l3.
     led_free (tp_trace tp) l3)))"

text \<open>\<open>free_trace\<close> frees what \<open>read_trace\<close> allocated, no more and nothing twice.\<close>

lemma free_trace_ok:
  assumes new: "malloc_fresh new" and "finite (l_live l)" and "trace_mallocs new l = (tp, l')"
  shows "\<exists>l''. free_trace tp l' = Inr l'' \<and> l_live l'' = l_live l"
proof -
  obtain t l1 where 1: "led_malloc new l = (t, l1)" by fastforce
  obtain os l2 where 2: "led_malloc new l1 = (os, l2)" by fastforce
  obtain bs l3 where 3: "led_malloc new l2 = (bs, l3)" by fastforce
  obtain ss l4 where 4: "led_malloc new l3 = (ss, l4)" by fastforce
  have tp: "tp = \<lparr>tp_trace = t, tp_ops = os, tp_blocks = bs, tp_block_sizes = ss\<rparr>" "l' = l4"
    using assms(3) by (simp_all add: trace_mallocs_def 1 2 3 4)
  note m1 = led_malloc_ok [OF new assms(2) 1]
  note m2 = led_malloc_ok [OF new _ 2]
  note m3 = led_malloc_ok [OF new _ 3]
  note m4 = led_malloc_ok [OF new _ 4]
  show ?thesis using m1 m2 m3 m4 by (auto simp: tp free_trace_def)
qed

section \<open>Writing traces\<close>

text \<open>The format of the trace files, to state what \<open>read_trace\<close> makes of them.\<close>

fun dec :: "nat \<Rightarrow> string" where
  "dec n = (if n < 10 then [char_of (48 + n)] else dec (n div 10) @ [char_of (48 + n mod 10)])"

declare dec.simps [simp del]

definition NL :: char where "NL = CHR 0x0A"

definition SP :: char where "SP = CHR 0x20"

definition print_op :: "traceop_t \<Rightarrow> string" where
  "print_op p = NL #
     (case op_type p of
        ALLOC \<Rightarrow> ''a'' @ SP # dec (nat (op_index p)) @ SP # dec (nat (op_size p))
      | REALLOC \<Rightarrow> ''r'' @ SP # dec (nat (op_index p)) @ SP # dec (nat (op_size p))
      | FREE \<Rightarrow> ''f'' @ SP # dec (nat (op_index p)))"

definition print_trace :: "trace_t \<Rightarrow> string" where
  "print_trace t =
     dec (nat (sugg_heapsize t)) @ NL # dec (nat (num_ids t)) @ NL # dec (nat (num_ops t)) @
     NL # dec (nat (weight t)) @ concat (map print_op (ops t)) @ [NL]"

lemma isdigit_char_of: "d < 10 \<Longrightarrow> isdigit (char_of (48 + d))" for d :: nat
  by (simp add: isdigit_def)

lemma dec_digits: "c \<in> set (dec n) \<Longrightarrow> isdigit c"
proof (induction n rule: dec.induct)
  case (1 n)
  from "1.prems" show ?case
    by (subst (asm) dec.simps) (use "1.IH" in \<open>auto simp: isdigit_char_of split: if_splits\<close>)
qed

lemma dec_nonempty: "dec n \<noteq> []"
  by (subst dec.simps) simp

lemma num_val_snoc: "num_val (ds @ [c]) = 10 * num_val ds + (int (of_char c) - 48)"
  by (simp add: num_val_def)

lemma num_val_dec [simp]: "num_val (dec n) = int n"
proof (induction n rule: dec.induct)
  case (1 n)
  have digit: "int (of_char (char_of (48 + d) :: char)) - 48 = int d" if "d < 10" for d :: nat
    using that by simp
  show ?case
  proof (cases "n < 10")
    case True
    then show ?thesis by (subst dec.simps) (simp add: num_val_def)
  next
    case False
    then have "num_val (dec n) = 10 * int (n div 10) + (int (of_char (char_of (48 + n mod 10) :: char)) - 48)"
      by (subst dec.simps) (simp add: num_val_snoc 1)
    also have "\<dots> = int n" by (subst digit) (simp, presburger)
    finally show ?thesis .
  qed
qed

lemma isdigit_not_space: "isdigit c \<Longrightarrow> \<not> isspace c"
  by (auto simp: isdigit_def isspace_def)

lemma isdigit_not_sign: "isdigit c \<Longrightarrow> c \<noteq> CHR ''-'' \<and> c \<noteq> CHR ''+''"
  by (auto simp: isdigit_def)

definition stops :: "string \<Rightarrow> bool" where
  "stops r \<longleftrightarrow> r = [] \<or> \<not> isdigit (hd r)"

lemma stops_sep [simp]: "stops (NL # r)" "stops (SP # r)"
  by (simp_all add: stops_def isdigit_def NL_def SP_def)

lemma span_dec:
  assumes "stops r"
  shows "takeWhile isdigit (dec n @ r) = dec n" "dropWhile isdigit (dec n @ r) = r"
  using assms dec_digits [of _ n]
  by (cases r; simp add: stops_def takeWhile_append2 dropWhile_append2)+

lemma scan_num_dec: "stops r \<Longrightarrow> scan_num (dec n @ r) = (Some (int n), r)"
proof -
  assume r: "stops r"
  obtain c cs where dec: "dec n = c # cs" and c: "isdigit c"
    using dec_nonempty [of n] dec_digits [of _ n] by (cases "dec n") auto
  have "scan_sign (skip_ws (dec n @ r)) = (False, dec n @ r)"
    using c isdigit_not_space [OF c] isdigit_not_sign [OF c] by (simp add: dec skip_ws_def)
  then show ?thesis
    using span_dec [OF r, of n] dec_nonempty [of n] by (simp add: scan_num_def)
qed

lemma scan_num_sep [simp]: "scan_num (NL # r) = scan_num r" "scan_num (SP # r) = scan_num r"
  by (simp_all add: scan_num_def skip_ws_def isspace_def NL_def SP_def)

lemma conv_d_small: "0 \<le> v \<Longrightarrow> v < 2 ^ 31 \<Longrightarrow> conv_d v = v"
  by (simp add: conv_d_def signed_of_int signed_take_bit_int_eq_self)

lemma sint_word32: "0 \<le> v \<Longrightarrow> v < 2 ^ 31 \<Longrightarrow> sint (word_of_int v :: 32 word) = v"
  by (simp add: signed_of_int signed_take_bit_int_eq_self)

lemma sint_conv_u: "0 \<le> v \<Longrightarrow> v < 2 ^ 31 \<Longrightarrow> sint (conv_u v) = v"
  by (simp add: conv_u_def signed_of_int signed_take_bit_int_eq_self)

lemma conv_u_small: "0 \<le> v \<Longrightarrow> v < 2 ^ 31 \<Longrightarrow> conv_u v = word_of_int v"
  by (simp add: conv_u_def)

lemma scan_u_dec: "stops r \<Longrightarrow> scan_u a (dec n @ r) = (True, conv_u (int n), r)"
  by (simp add: scan_u_def scan_num_dec)

lemma scan_u_sep [simp]: "scan_u a (NL # r) = scan_u a r" "scan_u a (SP # r) = scan_u a r"
  by (simp_all add: scan_u_def)

lemma scan_d_dec: "stops r \<Longrightarrow> scan_d a (dec n @ r) = (conv_d (int n), r)"
  by (simp add: scan_d_def scan_num_dec)

lemma scan_d_sep [simp]: "scan_d a (NL # r) = scan_d a r"
  by (simp add: scan_d_def)

section \<open>Reading back what was written\<close>

text \<open>A request as the trace format can hold it.\<close>

definition op_ok :: "traceop_t \<Rightarrow> bool" where
  "op_ok p \<longleftrightarrow> 0 \<le> op_index p \<and> op_index p < 2 ^ 31 \<and>
     (op_type p \<noteq> FREE \<longrightarrow> 0 \<le> op_size p \<and> op_size p < 2 ^ 31)"

text \<open>What \<open>read_trace\<close> stores: of a \<open>FREE\<close> line, only the type and the index.\<close>

definition stored_op :: "traceop_t \<Rightarrow> traceop_t \<Rightarrow> traceop_t" where
  "stored_op old p =
     (if op_type p = FREE then old\<lparr>op_type := FREE, op_index := op_index p\<rparr>
      else old\<lparr>op_type := op_type p, op_index := op_index p, op_size := op_size p\<rparr>)"

fun max_op_index :: "int \<Rightarrow> traceop_t list \<Rightarrow> int" where
  "max_op_index m [] = m"
| "max_op_index m (p # ps) =
     max_op_index (if op_type p = FREE then m else max m (op_index p)) ps"

lemma max_op_index_range:
  "0 \<le> m \<Longrightarrow> m < 2 ^ 31 \<Longrightarrow> list_all op_ok ps \<Longrightarrow>
     0 \<le> max_op_index m ps \<and> max_op_index m ps < 2 ^ 31"
  by (induction ps arbitrary: m) (auto simp: op_ok_def)

lemma stops_ops [simp]: "stops (concat (map print_op ps) @ [NL])"
  by (cases ps) (simp_all add: print_op_def)

lemma word_max:
  assumes "0 \<le> a" "a < 2 ^ 31" "0 \<le> b" "b < 2 ^ 31"
  shows "(if (word_of_int a :: 32 word) < word_of_int b then word_of_int b else word_of_int a)
    = (word_of_int (max a b) :: 32 word)"
proof -
  have "uint (word_of_int a :: 32 word) = a" "uint (word_of_int b :: 32 word) = b"
    using assms by (simp_all add: uint_word_of_int_eq take_bit_int_eq_self)
  then show ?thesis by (simp add: word_less_alt max_def)
qed

text \<open>One printed line is read back as its request.\<close>

lemma read_printed_op:
  assumes p: "op_ok p" and r: "stops r" and r': "r \<noteq> []" "hd r \<noteq> CHR ''d''"
    and m: "0 \<le> m" "m < 2 ^ 31"
  shows "\<exists>tok rest i' n'. scan_s (print_op p @ r) = Some (tok, rest) \<and> length tok = 1 \<and>
    hd tok \<in> {CHR ''a'', CHR ''r'', CHR ''f''} \<and>
    read_op (hd tok) old i n (word_of_int m) rest =
      Inr (stored_op old p, i', n', word_of_int (max_op_index m [p]), r)"
proof -
  have sc: "scan_s (NL # c # SP # x) = Some ([c], SP # x)"
    if "c \<in> {CHR ''a'', CHR ''r'', CHR ''f''}" for c x
    using that by (auto simp: scan_s_def skip_ws_def isspace_def NL_def SP_def)
  have idx: "conv_u (op_index p) = word_of_int (op_index p)"
    "sint (word_of_int (op_index p) :: 32 word) = op_index p"
    using p by (auto simp: op_ok_def conv_u_small sint_word32)
  show ?thesis
  proof (cases "op_type p")
    case FREE
    then show ?thesis
      using r r' p idx
      by (simp add: print_op_def sc read_op_def scan_ud_def scan_u_dec stored_op_def op_ok_def)
  next
    case ALLOC
    then show ?thesis
      using r p idx m word_max [OF m, of "op_index p"]
      by (simp add: print_op_def sc read_op_def scan_uu_def scan_u_dec stored_op_def op_ok_def
          sint_conv_u)
  next
    case REALLOC
    then show ?thesis
      using r p idx m word_max [OF m, of "op_index p"]
      by (simp add: print_op_def sc read_op_def scan_uu_def scan_u_dec stored_op_def op_ok_def
          sint_conv_u)
  qed
qed

lemma hd_ops [simp]: "hd (concat (map print_op ps) @ [NL]) = NL"
  by (cases ps) (simp_all add: print_op_def)

lemma read_ops_printed:
  assumes "list_all op_ok ps" and "length arr = k + length ps" and "0 \<le> m" and "m < 2 ^ 31"
  shows "read_ops arr k i n (word_of_int m) (concat (map print_op ps) @ [NL]) =
    Inr (take k arr @ map2 stored_op (drop k arr) ps, k + length ps, word_of_int (max_op_index m ps))"
  using assms
proof (induction ps arbitrary: arr k i n m)
  case Nil
  then show ?case
    by (subst read_ops.simps) (simp add: scan_s_def skip_ws_def isspace_def NL_def)
next
  case (Cons p ps)
  let ?r = "concat (map print_op ps) @ [NL]"
  have p: "op_ok p" and ps: "list_all op_ok ps" and k: "k < length arr"
    using Cons.prems by auto
  have hd: "?r \<noteq> []" "hd ?r \<noteq> CHR ''d''"
    by (simp, simp only: hd_ops, simp add: NL_def)
  obtain tok rest i' n' where sc: "scan_s (print_op p @ ?r) = Some (tok, rest)"
    and tok: "length tok = 1"
    and rd: "read_op (hd tok) (arr ! k) i n (word_of_int m) rest =
      Inr (stored_op (arr ! k) p, i', n', word_of_int (max_op_index m [p]), ?r)"
    using read_printed_op [OF p stops_ops [of ps] hd Cons.prems(3,4), of "arr ! k" i n] by blast
  have m': "0 \<le> max_op_index m [p]" "max_op_index m [p] < 2 ^ 31"
    using max_op_index_range [OF Cons.prems(3,4), of "[p]"] p by auto
  have "read_ops arr k i n (word_of_int m) (print_op p @ ?r) =
      read_ops (arr[k := stored_op (arr ! k) p]) (Suc k) i' n' (word_of_int (max_op_index m [p])) ?r"
    using k tok by (subst read_ops.simps) (simp add: sc rd MAXLINE_def del: max_op_index.simps)
  also have "\<dots> = Inr (take (Suc k) (arr[k := stored_op (arr ! k) p]) @
        map2 stored_op (drop (Suc k) (arr[k := stored_op (arr ! k) p])) ps,
      Suc k + length ps, word_of_int (max_op_index (max_op_index m [p]) ps))"
    using Cons.prems(2) by (intro Cons.IH [OF ps _ m']) simp
  also have "take (Suc k) (arr[k := stored_op (arr ! k) p]) @
        map2 stored_op (drop (Suc k) (arr[k := stored_op (arr ! k) p])) ps =
      take k arr @ map2 stored_op (drop k arr) (p # ps)"
    using k by (simp add: take_Suc_conv_app_nth drop_update_cancel flip: Cons_nth_drop_Suc)
  finally show ?case by simp
qed

text \<open>
  A trace whose numbers fit, whose header counts its requests and names one more identifier than
  the largest index allocated, is read back: header and requests are those written.
\<close>

definition trace_ok :: "trace_t \<Rightarrow> bool" where
  "trace_ok t \<longleftrightarrow>
     0 \<le> sugg_heapsize t \<and> sugg_heapsize t < 2 ^ 31 \<and> 0 \<le> weight t \<and> weight t < 2 ^ 31 \<and>
     0 \<le> num_ids t \<and> num_ids t < 2 ^ 31 \<and> num_ops t < 2 ^ 31 \<and>
     num_ops t = int (length (ops t)) \<and> list_all op_ok (ops t) \<and>
     num_ids t = max_op_index 0 (ops t) + 1"

lemma read_trace_print:
  assumes ok: "trace_ok t" and mal: "\<And>k n. mal k n"
  shows "read_trace u mal (Some (print_trace t)) =
    Inr \<lparr>sugg_heapsize = sugg_heapsize t, num_ids = num_ids t, num_ops = num_ops t,
         weight = weight t, ops = map2 stored_op (map (u_ops u) [0..<length (ops t)]) (ops t),
         blocks = map (u_blocks u) [0..<nat (num_ids t)],
         block_sizes = map (u_block_sizes u) [0..<nat (num_ids t)]\<rparr>"
proof -
  have "read_ops (map (u_ops u) [0..<length (ops t)]) 0 0 (u_size u) (word_of_int 0)
      (concat (map print_op (ops t)) @ [NL]) =
    Inr (map2 stored_op (map (u_ops u) [0..<length (ops t)]) (ops t), length (ops t),
      word_of_int (max_op_index 0 (ops t)))"
    using ok by (subst read_ops_printed) (auto simp: trace_ok_def)
  then show ?thesis
    using ok mal
    by (simp add: read_trace_def print_trace_def scan_d_dec conv_d_small trace_ok_def in_int_iff)
qed

section \<open>Round trip and errors of read\_trace\<close>

definition demo_file :: trace_t where
  "demo_file = \<lparr>sugg_heapsize = 20000, num_ids = 2, num_ops = 3, weight = 1,
     ops = [\<lparr>op_type = ALLOC, op_index = 0, op_size = 512\<rparr>,
            \<lparr>op_type = ALLOC, op_index = 1, op_size = 128\<rparr>,
            \<lparr>op_type = FREE, op_index = 0, op_size = 0\<rparr>],
     blocks = [], block_sizes = []\<rparr>"

definition demo_uninit :: uninit where
  "demo_uninit = \<lparr>u_hdr = demo_file, u_ops = (\<lambda>_. \<lparr>op_type = ALLOC, op_index = 7, op_size = 9\<rparr>),
     u_blocks = (\<lambda>_. 0), u_block_sizes = (\<lambda>_. 0), u_size = 5\<rparr>"

text \<open>
  C15: reading back a trace file that was written from a trace gives the trace: the four header
  numbers, and of every request its type, its index and, unless it is a \<open>FREE\<close>, its size,
  whatever the memory \<open>malloc\<close> returned held before.
\<close>

theorem read_trace_roundtrip:
  assumes "trace_ok t" and "\<And>k n. mal k n"
  shows "\<exists>t'. read_trace u mal (Some (print_trace t)) = Inr t' \<and>
    sugg_heapsize t' = sugg_heapsize t \<and> num_ids t' = num_ids t \<and> num_ops t' = num_ops t \<and>
    weight t' = weight t \<and> length (blocks t') = nat (num_ids t) \<and>
    length (block_sizes t') = nat (num_ids t) \<and>
    list_all2 (\<lambda>p q. op_type q = op_type p \<and> op_index q = op_index p \<and>
      (op_type p \<noteq> FREE \<longrightarrow> op_size q = op_size p)) (ops t) (ops t')"
  by (simp add: read_trace_print [OF assms] list_all2_conv_all_nth stored_op_def)

theorem read_trace_roundtrip_witness:
  "\<exists>t'. read_trace demo_uninit (\<lambda>k n. True) (Some (print_trace demo_file)) = Inr t' \<and>
    num_ids t' = 2 \<and> num_ops t' = 3 \<and> length (ops t') = 3"
proof -
  have "trace_ok demo_file" by (simp add: trace_ok_def demo_file_def op_ok_def)
  from read_trace_roundtrip [OF this, of "\<lambda>k n. True" demo_uninit] show ?thesis
    by (auto simp: demo_file_def dest!: list_all2_lengthD)
qed

text \<open>
  The requests stored so far: of those that are not a \<open>FREE\<close>, the index is at most the largest
  one seen, both as \<open>unsigned\<close> values.
\<close>

definition ops_below :: "traceop_t list \<Rightarrow> nat \<Rightarrow> 32 word \<Rightarrow> bool" where
  "ops_below arr k mx \<longleftrightarrow> k \<le> length arr \<and>
     (\<forall>j<k. op_type (arr ! j) \<noteq> FREE \<longrightarrow> (\<exists>i. op_index (arr ! j) = sint i \<and> i \<le> mx))"

lemma read_op_below:
  assumes "read_op ty old index sz mx inp = Inr (op, i, n, mx', r)"
  shows "mx \<le> mx'" and "op_type op \<noteq> FREE \<longrightarrow> op_index op = sint i \<and> i \<le> mx'"
    and "ty \<in> {CHR ''a'', CHR ''r'', CHR ''f''}"
  using assms by (auto simp: read_op_def split: if_splits prod.splits)

lemma ops_below_step:
  assumes "ops_below arr k mx" and "read_op ty old index sz mx inp = Inr (op, i, n, mx', r)"
    and "k < length arr"
  shows "ops_below (arr[k := op]) (Suc k) mx'"
  unfolding ops_below_def
proof (intro conjI allI impI)
  fix j assume "j < Suc k" and ty: "op_type (arr[k := op] ! j) \<noteq> FREE"
  note rb = read_op_below [OF assms(2)]
  show "\<exists>i. op_index (arr[k := op] ! j) = sint i \<and> i \<le> mx'"
  proof (cases "j = k")
    case True
    with ty rb(2) assms(3) show ?thesis by auto
  next
    case False
    with \<open>j < Suc k\<close> have "j < k" by simp
    with False ty assms(1) obtain i' where "op_index (arr ! j) = sint i'" "i' \<le> mx"
      by (auto simp: ops_below_def)
    with False rb(1) show ?thesis by (auto intro: order_trans)
  qed
qed (use assms(3) in simp)

text \<open>What every stored request preserves holds of the array in the end.\<close>

lemma read_ops_invariant:
  assumes step: "\<And>arr k i n mx inp ty op i' n' mx' r. P arr k mx \<Longrightarrow> k < length arr \<Longrightarrow>
      read_op ty (arr ! k) i n mx inp = Inr (op, i', n', mx', r) \<Longrightarrow> P (arr[k := op]) (Suc k) mx'"
  shows "read_ops arr k i n mx inp = Inr (arr', k', mx') \<Longrightarrow> P arr k mx \<Longrightarrow>
     length arr' = length arr \<and> P arr' k' mx'"
proof (induction arr k i n mx inp rule: read_ops.induct)
  case (1 arr k index sz mx inp)
  show ?case
  proof (cases "scan_s inp")
    case None
    with 1(2,3) show ?thesis by (simp add: read_ops.simps)
  next
    case (Some a)
    then obtain tok r where a: "scan_s inp = Some (tok, r)" by (cases a) auto
    with 1(2) obtain op i n mx1 r' where
      guards: "\<not> MAXLINE \<le> length tok" "\<not> (length arr \<le> k \<and> hd tok \<in> {CHR ''a'', CHR ''r'', CHR ''f''})"
      and op: "read_op (hd tok) (arr ! k) index sz mx r = Inr (op, i, n, mx1, r')"
      and rest: "read_ops (arr[k := op]) (Suc k) i n mx1 r' = Inr (arr', k', mx')"
      by (subst (asm) read_ops.simps) (auto split: if_splits sum.splits)
    have "k < length arr" using guards(2) read_op_below (3) [OF op] by auto
    from 1(1) [OF a refl guards op refl refl refl refl rest step [OF 1(3) this op]]
    show ?thesis by simp
  qed
qed

lemma read_ops_below:
  assumes "read_ops arr k i n mx inp = Inr (arr', k', mx')" and "ops_below arr k mx"
  shows "length arr' = length arr \<and> ops_below arr' k' mx'"
  using read_ops_invariant [of ops_below, OF ops_below_step assms] .

lemma conv_d_in_int: "in_int (conv_d v)"
  using sint_greater_eq [of "word_of_int (max (- (2 ^ 63)) (min (2 ^ 63 - 1) v)) :: 32 word"]
    sint_less [of "word_of_int (max (- (2 ^ 63)) (min (2 ^ 63 - 1) v)) :: 32 word"]
  by (simp add: conv_d_def in_int_iff)

lemma scan_d_in_int: "in_int old \<Longrightarrow> in_int (fst (scan_d old inp))"
  by (simp add: scan_d_def conv_d_in_int split: prod.split option.split)

text \<open>
  Every element of the array was stored, and its index is at most the last identifier as \<open>unsigned\<close>
  numbers; with a positive number of identifiers it is one of them.
\<close>

lemma ops_below_all:
  assumes below: "ops_below arr k mx" and len: "length arr = nat nops"
    and cnt: "word_of_int nops = (word_of_nat k :: 32 word)" and nops: "in_int nops"
    and p: "p \<in> set arr" "op_type p \<noteq> FREE"
  shows "\<exists>i. op_index p = sint i \<and> i \<le> mx"
proof -
  have "k \<le> nat nops" using below len by (simp add: ops_below_def)
  moreover have "0 < nops" using length_pos_if_in_set [OF p(1)] len by simp
  ultimately have "int k < 2 ^ 32" "nops < 2 ^ 32" using nops by (auto simp: in_int_iff)
  then have "nops = int k"
    using arg_cong [OF cnt, of uint] \<open>0 < nops\<close>
    by (simp add: uint_word_of_int_eq unsigned_of_nat take_bit_int_eq_self take_bit_nat_eq_self)
  with p(1) len obtain j where "j < k" "arr ! j = p" by (auto simp: in_set_conv_nth)
  with below p(2) show ?thesis unfolding ops_below_def by metis
qed

lemma below_last:
  assumes "i \<le> (word_of_int (ids - 1) :: 32 word)" and "0 < ids" and "in_int ids"
  shows "0 \<le> sint i \<and> sint i < ids"
proof -
  have "uint (word_of_int (ids - 1) :: 32 word) = ids - 1"
    unfolding uint_word_of_int_eq by (rule take_bit_int_eq_self) (use assms in \<open>simp_all add: in_int_iff\<close>)
  with assms(1) have "uint i \<le> ids - 1" by (simp only: word_le_def)
  moreover from this have "sint i = uint i"
    using assms(3) uint_ge_0 [of i]
    by (auto simp: sint_uint in_int_iff intro!: signed_take_bit_int_eq_self order_trans [OF _ uint_ge_0])
  ultimately show ?thesis by simp
qed

text \<open>
  A file with no identifiers whose one request has the largest \<open>unsigned\<close> index: that index is the
  number of identifiers less one, as the assertion compares them.
\<close>

definition hole_file :: string where
  "hole_file = ''0 0 1 1'' @ NL # ''a 4294967295 8''"

lemma read_hole_file:
  assumes "\<And>k n. mal k n"
  shows "read_trace u mal (Some hole_file) =
    Inr \<lparr>sugg_heapsize = 0, num_ids = 0, num_ops = 1, weight = 1,
      ops = [(u_ops u 0)\<lparr>op_type := ALLOC, op_index := - 1, op_size := 8\<rparr>], blocks = [], block_sizes = []\<rparr>"
  using assms
  by (simp add: read_trace_def hole_file_def NL_def scan_d_def scan_num_def scan_s_def skip_ws_def
      isspace_def isdigit_def num_val_def conv_d_def conv_u_def scan_u_def scan_uu_def read_op_def
      read_ops.simps in_int_iff Let_def MAXLINE_def)

text \<open>What the reader guarantees of the indices, whatever the file holds.\<close>

lemma read_trace_in_bounds:
  assumes "read_trace u mal (Some inp) = Inr t"
    and "in_int (num_ids (u_hdr u))" and "in_int (num_ops (u_hdr u))"
  shows "length (ops t) = nat (num_ops t) \<and> length (blocks t) = nat (num_ids t) \<and>
    length (block_sizes t) = nat (num_ids t) \<and>
    (\<forall>p\<in>set (ops t). op_type p \<noteq> FREE \<longrightarrow>
      (word_of_int (op_index p) :: 32 word) \<le> word_of_int (num_ids t - 1) \<and>
      (0 < num_ids t \<longrightarrow> 0 \<le> op_index p \<and> op_index p < num_ids t))"
proof -
  obtain hs r1 ids r2 nops r3 wt r4 where
    sc: "scan_d (sugg_heapsize (u_hdr u)) inp = (hs, r1)" "scan_d (num_ids (u_hdr u)) r1 = (ids, r2)"
      "scan_d (num_ops (u_hdr u)) r2 = (nops, r3)" "scan_d (weight (u_hdr u)) r3 = (wt, r4)"
    by (meson prod.exhaust)
  from assms(1) sc obtain k where
    rd: "read_ops (map (u_ops u) [0..<nat nops]) 0 0 (u_size u) 0 r4 =
      Inr (ops t, k, word_of_int (ids - 1))"
    and cnt: "word_of_int nops = (word_of_nat k :: 32 word)"
    and t: "num_ids t = ids" "num_ops t = nops" "length (blocks t) = nat ids"
      "length (block_sizes t) = nat ids"
    by (auto simp: read_trace_def unix_error_def split: if_splits)
  have int: "in_int ids" "in_int nops"
    using scan_d_in_int [OF assms(2), of r1] scan_d_in_int [OF assms(3), of r2] sc by simp_all
  have below: "length (ops t) = nat nops" "ops_below (ops t) k (word_of_int (ids - 1))"
    using read_ops_below [OF rd] by (auto simp: ops_below_def)
  have idx: "(word_of_int (op_index p) :: 32 word) \<le> word_of_int (ids - 1) \<and>
      (0 < ids \<longrightarrow> 0 \<le> op_index p \<and> op_index p < ids)" if p: "p \<in> set (ops t)" "op_type p \<noteq> FREE" for p
    using ops_below_all [OF below(2,1) cnt int(2) p] below_last [OF _ _ int(1)] by auto
  show ?thesis using below(1) idx t by simp
qed

text \<open>
  C16: whatever the file holds, in a trace that \<open>read_trace\<close> returns the array has the announced number
  of requests, the two arrays of the driver have one element per identifier, and every allocated or
  reallocated index is at most the number of identifiers less one, compared as \<open>unsigned\<close> numbers.
  With a positive number of identifiers every such index is therefore in the bounds of the arrays;
  with none it need not be: the file \<open>hole_file\<close> is read without a complaint, and its request has the
  index - 1 in arrays of no elements. (The index of a \<open>FREE\<close> is not checked at all.)
\<close>

theorem read_trace_indices:
  assumes "read_trace u mal (Some inp) = Inr t"
    and "in_int (num_ids (u_hdr u))" and "in_int (num_ops (u_hdr u))"
  shows "length (ops t) = nat (num_ops t) \<and> length (blocks t) = nat (num_ids t) \<and>
    length (block_sizes t) = nat (num_ids t) \<and>
    (\<forall>p\<in>set (ops t). op_type p \<noteq> FREE \<longrightarrow>
      (word_of_int (op_index p) :: 32 word) \<le> word_of_int (num_ids t - 1) \<and>
      (0 < num_ids t \<longrightarrow> 0 \<le> op_index p \<and> op_index p < num_ids t)) \<and>
    (\<exists>t0. read_trace u (\<lambda>k n. True) (Some hole_file) = Inr t0 \<and> num_ids t0 = 0 \<and> blocks t0 = [] \<and>
      map op_type (ops t0) = [ALLOC] \<and> map op_index (ops t0) = [- 1])"
  using read_trace_in_bounds [OF assms] read_hole_file [of "\<lambda>k n. True" u] by simp

theorem read_trace_indices_witness:
  "\<exists>t. read_trace demo_uninit (\<lambda>k n. True) (Some (print_trace demo_file)) = Inr t \<and>
    (\<forall>p\<in>set (ops t). op_type p \<noteq> FREE \<longrightarrow> 0 \<le> op_index p \<and> op_index p < 2)"
proof -
  have "trace_ok demo_file" by (simp add: trace_ok_def demo_file_def op_ok_def)
  then obtain t where t: "read_trace demo_uninit (\<lambda>k n. True) (Some (print_trace demo_file)) = Inr t"
    "num_ids t = 2"
    by (simp add: read_trace_print demo_file_def)
  with read_trace_indices [OF t(1)] show ?thesis by (simp add: demo_uninit_def demo_file_def in_int_iff)
qed

section \<open>Traces hold C values\<close>

text \<open>
  The model keeps the \<open>int\<close> members of a trace as integers. In a typed trace they are in the range of
  \<open>int\<close>, and the arrays have the lengths their counts say.
\<close>

definition traceop_typed :: "traceop_t \<Rightarrow> bool" where
  "traceop_typed p \<longleftrightarrow> in_int (op_index p) \<and> in_int (op_size p)"

definition trace_typed :: "trace_t \<Rightarrow> bool" where
  "trace_typed t \<longleftrightarrow>
     in_int (sugg_heapsize t) \<and> in_int (num_ids t) \<and> in_int (num_ops t) \<and> in_int (weight t) \<and>
     num_ops t = int (length (ops t)) \<and> length (blocks t) = nat (num_ids t) \<and>
     length (block_sizes t) = nat (num_ids t) \<and> list_all traceop_typed (ops t)"

definition uninit_typed :: "uninit \<Rightarrow> bool" where
  "uninit_typed u \<longleftrightarrow>
     in_int (sugg_heapsize (u_hdr u)) \<and> in_int (num_ids (u_hdr u)) \<and> in_int (num_ops (u_hdr u)) \<and>
     in_int (weight (u_hdr u)) \<and> (\<forall>k. traceop_typed (u_ops u k))"

lemma in_int_sint: "in_int (sint (w :: 32 word))"
  using sint_greater_eq [of w] sint_less [of w] by (simp add: in_int_iff)

lemma read_op_typed:
  "read_op ty old index sz mx inp = Inr (op, i, n, mx', r) \<Longrightarrow> traceop_typed old \<Longrightarrow> traceop_typed op"
  by (auto simp: read_op_def traceop_typed_def in_int_sint split: if_splits prod.splits)

lemma read_ops_typed:
  assumes "read_ops arr k i n mx inp = Inr (arr', k', mx')" and "list_all traceop_typed arr"
  shows "list_all traceop_typed arr'"
proof -
  have "length arr' = length arr \<and> list_all traceop_typed arr'"
    by (rule read_ops_invariant [where P = "\<lambda>arr k mx. list_all traceop_typed arr", OF _ assms])
      (use read_op_typed in \<open>fastforce simp: list_all_length nth_list_update\<close>)
  then show ?thesis by blast
qed

lemma count_is_length:
  assumes "k \<le> nat nops" and "word_of_int nops = (word_of_nat k :: 32 word)" and "in_int nops"
  shows "0 \<le> nops"
proof (rule ccontr)
  assume neg: "\<not> 0 \<le> nops"
  then have "uint (word_of_int nops :: 32 word) = 0" using assms(1,2) by simp
  then have "(nops + 2 ^ 32) mod 2 ^ 32 = 0" by (simp add: uint_word_of_int)
  moreover have "(nops + 2 ^ 32) mod 2 ^ 32 = nops + 2 ^ 32"
    by (rule mod_pos_pos_trivial) (use neg assms(3) in \<open>simp_all add: in_int_iff\<close>)
  ultimately show False using assms(3) by (simp add: in_int_iff)
qed

lemma read_trace_typed:
  assumes u: "uninit_typed u" and rd: "read_trace u mal fo = Inr t"
  shows "trace_typed t"
proof -
  obtain inp where inp: "fo = Some inp" using rd by (cases fo) (auto simp: read_trace_def unix_error_def split: if_splits)
  obtain hs r1 ids r2 nops r3 wt r4 where
    sc: "scan_d (sugg_heapsize (u_hdr u)) inp = (hs, r1)" "scan_d (num_ids (u_hdr u)) r1 = (ids, r2)"
      "scan_d (num_ops (u_hdr u)) r2 = (nops, r3)" "scan_d (weight (u_hdr u)) r3 = (wt, r4)"
    by (meson prod.exhaust)
  have int: "in_int hs" "in_int ids" "in_int nops" "in_int wt"
    using scan_d_in_int [of "sugg_heapsize (u_hdr u)" inp] scan_d_in_int [of "num_ids (u_hdr u)" r1]
      scan_d_in_int [of "num_ops (u_hdr u)" r2] scan_d_in_int [of "weight (u_hdr u)" r3] u sc
    by (auto simp: uninit_typed_def)
  from rd sc obtain k mx where
    ro: "read_ops (map (u_ops u) [0..<nat nops]) 0 0 (u_size u) 0 r4 = Inr (ops t, k, mx)"
    and cnt: "word_of_int nops = (word_of_nat k :: 32 word)"
    and t: "sugg_heapsize t = hs" "num_ids t = ids" "num_ops t = nops" "weight t = wt"
      "length (blocks t) = nat ids" "length (block_sizes t) = nat ids"
    by (auto simp: inp read_trace_def unix_error_def split: if_splits)
  have len: "length (ops t) = nat nops" "k \<le> nat nops" using read_ops_below [OF ro] by (auto simp: ops_below_def)
  have "list_all traceop_typed (ops t)"
    by (rule read_ops_typed [OF ro]) (use u in \<open>simp add: list_all_length uninit_typed_def\<close>)
  with count_is_length [OF len(2) cnt int(3)] int t len(1) show ?thesis by (simp add: trace_typed_def)
qed

end
