(* ===== verification/Mdriver_Eval.thy ===== *)
theory Mdriver_Eval
  imports Mdriver_Trace MM_Package
begin

text \<open>
  The evaluation of a malloc package on a trace (\<open>eval_mm_valid\<close>, \<open>eval_mm_util\<close> and
  \<open>eval_mm_speed\<close> of \<open>malloclab/mdriver.c\<close>), for any package \<open>pkg\<close> the driver is linked with.
  The locale of the package contract is extended with what it gives the driver: a package that
  meets the contract passes on every well-formed trace that fits the heap.
\<close>

section \<open>Correctness evaluation\<close>

record vstate =
  v_drv :: mdriver
  v_mem :: memlib
  v_ranges :: "range_t list"
  v_trace :: trace_t

text \<open>One round of the loop goes on or makes the function return 0.\<close>

datatype vstep = Reject vstate | Next vstate

definition block_memset :: "memlib \<Rightarrow> addr \<Rightarrow> int \<Rightarrow> size_t \<Rightarrow> memlib res" where
  "block_memset s p c n =
     res_bind (chk_block s p (uint n))
       (\<lambda>_. Inr (s\<lparr>mem_bytes := memset (mem_bytes s) p (word_of_int c) (unat n)\<rparr>))"

text \<open>\<open>trace->blocks[index] = p; trace->block_sizes[index] = size;\<close>\<close>

definition remember :: "trace_t \<Rightarrow> int \<Rightarrow> addr \<Rightarrow> int \<Rightarrow> trace_t res" where
  "remember tr index p sz =
     res_bind (put_arr (blocks tr) index p) (\<lambda>bs.
     res_bind (put_arr (block_sizes tr) index (word_of_int sz)) (\<lambda>szs.
     Inr (tr\<lparr>blocks := bs, block_sizes := szs\<rparr>)))"

text \<open>The comparison of \<open>newp[j]\<close>, a signed \<open>char\<close>, with \<open>index & 0xFF\<close>, from \<open>j\<close> on.\<close>

fun check_copied :: "memlib \<Rightarrow> addr \<Rightarrow> int \<Rightarrow> nat \<Rightarrow> int \<Rightarrow> bool res" where
  "check_copied s newp c 0 j = Inr True"
| "check_copied s newp c (Suc k) j =
     res_bind (chk_block s (newp + j) 1) (\<lambda>_.
       if sint (mem_bytes s (newp + j)) \<noteq> c then Inr False
       else check_copied s newp c k (j + 1))"

definition valid_alloc :: "mm_pkg \<Rightarrow> int \<Rightarrow> int \<Rightarrow> vstate \<Rightarrow> int \<Rightarrow> int \<Rightarrow> vstep res" where
  "valid_alloc pkg tracenum i st index sz =
     res_bind (pkg_malloc pkg (v_mem st) (word_of_int sz)) (\<lambda>(p, s1).
     if p = NULL
     then Inr (Reject (st\<lparr>v_mem := s1, v_drv := malloc_error (v_drv st) tracenum i MmMallocFailed\<rparr>))
     else
     res_bind (add_range (v_drv st) s1 (v_ranges st) p sz tracenum i) (\<lambda>(ok, d1, rs1).
     if ok = 0 then Inr (Reject (st\<lparr>v_mem := s1, v_drv := d1, v_ranges := rs1\<rparr>))
     else
     res_bind (block_memset s1 p (index AND 255) (word_of_int sz)) (\<lambda>s2.
     res_bind (remember (v_trace st) index p sz) (\<lambda>tr.
     Inr (Next (st\<lparr>v_mem := s2, v_drv := d1, v_ranges := rs1, v_trace := tr\<rparr>))))))"

definition valid_realloc :: "mm_pkg \<Rightarrow> int \<Rightarrow> int \<Rightarrow> vstate \<Rightarrow> int \<Rightarrow> int \<Rightarrow> vstep res" where
  "valid_realloc pkg tracenum i st index sz =
     res_bind (get_arr (blocks (v_trace st)) index) (\<lambda>oldp.
     res_bind (pkg_realloc pkg (v_mem st) oldp (word_of_int sz)) (\<lambda>(newp, s1).
     if newp = NULL
     then Inr (Reject (st\<lparr>v_mem := s1, v_drv := malloc_error (v_drv st) tracenum i MmReallocFailed\<rparr>))
     else
     (let (d0, rs0) = remove_range (v_drv st) (v_ranges st) oldp
      in
      res_bind (add_range d0 s1 rs0 newp sz tracenum i) (\<lambda>(ok, d1, rs1).
      if ok = 0 then Inr (Reject (st\<lparr>v_mem := s1, v_drv := d1, v_ranges := rs1\<rparr>))
      else
      res_bind (get_arr (block_sizes (v_trace st)) index) (\<lambda>bsz.
      (let oldsize0 = int_of_size bsz; oldsize = (if sz < oldsize0 then sz else oldsize0)
       in
       res_bind (check_copied s1 newp (index AND 255) (nat oldsize) 0) (\<lambda>same.
       if \<not> same
       then Inr (Reject (st\<lparr>v_mem := s1, v_drv := malloc_error d1 tracenum i DataNotPreserved,
                            v_ranges := rs1\<rparr>))
       else
       res_bind (block_memset s1 newp (index AND 255) (word_of_int sz)) (\<lambda>s2.
       res_bind (remember (v_trace st) index newp sz) (\<lambda>tr.
       Inr (Next (st\<lparr>v_mem := s2, v_drv := d1, v_ranges := rs1, v_trace := tr\<rparr>)))))))))))"

definition valid_free :: "mm_pkg \<Rightarrow> vstate \<Rightarrow> int \<Rightarrow> vstep res" where
  "valid_free pkg st index =
     res_bind (get_arr (blocks (v_trace st)) index) (\<lambda>p.
     (let (d1, rs1) = remove_range (v_drv st) (v_ranges st) p
      in
      res_bind (pkg_free pkg (v_mem st) p) (\<lambda>s1.
      Inr (Next (st\<lparr>v_mem := s1, v_drv := d1, v_ranges := rs1\<rparr>)))))"

definition valid_op :: "mm_pkg \<Rightarrow> int \<Rightarrow> int \<Rightarrow> vstate \<Rightarrow> traceop_t \<Rightarrow> vstep res" where
  "valid_op pkg tracenum i st p =
     (case op_type p of
        ALLOC \<Rightarrow> valid_alloc pkg tracenum i st (op_index p) (op_size p)
      | REALLOC \<Rightarrow> valid_realloc pkg tracenum i st (op_index p) (op_size p)
      | FREE \<Rightarrow> valid_free pkg st (op_index p))"

text \<open>The loop from request \<open>i\<close> on, with \<open>k\<close> requests to go.\<close>

fun valid_loop :: "mm_pkg \<Rightarrow> int \<Rightarrow> nat \<Rightarrow> int \<Rightarrow> vstate \<Rightarrow> (int \<times> vstate) res" where
  "valid_loop pkg tracenum 0 i st = Inr (1, st)"
| "valid_loop pkg tracenum (Suc k) i st =
     res_bind (get_arr (ops (v_trace st)) i) (\<lambda>p.
     res_bind (valid_op pkg tracenum i st p) (\<lambda>r.
       case r of Reject st' \<Rightarrow> Inr (0, st')
               | Next st' \<Rightarrow> valid_loop pkg tracenum k (i + 1) st'))"

definition eval_mm_valid :: "mm_pkg \<Rightarrow> vstate \<Rightarrow> int \<Rightarrow> (int \<times> vstate) res" where
  "eval_mm_valid pkg st tracenum =
     (let s0 = mem_reset_brk (v_mem st); (d0, rs0) = clear_ranges (v_drv st) (v_ranges st)
      in
      res_bind (pkg_init pkg s0) (\<lambda>(r, s1).
      if r < 0
      then Inr (0, st\<lparr>v_mem := s1, v_ranges := rs0,
                      v_drv := malloc_error d0 tracenum 0 MmInitFailed\<rparr>)
      else valid_loop pkg tracenum (nat (num_ops (v_trace st))) 0
             (st\<lparr>v_mem := s1, v_drv := d0, v_ranges := rs0\<rparr>)))"

section \<open>Space utilization\<close>

text \<open>
  The loop of \<open>eval_mm_util\<close> keeps the heap, the trace's arrays, the current total and its
  maximum, both of type \<open>int\<close>.
\<close>

record ustate =
  us_mem :: memlib
  us_trace :: trace_t
  total_size :: int
  max_total_size :: int

definition track_total :: "ustate \<Rightarrow> int \<Rightarrow> ustate res" where
  "track_total st delta =
     res_bind (chk_int (total_size st + delta)) (\<lambda>t.
     Inr (st\<lparr>total_size := t,
             max_total_size := (if t > max_total_size st then t else max_total_size st)\<rparr>))"

definition util_op :: "mm_pkg \<Rightarrow> ustate \<Rightarrow> traceop_t \<Rightarrow> ustate res" where
  "util_op pkg st p =
     (let index = op_index p in
      case op_type p of
        ALLOC \<Rightarrow>
          (let sz = op_size p in
           res_bind (pkg_malloc pkg (us_mem st) (word_of_int sz)) (\<lambda>(q, s1).
           if q = NULL then app_error
           else res_bind (remember (us_trace st) index q sz) (\<lambda>tr.
             track_total (st\<lparr>us_mem := s1, us_trace := tr\<rparr>) sz)))
      | REALLOC \<Rightarrow>
          (let newsize = op_size p in
           res_bind (get_arr (block_sizes (us_trace st)) index) (\<lambda>bsz.
           (let oldsize = int_of_size bsz in
            res_bind (get_arr (blocks (us_trace st)) index) (\<lambda>oldp.
            res_bind (pkg_realloc pkg (us_mem st) oldp (word_of_int newsize)) (\<lambda>(newp, s1).
            if newp = NULL then app_error
            else res_bind (remember (us_trace st) index newp newsize) (\<lambda>tr.
              res_bind (chk_int (newsize - oldsize)) (\<lambda>delta.
              track_total (st\<lparr>us_mem := s1, us_trace := tr\<rparr>) delta)))))))
      | FREE \<Rightarrow>
          res_bind (get_arr (block_sizes (us_trace st)) index) (\<lambda>bsz.
          res_bind (get_arr (blocks (us_trace st)) index) (\<lambda>q.
          res_bind (pkg_free pkg (us_mem st) q) (\<lambda>s1.
          res_bind (chk_int (total_size st - int_of_size bsz)) (\<lambda>t.
          Inr (st\<lparr>us_mem := s1, total_size := t\<rparr>))))))"

fun util_loop :: "mm_pkg \<Rightarrow> nat \<Rightarrow> int \<Rightarrow> ustate \<Rightarrow> ustate res" where
  "util_loop pkg 0 i st = Inr st"
| "util_loop pkg (Suc k) i st =
     res_bind (get_arr (ops (us_trace st)) i) (\<lambda>p.
     res_bind (util_op pkg st p) (\<lambda>st'. util_loop pkg k (i + 1) st'))"

text \<open>The utilization is the quotient of the two numbers returned, as \<open>double\<close>s.\<close>

definition eval_mm_util ::
  "mm_pkg \<Rightarrow> memlib \<Rightarrow> trace_t \<Rightarrow> (int \<times> size_t \<times> memlib \<times> trace_t) res" where
  "eval_mm_util pkg s tr =
     res_bind (pkg_init pkg (mem_reset_brk s)) (\<lambda>(r, s1).
     if r < 0 then app_error
     else
     res_bind (util_loop pkg (nat (num_ops tr)) 0
       \<lparr>us_mem = s1, us_trace = tr, total_size = 0, max_total_size = 0\<rparr>) (\<lambda>st.
     Inr (max_total_size st, mem_heapsize (us_mem st), us_mem st, us_trace st)))"

section \<open>The timed run\<close>

definition speed_op :: "mm_pkg \<Rightarrow> memlib \<times> trace_t \<Rightarrow> traceop_t \<Rightarrow> (memlib \<times> trace_t) res" where
  "speed_op pkg st p =
     (let (s, tr) = st; index = op_index p in
      case op_type p of
        ALLOC \<Rightarrow>
          res_bind (pkg_malloc pkg s (word_of_int (op_size p))) (\<lambda>(q, s1).
          if q = NULL then app_error
          else res_bind (put_arr (blocks tr) index q) (\<lambda>bs. Inr (s1, tr\<lparr>blocks := bs\<rparr>)))
      | REALLOC \<Rightarrow>
          res_bind (get_arr (blocks tr) index) (\<lambda>oldp.
          res_bind (pkg_realloc pkg s oldp (word_of_int (op_size p))) (\<lambda>(newp, s1).
          if newp = NULL then app_error
          else res_bind (put_arr (blocks tr) index newp) (\<lambda>bs. Inr (s1, tr\<lparr>blocks := bs\<rparr>))))
      | FREE \<Rightarrow>
          res_bind (get_arr (blocks tr) index) (\<lambda>q.
          res_bind (pkg_free pkg s q) (\<lambda>s1. Inr (s1, tr))))"

fun speed_loop :: "mm_pkg \<Rightarrow> nat \<Rightarrow> int \<Rightarrow> memlib \<times> trace_t \<Rightarrow> (memlib \<times> trace_t) res" where
  "speed_loop pkg 0 i st = Inr st"
| "speed_loop pkg (Suc k) i st =
     res_bind (get_arr (ops (snd st)) i) (\<lambda>p.
     res_bind (speed_op pkg st p) (\<lambda>st'. speed_loop pkg k (i + 1) st'))"

definition eval_mm_speed :: "mm_pkg \<Rightarrow> memlib \<Rightarrow> trace_t \<Rightarrow> (memlib \<times> trace_t) res" where
  "eval_mm_speed pkg s tr =
     res_bind (pkg_init pkg (mem_reset_brk s)) (\<lambda>(r, s1).
     if r < 0 then app_error else speed_loop pkg (nat (num_ops tr)) 0 (s1, tr))"

section \<open>Well-formed traces\<close>

text \<open>
  The identifiers in use at a point of a trace, with the sizes last requested for them. A request
  is well formed when it allocates an unused identifier, or reallocates or frees a used one, with
  a positive size.
\<close>

type_synonym idx_map = "int \<rightharpoonup> int"

definition wf_op :: "int \<Rightarrow> idx_map \<Rightarrow> traceop_t \<Rightarrow> bool" where
  "wf_op ids A p \<longleftrightarrow>
     (case op_type p of
        ALLOC \<Rightarrow> 0 \<le> op_index p \<and> op_index p < ids \<and> A (op_index p) = None \<and> 0 < op_size p
      | REALLOC \<Rightarrow> A (op_index p) \<noteq> None \<and> 0 < op_size p
      | FREE \<Rightarrow> A (op_index p) \<noteq> None)"

definition step_live :: "idx_map \<Rightarrow> traceop_t \<Rightarrow> idx_map" where
  "step_live A p =
     (if op_type p = FREE then A(op_index p := None) else A(op_index p \<mapsto> op_size p))"

fun wf_ops :: "int \<Rightarrow> idx_map \<Rightarrow> traceop_t list \<Rightarrow> bool" where
  "wf_ops ids A [] \<longleftrightarrow> True"
| "wf_ops ids A (p # ps) \<longleftrightarrow> wf_op ids A p \<and> wf_ops ids (step_live A p) ps"

text \<open>
  The driver's check of reallocated data compares a signed \<open>char\<close> with \<open>index & 0xFF\<close>: it can only
  succeed where the low byte of the index is below 128.
\<close>

definition low_index :: "traceop_t \<Rightarrow> bool" where
  "low_index p \<longleftrightarrow> (op_type p = REALLOC \<longrightarrow> op_index p mod 256 < 128)"

definition op_cost :: "(int \<Rightarrow> int) \<Rightarrow> traceop_t \<Rightarrow> int" where
  "op_cost cost p = (if op_type p = FREE then 0 else cost (op_size p))"

fun ops_cost :: "(int \<Rightarrow> int) \<Rightarrow> traceop_t list \<Rightarrow> int" where
  "ops_cost cost [] = 0"
| "ops_cost cost (p # ps) = op_cost cost p + ops_cost cost ps"

definition wf_trace :: "trace_t \<Rightarrow> bool" where
  "wf_trace tr \<longleftrightarrow>
     num_ops tr = int (length (ops tr)) \<and> 0 \<le> num_ids tr \<and>
     length (blocks tr) = nat (num_ids tr) \<and> length (block_sizes tr) = nat (num_ids tr) \<and>
     wf_ops (num_ids tr) Map.empty (ops tr)"

text \<open>The stored form of a request is as well formed as the request: only a \<open>FREE\<close> has another size.\<close>

lemma stored_op_sel [simp]:
  "op_type (stored_op old p) = op_type p" "op_index (stored_op old p) = op_index p"
  "op_type p \<noteq> FREE \<Longrightarrow> op_size (stored_op old p) = op_size p"
  by (simp_all add: stored_op_def)

lemma wf_op_stored [simp]:
  "wf_op ids A (stored_op old p) = wf_op ids A p" "step_live A (stored_op old p) = step_live A p"
  "low_index (stored_op old p) = low_index p" "op_cost c (stored_op old p) = op_cost c p"
  by (cases "op_type p"; simp add: wf_op_def step_live_def low_index_def op_cost_def)+

lemma wf_ops_stored:
  "length olds = length ps \<Longrightarrow> wf_ops ids A (map2 stored_op olds ps) = wf_ops ids A ps"
  by (induction olds ps arbitrary: A rule: list_induct2) simp_all

lemma low_index_stored:
  "length olds = length ps \<Longrightarrow> list_all low_index (map2 stored_op olds ps) = list_all low_index ps"
  by (induction olds ps rule: list_induct2) simp_all

lemma ops_cost_stored:
  "length olds = length ps \<Longrightarrow> ops_cost c (map2 stored_op olds ps) = ops_cost c ps"
  by (induction olds ps rule: list_induct2) simp_all

section \<open>What the driver's arrays say about the heap\<close>

text \<open>
  The arrays of the trace name the block of each identifier in use (\<open>tracks\<close>) and its size
  (\<open>sized\<close>), and the block holds the identifier's low byte throughout (\<open>filled\<close>).
\<close>

definition tracks :: "idx_map \<Rightarrow> live_map \<Rightarrow> trace_t \<Rightarrow> bool" where
  "tracks A L tr \<longleftrightarrow>
     length (blocks tr) = nat (num_ids tr) \<and>
     (\<forall>i n. A i = Some n \<longrightarrow> 0 \<le> i \<and> i < num_ids tr \<and> L (blocks tr ! nat i) = Some n) \<and>
     (\<forall>i j. A i \<noteq> None \<longrightarrow> A j \<noteq> None \<longrightarrow> i \<noteq> j \<longrightarrow> blocks tr ! nat i \<noteq> blocks tr ! nat j)"

definition sized :: "idx_map \<Rightarrow> trace_t \<Rightarrow> bool" where
  "sized A tr \<longleftrightarrow>
     length (block_sizes tr) = nat (num_ids tr) \<and>
     (\<forall>i n. A i = Some n \<longrightarrow> block_sizes tr ! nat i = word_of_int n)"

definition index_byte :: "int \<Rightarrow> byte" where
  "index_byte i = word_of_int (i AND 255)"

definition filled :: "idx_map \<Rightarrow> memlib \<Rightarrow> trace_t \<Rightarrow> bool" where
  "filled A s tr \<longleftrightarrow>
     (\<forall>i n x. A i = Some n \<longrightarrow> blocks tr ! nat i \<le> x \<longrightarrow> x < blocks tr ! nat i + n \<longrightarrow>
        mem_bytes s x = index_byte i)"

lemma tracksD:
  assumes "tracks A L tr" and "A i = Some n"
  shows "0 \<le> i" "i < int (length (blocks tr))" "i < num_ids tr" "L (blocks tr ! nat i) = Some n"
    "get_arr (blocks tr) i = Inr (blocks tr ! nat i)"
proof -
  show "0 \<le> i" "i < num_ids tr" "L (blocks tr ! nat i) = Some n"
    using assms unfolding tracks_def by blast+
  then show "i < int (length (blocks tr))"
    using assms(1) unfolding tracks_def by simp
  with \<open>0 \<le> i\<close> show "get_arr (blocks tr) i = Inr (blocks tr ! nat i)" by simp
qed

lemma tracks_inj:
  "tracks A L tr \<Longrightarrow> A i = Some n \<Longrightarrow> A j = Some k \<Longrightarrow> i \<noteq> j \<Longrightarrow> blocks tr ! nat i \<noteq> blocks tr ! nat j"
  unfolding tracks_def by blast

lemma tracks_empty: "length (blocks tr) = nat (num_ids tr) \<Longrightarrow> tracks Map.empty L tr"
  by (simp add: tracks_def)

text \<open>Dropping identifiers, while the map of live blocks changes elsewhere only.\<close>

lemma tracks_sub:
  assumes "tracks A L tr" and "\<And>i n. A' i = Some n \<Longrightarrow> A i = Some n \<and> L' (blocks tr ! nat i) = Some n"
  shows "tracks A' L' tr"
  using assms unfolding tracks_def by (metis not_None_eq)

lemma filled_sub:
  assumes "filled A s tr" and "\<And>i n. A' i = Some n \<Longrightarrow> A i = Some n \<and> M (blocks tr ! nat i) = Some n"
    and "blocks_kept M s t"
  shows "filled A' t tr"
  using assms unfolding filled_def blocks_kept_def by metis

lemma tracks_drop:
  assumes "tracks A L tr" and "A i = Some n"
  shows "tracks (A(i := None)) (L(blocks tr ! nat i := None)) tr"
  using assms(1)
  by (rule tracks_sub) (use tracksD (4) [OF assms(1)] tracks_inj [OF assms(1)] assms(2) in \<open>auto split: if_splits\<close>)

lemma sized_drop: "sized A tr \<Longrightarrow> sized (A(i := None)) tr"
  by (auto simp: sized_def split: if_splits)

lemma sized_get:
  assumes "sized A tr" and "A i = Some n" and "0 \<le> i" "i < num_ids tr"
  shows "get_arr (block_sizes tr) i = Inr (word_of_int n)"
  using assms by (auto simp: sized_def)

text \<open>Giving up an identifier, and what an address that is not live cannot be.\<close>

lemma drop_index:
  assumes tr: "tracks A L tr" and fl: "filled A s tr" and sz: "sized A tr" and i: "A i = Some n"
    and kept: "blocks_kept (L(blocks tr ! nat i := None)) s t"
  shows "tracks (A(i := None)) (L(blocks tr ! nat i := None)) tr"
    and "filled (A(i := None)) t tr" and "sized (A(i := None)) tr"
proof -
  have keep: "A j = Some m \<and> (L(blocks tr ! nat i := None)) (blocks tr ! nat j) = Some m"
    if "(A(i := None)) j = Some m" for j m
    using that tracksD (4) [OF tr, of j m] tracks_inj [OF tr, of j m i n] i by (auto split: if_splits)
  show "tracks (A(i := None)) (L(blocks tr ! nat i := None)) tr" using tr i by (rule tracks_drop)
  show "filled (A(i := None)) t tr" using fl keep kept by (rule filled_sub)
  show "sized (A(i := None)) tr" using sz by (rule sized_drop)
qed

lemma tracks_not_live: "tracks A L tr \<Longrightarrow> L q = None \<Longrightarrow> A j = Some m \<Longrightarrow> blocks tr ! nat j \<noteq> q"
  using tracksD (4) [of A L tr j m] by auto

lemma tracks_extend:
  assumes t: "tracks A L tr" and q: "L q = None"
  shows "tracks A (L(q \<mapsto> n)) tr"
  using t by (rule tracks_sub) (use tracksD (4) [OF t] q in fastforce)

text \<open>Storing a new block in the arrays.\<close>

lemma remember_ok:
  assumes "length (blocks tr) = nat (num_ids tr)" "length (block_sizes tr) = nat (num_ids tr)"
    and "0 \<le> i" "i < num_ids tr"
  shows "remember tr i p n =
    Inr (tr\<lparr>blocks := (blocks tr)[nat i := p], block_sizes := (block_sizes tr)[nat i := word_of_int n]\<rparr>)"
  using assms by (simp add: remember_def)

lemma tracks_store:
  assumes tr: "tracks (A(i := None)) L tr" and i: "0 \<le> i" "i < num_ids tr" and p: "L p = Some n"
    and fresh: "\<And>j k. A j = Some k \<Longrightarrow> j \<noteq> i \<Longrightarrow> blocks tr ! nat j \<noteq> p"
  shows "tracks (A(i \<mapsto> n)) L (tr\<lparr>blocks := (blocks tr)[nat i := p]\<rparr>)"
proof -
  have len: "length (blocks tr) = nat (num_ids tr)" using tr by (simp add: tracks_def)
  have old: "(blocks tr)[nat i := p] ! nat j = blocks tr ! nat j" if "A j = Some k" "j \<noteq> i" for j k
    using tracksD (1) [OF tr, of j k] that i by (simp add: eq_nat_nat_iff)
  have new: "(blocks tr)[nat i := p] ! nat i = p" using len i by simp
  note D = tracksD [OF tr] and inj = tracks_inj [OF tr]
  show ?thesis
    unfolding tracks_def
  proof (intro conjI allI impI)
    fix j k assume j: "(A(i \<mapsto> n)) j = Some k"
    show "0 \<le> j" "j < num_ids (tr\<lparr>blocks := (blocks tr)[nat i := p]\<rparr>)"
      "L (blocks (tr\<lparr>blocks := (blocks tr)[nat i := p]\<rparr>) ! nat j) = Some k"
      using j i p new old [of j k] D [of j k] by (auto split: if_splits)
  next
    fix j j' assume "(A(i \<mapsto> n)) j \<noteq> None" "(A(i \<mapsto> n)) j' \<noteq> None" "j \<noteq> j'"
    then show "blocks (tr\<lparr>blocks := (blocks tr)[nat i := p]\<rparr>) ! nat j \<noteq>
        blocks (tr\<lparr>blocks := (blocks tr)[nat i := p]\<rparr>) ! nat j'"
      using new old fresh inj [of j _ j'] by (auto split: if_splits)
  qed (simp add: len)
qed

section \<open>A package that meets the contract passes\<close>

definition vinv :: "(memlib \<Rightarrow> live_map \<Rightarrow> bool) \<Rightarrow> idx_map \<Rightarrow> live_map \<Rightarrow> vstate \<Rightarrow> bool" where
  "vinv live A L st \<longleftrightarrow>
     live (v_mem st) L \<and> ranges_for (v_ranges st) L \<and> tracks A L (v_trace st) \<and>
     sized A (v_trace st) \<and> filled A (v_mem st) (v_trace st)"

text \<open>
  A round that reports nothing, takes at most \<open>c\<close> bytes off the heap and one node off the C
  library's, and leaves the requests alone.
\<close>

definition quiet_round :: "int \<Rightarrow> vstate \<Rightarrow> vstate \<Rightarrow> bool" where
  "quiet_round c st st' \<longleftrightarrow>
     errors (v_drv st') = errors (v_drv st) \<and> reports (v_drv st') = reports (v_drv st) \<and>
     libc_avail (v_drv st) \<le> libc_avail (v_drv st') + 1 \<and>
     same_block (v_mem st) (v_mem st') \<and> mem_brk (v_mem st') \<le> mem_brk (v_mem st) + c \<and>
     ops (v_trace st') = ops (v_trace st) \<and> num_ids (v_trace st') = num_ids (v_trace st)"

lemma int_of_size_word: "0 \<le> n \<Longrightarrow> n < 2 ^ 31 \<Longrightarrow> int_of_size (word_of_int n) = n"
  by (subst int_of_size_small) (simp_all add: uint64_of_int)

lemma sized_store:
  assumes "sized (A(i := None)) tr" and "tracks (A(i := None)) L tr" and "0 \<le> i" "i < num_ids tr"
  shows "sized (A(i \<mapsto> n)) (tr\<lparr>block_sizes := (block_sizes tr)[nat i := word_of_int n]\<rparr>)"
proof -
  have "(block_sizes tr)[nat i := word_of_int n] ! nat j = word_of_int k" if "A j = Some k" "j \<noteq> i" for j k
    using tracksD (1) [OF assms(2), of j k] assms(1,3) that
    by (simp add: sized_def eq_nat_nat_iff)
  with assms show ?thesis by (auto simp: sized_def)
qed

lemma check_copied_same:
  assumes "\<And>j'. j \<le> j' \<Longrightarrow> j' < j + int k \<Longrightarrow> in_block s (p + j') 1 \<and> sint (mem_bytes s (p + j')) = c"
  shows "check_copied s p c k j = Inr True"
  using assms
proof (induction k arbitrary: j)
  case (Suc k)
  from Suc.prems [of j] have "in_block s (p + j) 1" "sint (mem_bytes s (p + j)) = c" by auto
  moreover have "check_copied s p c k (j + 1) = Inr True"
    by (rule Suc.IH) (rule Suc.prems, auto)
  ultimately show ?case by simp
qed simp

lemma sint_index_byte:
  assumes "i mod 256 < 128"
  shows "sint (index_byte i) = i AND 255"
proof -
  have eq: "i AND 255 = i mod 256"
    using take_bit_eq_mask [of 8 i] by (simp add: take_bit_eq_mod mask_eq_exp_minus_1)
  have "0 \<le> i mod 256" by simp
  with assms show ?thesis
    unfolding index_byte_def eq
    by (simp add: signed_of_int signed_take_bit_int_eq_self)
qed

context mm_contract
begin

lemma cost_fits:
  assumes "live s L" and "0 < n" and "mem_brk s + cost n \<le> mem_max_addr s"
  shows "n < 2 ^ 31" and "uint (word_of_int n :: 64 word) = n" and "unat (word_of_int n :: 64 word) = nat n"
proof -
  show lt: "n < 2 ^ 31"
    using assms cost_pos [of n] memlib_inv_bounds [OF live_inv [OF assms(1)]]
    by (simp add: MAX_HEAP_def)
  show u: "uint (word_of_int n :: 64 word) = n"
    using lt assms(2) by (intro uint64_of_int) auto
  show "unat (word_of_int n :: 64 word) = nat n"
    by (simp only: unat_eq_nat_uint u)
qed

lemma install:
  assumes lv: "live t L" and p: "L p = Some n" and n: "uint (word_of_int n :: 64 word) = n"
    and tr: "tracks (A(i := None)) L tr" and sz: "sized (A(i := None)) tr"
    and fl: "filled (A(i := None)) t tr" and i: "0 \<le> i" "i < num_ids tr"
    and fresh: "\<And>j k. A j = Some k \<Longrightarrow> j \<noteq> i \<Longrightarrow> blocks tr ! nat j \<noteq> p"
  shows "\<exists>t' tr'. block_memset t p (i AND 255) (word_of_int n) = Inr t' \<and> remember tr i p n = Inr tr' \<and>
    live t' L \<and> tracks (A(i \<mapsto> n)) L tr' \<and> sized (A(i \<mapsto> n)) tr' \<and> filled (A(i \<mapsto> n)) t' tr' \<and>
    mem_brk t' = mem_brk t \<and> same_block t t' \<and> ops tr' = ops tr \<and> num_ids tr' = num_ids tr"
proof -
  let ?t = "t\<lparr>mem_bytes := memset (mem_bytes t) p (index_byte i) (nat n)\<rparr>"
  let ?tr = "tr\<lparr>blocks := (blocks tr)[nat i := p], block_sizes := (block_sizes tr)[nat i := word_of_int n]\<rparr>"
  have len: "length (blocks tr) = nat (num_ids tr)" "length (block_sizes tr) = nat (num_ids tr)"
    using tr sz by (auto simp: tracks_def sized_def)
  have u: "unat (word_of_int n :: 64 word) = nat n"
    by (simp only: unat_eq_nat_uint n)
  have ms: "block_memset t p (i AND 255) (word_of_int n) = Inr ?t"
    using live_in_block [OF lv p] n u by (simp add: block_memset_def index_byte_def)
  have re: "remember tr i p n = Inr ?tr" using len i by (rule remember_ok)
  have tr': "tracks (A(i \<mapsto> n)) L ?tr"
    using tracks_store [OF tr i p fresh] by (simp add: tracks_def)
  have sz': "sized (A(i \<mapsto> n)) ?tr"
    using sized_store [OF sz tr i] by (simp add: sized_def)
  have "filled (A(i \<mapsto> n)) ?t ?tr"
    unfolding filled_def
  proof (intro allI impI)
    fix j k x assume j: "(A(i \<mapsto> n)) j = Some k" and x: "blocks ?tr ! nat j \<le> x" "x < blocks ?tr ! nat j + k"
    show "mem_bytes ?t x = index_byte j"
    proof (cases "j = i")
      case True
      with j x len i have "p \<le> x" "x < p + n" by auto
      then show ?thesis using True by (simp add: memset_inside)
    next
      case False
      with j have Aj: "A j = Some k" "(A(i := None)) j = Some k" by auto
      note D = tracksD [OF tr Aj(2)]
      have b: "blocks ?tr ! nat j = blocks tr ! nat j"
        using D(1) i False by (simp add: eq_nat_nat_iff)
      have "(L(p := None)) (blocks tr ! nat j) = Some k"
        using D(4) fresh [OF Aj(1) False] by simp
      with blocks_kept_memset [OF lv p, of "index_byte i"] x b
      have "mem_bytes ?t x = mem_bytes t x" unfolding blocks_kept_def by metis
      also have "\<dots> = index_byte j" using fl Aj(2) x b unfolding filled_def by metis
      finally show ?thesis .
    qed
  qed
  then show ?thesis
    using ms re live_memset [OF lv p] tr' sz' by (auto simp: same_block_def)
qed

lemma add_new_block:
  assumes lv: "live t (L(p \<mapsto> n))" and p: "L p = None" and rf: "ranges_for rs L"
    and av: "libc_avail d > 0"
  shows "add_range d t rs p n tracenum k =
    Inr (1, d\<lparr>libc_avail := libc_avail d - 1\<rparr>, \<lparr>r_lo = p, r_hi = p + n - 1\<rparr> # rs)"
proof -
  have "p + n \<le> q \<or> q + m \<le> p" if "L q = Some m" for q m
    using live_disjoint [OF lv, of p n q m] that p by (cases "q = p") auto
  then show ?thesis
    using live_block [OF lv, of p n] av by (intro add_range_accepts [OF _ _ _ _ rf]) auto
qed

lemma valid_alloc_ok:
  assumes inv: "vinv live A L st" and A: "A i = None" "0 \<le> i" "i < num_ids (v_trace st)"
    and n: "0 < n" and room: "mem_brk (v_mem st) + cost n \<le> mem_max_addr (v_mem st)"
    and av: "libc_avail (v_drv st) > 0"
  shows "\<exists>st' L'. valid_alloc pkg tracenum k st i n = Inr (Next st') \<and> vinv live (A(i \<mapsto> n)) L' st' \<and>
    quiet_round (cost n) st st'"
proof -
  let ?s = "v_mem st" and ?tr = "v_trace st"
  have lv: "live ?s L" and rf: "ranges_for (v_ranges st) L" and tr: "tracks A L ?tr"
    and sz: "sized A ?tr" and fl: "filled A ?s ?tr"
    using inv by (auto simp: vinv_def)
  obtain p t where mal: "pkg_malloc pkg ?s (word_of_int n) = Inr (p, t)" and Lp: "L p = None"
    and lv': "live t (L(p \<mapsto> n))" and sb: "same_block ?s t" and brk: "mem_brk t \<le> mem_brk ?s + cost n"
    and kept: "blocks_kept L ?s t"
    using malloc_ok [OF lv n room] by blast
  have A0: "A(i := None) = A" using A by (simp add: fun_upd_idem)
  have fl': "filled A t ?tr"
    using fl _ kept by (rule filled_sub) (use tracksD (4) [OF tr] in auto)
  obtain t' tr' where ms: "block_memset t p (i AND 255) (word_of_int n) = Inr t'"
    and re: "remember ?tr i p n = Inr tr'"
    and rest: "live t' (L(p \<mapsto> n))" "tracks (A(i \<mapsto> n)) (L(p \<mapsto> n)) tr'" "sized (A(i \<mapsto> n)) tr'"
      "filled (A(i \<mapsto> n)) t' tr'" "mem_brk t' = mem_brk t" "same_block t t'" "ops tr' = ops ?tr"
      "num_ids tr' = num_ids ?tr"
    using install [OF lv' _ cost_fits(2) [OF lv n room], of p A i ?tr] tracks_extend [OF tr Lp]
      sz fl' A(2,3) tracks_not_live [OF tr Lp] by (auto simp: A0)
  show ?thesis
    using mal live_not_null [OF lv', of p n] add_new_block [OF lv' Lp rf av] ms re rest
      ranges_for_add [OF rf Lp, of n] brk same_block_trans [OF sb rest(6)]
    by (auto simp: valid_alloc_def vinv_def quiet_round_def)
qed

lemma valid_free_ok:
  assumes inv: "vinv live A L st" and A: "A i = Some n"
  shows "\<exists>st' L'. valid_free pkg st i = Inr (Next st') \<and> vinv live (A(i := None)) L' st' \<and>
    quiet_round 0 st st'"
proof -
  let ?s = "v_mem st" and ?tr = "v_trace st" and ?p = "blocks (v_trace st) ! nat i"
  have lv: "live ?s L" and rf: "ranges_for (v_ranges st) L" and tr: "tracks A L ?tr"
    and sz: "sized A ?tr" and fl: "filled A ?s ?tr"
    using inv by (auto simp: vinv_def)
  note D = tracksD [OF tr A]
  obtain t where fr: "pkg_free pkg ?s ?p = Inr t" and lv': "live t (L(?p := None))"
    and sb: "same_block ?s t" and brk: "mem_brk t = mem_brk ?s"
    and kept: "blocks_kept (L(?p := None)) ?s t"
    using free_ok [OF lv D(4)] by blast
  obtain rs1 where rem: "remove_range (v_drv st) (v_ranges st) ?p =
      ((v_drv st)\<lparr>libc_avail := libc_avail (v_drv st) + 1\<rparr>, rs1)"
    and rf': "ranges_for rs1 (L(?p := None))"
    using rf D(4) by (rule ranges_for_remove)
  show ?thesis
    using D(5) rem fr lv' rf' drop_index [OF tr fl sz A kept] sb brk
    by (auto simp: valid_free_def vinv_def quiet_round_def)
qed

text \<open>After a reallocation the driver finds the old contents in the new block.\<close>

lemma copied_check:
  assumes lv: "live t L" and q: "L q = Some n" and m: "0 < m" and low: "i mod 256 < 128"
    and fl: "\<And>j. 0 \<le> j \<Longrightarrow> j < min m n \<Longrightarrow> mem_bytes t (q + j) = index_byte i"
  shows "check_copied t q (i AND 255) (nat (if n < m then n else m)) 0 = Inr True"
proof (rule check_copied_same)
  fix j assume "0 \<le> j" "j < 0 + int (nat (if n < m then n else m))"
  then have j: "0 \<le> j" "j < min m n"
    using live_block [OF lv q] m by (auto split: if_splits)
  have "in_block t (q + j) 1"
    using live_in_block [OF lv q] j by (auto simp: in_block_def)
  with fl [OF j] show "in_block t (q + j) 1 \<and> sint (mem_bytes t (q + j)) = i AND 255"
    by (simp add: sint_index_byte [OF low])
qed

lemma valid_realloc_ok:
  assumes inv: "vinv live A L st" and A: "A i = Some m" and low: "i mod 256 < 128"
    and n: "0 < n" and room: "mem_brk (v_mem st) + cost n \<le> mem_max_addr (v_mem st)"
  shows "\<exists>st' L'. valid_realloc pkg tracenum k st i n = Inr (Next st') \<and>
    vinv live (A(i \<mapsto> n)) L' st' \<and> quiet_round (cost n) st st'"
proof -
  let ?s = "v_mem st" and ?tr = "v_trace st" and ?d = "v_drv st" and ?p = "blocks (v_trace st) ! nat i"
  let ?M = "L(?p := None)"
  have lv: "live ?s L" and rf: "ranges_for (v_ranges st) L" and tr: "tracks A L ?tr"
    and sz: "sized A ?tr" and fl: "filled A ?s ?tr"
    using inv by (auto simp: vinv_def)
  note D = tracksD [OF tr A]
  obtain q t where rl: "pkg_realloc pkg ?s ?p (word_of_int n) = Inr (q, t)" and Mq: "?M q = None"
    and lv': "live t (?M(q \<mapsto> n))" and sb: "same_block ?s t" and brk: "mem_brk t \<le> mem_brk ?s + cost n"
    and kept: "blocks_kept ?M ?s t"
    and copy: "\<forall>j. 0 \<le> j \<longrightarrow> j < min m n \<longrightarrow> mem_bytes t (q + j) = mem_bytes ?s (?p + j)"
    using realloc_ok [OF lv D(4) n room] by blast
  obtain rs1 where rem: "remove_range ?d (v_ranges st) ?p = (?d\<lparr>libc_avail := libc_avail ?d + 1\<rparr>, rs1)"
    and rf': "ranges_for rs1 ?M"
    using rf D(4) by (rule ranges_for_remove)
  note drop = drop_index [OF tr fl sz A kept]
  have m: "0 < m" "m < 2 ^ 31"
    using live_block [OF lv D(4)] memlib_inv_bounds [OF live_inv [OF lv]] by (auto simp: MAX_HEAP_def)
  have "check_copied t q (i AND 255) (nat (if n < m then n else m)) 0 = Inr True"
    using fl A copy by (intro copied_check [OF lv' _ m(1) low]) (auto simp: filled_def)
  moreover note sized_get [OF sz A D(1,3)]
  moreover obtain t' tr' where ms: "block_memset t q (i AND 255) (word_of_int n) = Inr t'"
    and re: "remember ?tr i q n = Inr tr'"
    and rest: "live t' (?M(q \<mapsto> n))" "tracks (A(i \<mapsto> n)) (?M(q \<mapsto> n)) tr'" "sized (A(i \<mapsto> n)) tr'"
      "filled (A(i \<mapsto> n)) t' tr'" "mem_brk t' = mem_brk t" "same_block t t'" "ops tr' = ops ?tr"
      "num_ids tr' = num_ids ?tr"
    using install [OF lv' _ cost_fits(2) [OF lv n room], of q A i ?tr] tracks_extend [OF drop(1) Mq]
      drop(2,3) D(1,3) tracks_not_live [OF drop(1) Mq] by auto
  moreover have "ranges_for (\<lparr>r_lo = q, r_hi = q + n - 1\<rparr> # rs1) (?M(q \<mapsto> n))"
    using ranges_for_add [OF rf' Mq] .
  ultimately show ?thesis
    using D(5) rl live_not_null [OF lv', of q n] rem brk
      add_new_block [OF lv' Mq rf', of "?d\<lparr>libc_avail := libc_avail ?d + 1\<rparr>"]
      same_block_trans [OF sb rest(6)] int_of_size_word [OF less_imp_le [OF m(1)] m(2)]
    by (auto simp: valid_realloc_def Let_def vinv_def quiet_round_def)
qed

lemma cost_nonneg: "wf_op ids A p \<Longrightarrow> 0 \<le> op_cost cost p"
  using cost_pos [of "op_size p"] by (auto simp: wf_op_def op_cost_def split: op_type.splits)

lemma ops_cost_nonneg: "wf_ops ids A ps \<Longrightarrow> 0 \<le> ops_cost cost ps"
  by (induction ps arbitrary: A) (auto dest: cost_nonneg intro: add_nonneg_nonneg)

lemma valid_op_ok:
  assumes inv: "vinv live A L st" and wf: "wf_op (num_ids (v_trace st)) A p" and low: "low_index p"
    and room: "mem_brk (v_mem st) + op_cost cost p \<le> mem_max_addr (v_mem st)"
    and av: "libc_avail (v_drv st) > 0"
  shows "\<exists>st' L'. valid_op pkg tracenum k st p = Inr (Next st') \<and> vinv live (step_live A p) L' st' \<and>
    quiet_round (op_cost cost p) st st'"
proof (cases "op_type p")
  case ALLOC
  then show ?thesis
    using valid_alloc_ok [OF inv, of "op_index p" "op_size p" tracenum k] wf room av
    by (simp add: valid_op_def step_live_def op_cost_def wf_op_def)
next
  case FREE
  with wf obtain n where "A (op_index p) = Some n" by (auto simp: wf_op_def)
  from valid_free_ok [OF inv this] FREE show ?thesis
    by (simp add: valid_op_def step_live_def op_cost_def)
next
  case REALLOC
  with wf obtain n where "A (op_index p) = Some n" "0 < op_size p" by (auto simp: wf_op_def)
  with valid_realloc_ok [OF inv, of "op_index p" n "op_size p" tracenum k] REALLOC low room
  show ?thesis
    by (simp add: valid_op_def step_live_def op_cost_def low_index_def)
qed

lemma valid_loop_ok:
  assumes "vinv live A L st" and "drop (nat k) (ops (v_trace st)) = ps" and "0 \<le> k"
    and "wf_ops (num_ids (v_trace st)) A ps" and "list_all low_index ps"
    and "mem_brk (v_mem st) + ops_cost cost ps \<le> mem_max_addr (v_mem st)"
    and "length ps \<le> libc_avail (v_drv st)"
  shows "\<exists>st' L'. valid_loop pkg tracenum (length ps) k st = Inr (1, st') \<and>
    vinv live (fold (\<lambda>p A. step_live A p) ps A) L' st' \<and>
    errors (v_drv st') = errors (v_drv st) \<and> reports (v_drv st') = reports (v_drv st) \<and>
    same_block (v_mem st) (v_mem st')"
  using assms
proof (induction ps arbitrary: k st A L)
  case Nil
  then show ?case by auto
next
  case (Cons p ps)
  note at = drop_eq_Cons [OF Cons.prems(2,3)]
  have nn: "0 \<le> ops_cost cost ps" using Cons.prems(4) ops_cost_nonneg by auto
  obtain st1 L1 where st1: "valid_op pkg tracenum k st p = Inr (Next st1)"
    "vinv live (step_live A p) L1 st1" "quiet_round (op_cost cost p) st st1"
    using valid_op_ok [OF Cons.prems(1), of p tracenum k] Cons.prems nn by auto
  have q: "mem_brk (v_mem st1) \<le> mem_brk (v_mem st) + op_cost cost p"
    "mem_max_addr (v_mem st1) = mem_max_addr (v_mem st)" "ops (v_trace st1) = ops (v_trace st)"
    "libc_avail (v_drv st) \<le> libc_avail (v_drv st1) + 1" "num_ids (v_trace st1) = num_ids (v_trace st)"
    "errors (v_drv st1) = errors (v_drv st)" "reports (v_drv st1) = reports (v_drv st)"
    using st1(3) by (auto simp: quiet_round_def same_block_def)
  have sb: "same_block (v_mem st) (v_mem st1)" using st1(3) by (simp add: quiet_round_def)
  have "\<exists>st' L'. valid_loop pkg tracenum (length ps) (k + 1) st1 = Inr (1, st') \<and>
    vinv live (fold (\<lambda>p A. step_live A p) ps (step_live A p)) L' st' \<and>
    errors (v_drv st') = errors (v_drv st1) \<and> reports (v_drv st') = reports (v_drv st1) \<and>
    same_block (v_mem st1) (v_mem st')"
    using Cons.prems q at(2) by (intro Cons.IH [OF st1(2)]) auto
  then show ?case
    using st1(1) at(1) q same_block_trans [OF sb] by auto
qed

lemma reset_init:
  assumes "memlib_inv s"
  shows "\<exists>r t. pkg_init pkg (mem_reset_brk s) = Inr (r, t) \<and> 0 \<le> r \<and> live t Map.empty \<and>
    same_block s t \<and> mem_brk t = mem_start_brk s \<and> mem_max_addr t = mem_start_brk s + MAX_HEAP"
proof -
  have "memlib_inv (mem_reset_brk s)" using assms by (rule mem_reset_brk_inv)
  from init_ok [OF this] obtain r t where "pkg_init pkg (mem_reset_brk s) = Inr (r, t)" "0 \<le> r"
    "live t Map.empty" "same_block (mem_reset_brk s) t" "mem_brk t = mem_start_brk s"
    by (auto simp: mem_reset_brk_def)
  then show ?thesis
    using memlib_inv_bounds [OF assms] by (auto simp: same_block_def mem_reset_brk_def)
qed

lemma eval_mm_valid_ok:
  assumes inv: "memlib_inv (v_mem st)" and wf: "wf_trace (v_trace st)"
    and low: "list_all low_index (ops (v_trace st))"
    and room: "ops_cost cost (ops (v_trace st)) \<le> MAX_HEAP"
    and av: "length (ops (v_trace st)) \<le> libc_avail (v_drv st) + length (v_ranges st)"
  shows "\<exists>st'. eval_mm_valid pkg st tracenum = Inr (1, st') \<and>
    errors (v_drv st') = errors (v_drv st) \<and> reports (v_drv st') = reports (v_drv st) \<and>
    same_block (v_mem st) (v_mem st') \<and> memlib_inv (v_mem st')"
proof -
  let ?d = "(v_drv st)\<lparr>libc_avail := libc_avail (v_drv st) + length (v_ranges st)\<rparr>"
  obtain r t where init: "pkg_init pkg (mem_reset_brk (v_mem st)) = Inr (r, t)" "0 \<le> r"
    and t: "live t Map.empty" "same_block (v_mem st) t" "mem_brk t = mem_start_brk (v_mem st)"
      "mem_max_addr t = mem_start_brk (v_mem st) + MAX_HEAP"
    using reset_init [OF inv] by blast
  let ?st = "st\<lparr>v_mem := t, v_drv := ?d, v_ranges := []\<rparr>"
  have "vinv live Map.empty Map.empty ?st"
    using t(1) wf by (auto simp: vinv_def ranges_for_def wf_trace_def tracks_empty sized_def filled_def)
  from valid_loop_ok [OF this, of 0 "ops (v_trace st)" tracenum] wf low room av t(3,4)
  obtain st' where "valid_loop pkg tracenum (length (ops (v_trace st))) 0 ?st = Inr (1, st')"
    "errors (v_drv st') = errors (v_drv st)" "reports (v_drv st') = reports (v_drv st)"
    "same_block t (v_mem st')" "memlib_inv (v_mem st')"
    by (auto simp: wf_trace_def vinv_def dest: live_inv)
  with init wf same_block_trans [OF t(2)] show ?thesis
    by (auto simp: eval_mm_valid_def clear_ranges_eq wf_trace_def)
qed

end

section \<open>Space utilization of a package that meets the contract\<close>

text \<open>The payload bytes in use, and the most there ever are while a trace runs.\<close>

definition live_total :: "idx_map \<Rightarrow> int" where
  "live_total A = (\<Sum>i\<in>dom A. the (A i))"

fun peak_live :: "idx_map \<Rightarrow> traceop_t list \<Rightarrow> int" where
  "peak_live A [] = live_total A"
| "peak_live A (p # ps) = max (live_total A) (peak_live (step_live A p) ps)"

lemma live_total_upd:
  assumes "finite (dom A)"
  shows "live_total (A(i \<mapsto> n)) = live_total (A(i := None)) + n"
proof -
  have "live_total (A(i \<mapsto> n)) = n + (\<Sum>j\<in>dom A - {i}. the ((A(i \<mapsto> n)) j))"
    using assms unfolding live_total_def by (simp add: sum.insert_remove)
  also have "(\<Sum>j\<in>dom A - {i}. the ((A(i \<mapsto> n)) j)) = live_total (A(i := None))"
    unfolding live_total_def by (intro sum.cong) auto
  finally show ?thesis by (simp only: add.commute)
qed

lemma live_total_drop:
  "finite (dom A) \<Longrightarrow> A i = Some m \<Longrightarrow> live_total (A(i := None)) = live_total A - m"
  using live_total_upd [of A i m] by (simp add: fun_upd_idem)

lemma tracks_finite: "tracks A L tr \<Longrightarrow> finite (dom A)"
  by (rule finite_subset [of _ "{0..<num_ids tr}"]) (auto simp: tracks_def)

lemma remember_tracks:
  assumes tr: "tracks (A(i := None)) L tr" and sz: "sized (A(i := None)) tr" and p: "L p = Some n"
    and i: "0 \<le> i" "i < num_ids tr"
    and fresh: "\<And>j k. A j = Some k \<Longrightarrow> j \<noteq> i \<Longrightarrow> blocks tr ! nat j \<noteq> p"
  shows "\<exists>tr'. remember tr i p n = Inr tr' \<and> tracks (A(i \<mapsto> n)) L tr' \<and> sized (A(i \<mapsto> n)) tr' \<and>
    ops tr' = ops tr \<and> num_ids tr' = num_ids tr"
proof -
  have len: "length (blocks tr) = nat (num_ids tr)" "length (block_sizes tr) = nat (num_ids tr)"
    using tr sz by (auto simp: tracks_def sized_def)
  show ?thesis
    using remember_ok [OF len i] tracks_store [OF tr i p fresh] sized_store [OF sz tr i]
    by (auto simp: tracks_def sized_def)
qed

context mm_contract
begin

text \<open>The live blocks are disjoint, so their sizes add up to no more than the heap.\<close>

lemma live_total_le:
  assumes lv: "live s L" and tr: "tracks A L tr"
  shows "live_total A \<le> mem_brk s - mem_start_brk s"
proof -
  let ?b = "\<lambda>i. blocks tr ! nat i" and ?n = "\<lambda>i. the (A i)"
  let ?I = "\<lambda>i. {?b i ..< ?b i + ?n i}"
  have fin: "finite (dom A)" using tr by (rule tracks_finite)
  have L: "L (?b i) = Some (?n i)" if "i \<in> dom A" for i
    using that tracksD (4) [OF tr] by auto
  have disj: "?I i \<inter> ?I j = {}" if "i \<in> dom A" "j \<in> dom A" "i \<noteq> j" for i j
    using live_disjoint [OF lv L [OF that(1)] L [OF that(2)]] tracks_inj [OF tr _ _ that(3)] that(1,2)
    by auto
  have "(\<Sum>i\<in>dom A. card (?I i)) = card (\<Union>i\<in>dom A. ?I i)"
    using fin disj by (intro card_UN_disjoint [symmetric]) auto
  also have "\<dots> \<le> card {mem_start_brk s ..< mem_brk s}"
    using live_block [OF lv L] by (intro card_mono) fastforce+
  also have "\<dots> = nat (mem_brk s - mem_start_brk s)" by simp
  finally have "int (\<Sum>i\<in>dom A. card (?I i)) \<le> mem_brk s - mem_start_brk s"
    using memlib_inv_bounds (2) [OF live_inv [OF lv]] by linarith
  moreover have "int (\<Sum>i\<in>dom A. card (?I i)) = live_total A"
    unfolding live_total_def of_nat_sum using live_block [OF lv L] by (intro sum.cong) force+
  ultimately show ?thesis by simp
qed

lemma live_total_nonneg:
  assumes "live s L" and tr: "tracks A L tr"
  shows "0 \<le> live_total A"
  unfolding live_total_def using live_block [OF assms(1)] tracksD (4) [OF tr]
  by (intro sum_nonneg) fastforce

lemma live_total_in_int:
  assumes "live s L" and "tracks A L tr"
  shows "in_int (live_total A)"
  using live_total_le [OF assms] live_total_nonneg [OF assms]
    memlib_inv_bounds [OF live_inv [OF assms(1)]]
  by (intro in_intI) (auto simp: MAX_HEAP_def)

end

definition uinv :: "(memlib \<Rightarrow> live_map \<Rightarrow> bool) \<Rightarrow> idx_map \<Rightarrow> live_map \<Rightarrow> ustate \<Rightarrow> bool" where
  "uinv live A L st \<longleftrightarrow>
     live (us_mem st) L \<and> tracks A L (us_trace st) \<and> sized A (us_trace st) \<and>
     total_size st = live_total A"

text \<open>A round that takes at most \<open>c\<close> bytes off the heap and raises the maximum to the new total.\<close>

definition util_round :: "int \<Rightarrow> int \<Rightarrow> ustate \<Rightarrow> ustate \<Rightarrow> bool" where
  "util_round c t st st' \<longleftrightarrow>
     max_total_size st' = max (max_total_size st) t \<and> same_block (us_mem st) (us_mem st') \<and>
     mem_brk (us_mem st) \<le> mem_brk (us_mem st') \<and> mem_brk (us_mem st') \<le> mem_brk (us_mem st) + c \<and>
     ops (us_trace st') = ops (us_trace st) \<and> num_ids (us_trace st') = num_ids (us_trace st)"

context mm_contract
begin

lemma util_install:
  assumes lv: "live t L" and p: "L p = Some n"
    and tr: "tracks (A(i := None)) L tr" and sz: "sized (A(i := None)) tr"
    and i: "0 \<le> i" "i < num_ids tr"
    and fresh: "\<And>j k. A j = Some k \<Longrightarrow> j \<noteq> i \<Longrightarrow> blocks tr ! nat j \<noteq> p"
    and tot: "total_size st + delta = live_total (A(i := None)) + n"
  shows "\<exists>tr' st'. remember tr i p n = Inr tr' \<and>
    track_total (st\<lparr>us_mem := t, us_trace := tr'\<rparr>) delta = Inr st' \<and> uinv live (A(i \<mapsto> n)) L st' \<and>
    us_mem st' = t \<and> ops (us_trace st') = ops tr \<and> num_ids (us_trace st') = num_ids tr \<and>
    max_total_size st' = max (max_total_size st) (live_total (A(i \<mapsto> n)))"
proof -
  obtain tr' where tr': "remember tr i p n = Inr tr'" "tracks (A(i \<mapsto> n)) L tr'"
    "sized (A(i \<mapsto> n)) tr'" "ops tr' = ops tr" "num_ids tr' = num_ids tr"
    using remember_tracks [OF tr sz p i] fresh by blast
  have "finite (dom A)" using tracks_finite [OF tr] by simp
  then have "total_size st + delta = live_total (A(i \<mapsto> n))"
    using tot by (simp only: live_total_upd)
  then show ?thesis
    using tr' lv live_total_in_int [OF lv tr'(2)] by (auto simp: track_total_def uinv_def max_def)
qed

lemma block_size_int:
  assumes "live s L" and "L p = Some n"
  shows "0 < n" "n < 2 ^ 31"
  using live_block [OF assms] memlib_inv_bounds [OF live_inv [OF assms(1)]] by (auto simp: MAX_HEAP_def)

lemma util_alloc_ok:
  assumes inv: "uinv live A L st" and p: "op_type p = ALLOC" "wf_op (num_ids (us_trace st)) A p"
    and room: "mem_brk (us_mem st) + op_cost cost p \<le> mem_max_addr (us_mem st)"
  shows "\<exists>st' L'. util_op pkg st p = Inr st' \<and> uinv live (step_live A p) L' st' \<and>
    util_round (op_cost cost p) (live_total (step_live A p)) st st'"
proof -
  let ?s = "us_mem st" and ?tr = "us_trace st" and ?i = "op_index p" and ?n = "op_size p"
  have lv: "live ?s L" and tr: "tracks A L ?tr" and sz: "sized A ?tr"
    and tot: "total_size st = live_total A"
    using inv by (auto simp: uinv_def)
  have A: "A ?i = None" "0 \<le> ?i" "?i < num_ids ?tr" and n: "0 < ?n"
    and rm: "mem_brk ?s + cost ?n \<le> mem_max_addr ?s"
    using p room by (auto simp: wf_op_def op_cost_def)
  have A0: "A(?i := None) = A" using A by (simp add: fun_upd_idem)
  obtain q t where mal: "pkg_malloc pkg ?s (word_of_int ?n) = Inr (q, t)" and Lq: "L q = None"
    and lv': "live t (L(q \<mapsto> ?n))" and t: "same_block ?s t" "mem_brk ?s \<le> mem_brk t"
      "mem_brk t \<le> mem_brk ?s + cost ?n"
    using malloc_ok [OF lv n rm] by blast
  obtain tr' st' where "remember ?tr ?i q ?n = Inr tr'"
    "track_total (st\<lparr>us_mem := t, us_trace := tr'\<rparr>) ?n = Inr st'"
    "uinv live (A(?i \<mapsto> ?n)) (L(q \<mapsto> ?n)) st'" "us_mem st' = t" "ops (us_trace st') = ops ?tr"
    "num_ids (us_trace st') = num_ids ?tr"
    "max_total_size st' = max (max_total_size st) (live_total (A(?i \<mapsto> ?n)))"
    using util_install [OF lv' _ _ _ A(2,3), of q ?n A st ?n] tracks_extend [OF tr Lq] sz tot
      tracks_not_live [OF tr Lq] by (auto simp: A0)
  with mal live_not_null [OF lv', of q ?n] t p(1) show ?thesis
    by (auto simp: util_op_def util_round_def step_live_def op_cost_def)
qed

lemma util_free_ok:
  assumes inv: "uinv live A L st" and p: "op_type p = FREE" "wf_op (num_ids (us_trace st)) A p"
    and mx: "live_total A \<le> max_total_size st"
  shows "\<exists>st' L'. util_op pkg st p = Inr st' \<and> uinv live (step_live A p) L' st' \<and>
    util_round (op_cost cost p) (live_total (step_live A p)) st st'"
proof -
  let ?s = "us_mem st" and ?tr = "us_trace st" and ?i = "op_index p"
  have lv: "live ?s L" and tr: "tracks A L ?tr" and sz: "sized A ?tr"
    and tot: "total_size st = live_total A"
    using inv by (auto simp: uinv_def)
  obtain m where A: "A ?i = Some m" using p by (auto simp: wf_op_def)
  note D = tracksD [OF tr A] and ltd = live_total_drop [OF tracks_finite [OF tr] A]
  note tr' = tracks_drop [OF tr A] and m = block_size_int [OF lv D(4)]
  obtain t where "pkg_free pkg ?s (blocks ?tr ! nat ?i) = Inr t"
    and lv': "live t (L(blocks ?tr ! nat ?i := None))" and "same_block ?s t" "mem_brk t = mem_brk ?s"
    using free_ok [OF lv D(4)] by blast
  then show ?thesis
    using p(1) D(5) tr' sized_drop [OF sz] tot mx m ltd live_total_in_int [OF lv' tr']
      sized_get [OF sz A D(1,3)]
    by (auto simp: util_op_def util_round_def step_live_def op_cost_def uinv_def int_of_size_word max_def)
qed

lemma util_realloc_ok:
  assumes inv: "uinv live A L st" and p: "op_type p = REALLOC" "wf_op (num_ids (us_trace st)) A p"
    and room: "mem_brk (us_mem st) + op_cost cost p \<le> mem_max_addr (us_mem st)"
  shows "\<exists>st' L'. util_op pkg st p = Inr st' \<and> uinv live (step_live A p) L' st' \<and>
    util_round (op_cost cost p) (live_total (step_live A p)) st st'"
proof -
  let ?s = "us_mem st" and ?tr = "us_trace st" and ?i = "op_index p" and ?n = "op_size p"
  let ?p = "blocks ?tr ! nat ?i"
  let ?M = "L(?p := None)"
  have lv: "live ?s L" and tr: "tracks A L ?tr" and sz: "sized A ?tr"
    and tot: "total_size st = live_total A"
    using inv by (auto simp: uinv_def)
  obtain m where A: "A ?i = Some m" and n: "0 < ?n" and rm: "mem_brk ?s + cost ?n \<le> mem_max_addr ?s"
    using p room by (auto simp: wf_op_def op_cost_def)
  note D = tracksD [OF tr A] and ltd = live_total_drop [OF tracks_finite [OF tr] A]
  note tr' = tracks_drop [OF tr A] and m = block_size_int [OF lv D(4)]
  obtain q t where rl: "pkg_realloc pkg ?s ?p (word_of_int ?n) = Inr (q, t)" and Mq: "?M q = None"
    and lv': "live t (?M(q \<mapsto> ?n))" and t: "same_block ?s t" "mem_brk ?s \<le> mem_brk t"
      "mem_brk t \<le> mem_brk ?s + cost ?n"
    using realloc_ok [OF lv D(4) n rm] by blast
  obtain tr' st' where "remember ?tr ?i q ?n = Inr tr'"
    "track_total (st\<lparr>us_mem := t, us_trace := tr'\<rparr>) (?n - m) = Inr st'"
    "uinv live (A(?i \<mapsto> ?n)) (?M(q \<mapsto> ?n)) st'" "us_mem st' = t" "ops (us_trace st') = ops ?tr"
    "num_ids (us_trace st') = num_ids ?tr"
    "max_total_size st' = max (max_total_size st) (live_total (A(?i \<mapsto> ?n)))"
    using util_install [OF lv' _ _ sized_drop [OF sz] D(1,3), of q ?n st "?n - m"]
      tracks_extend [OF tr' Mq] tot ltd tracks_not_live [OF tr' Mq] by auto
  moreover have "in_int (?n - m)" using m n cost_fits (1) [OF lv n rm] by (intro in_intI) auto
  ultimately show ?thesis
    using rl live_not_null [OF lv', of q ?n] t p(1) D(5) m sized_get [OF sz A D(1,3)]
    by (auto simp: util_op_def util_round_def step_live_def op_cost_def int_of_size_word Let_def)
qed

lemma util_op_ok:
  assumes "uinv live A L st" and "wf_op (num_ids (us_trace st)) A p"
    and "mem_brk (us_mem st) + op_cost cost p \<le> mem_max_addr (us_mem st)"
    and "live_total A \<le> max_total_size st"
  shows "\<exists>st' L'. util_op pkg st p = Inr st' \<and> uinv live (step_live A p) L' st' \<and>
    util_round (op_cost cost p) (live_total (step_live A p)) st st'"
proof (cases "op_type p")
  case ALLOC from util_alloc_ok [OF assms(1) this assms(2,3)] show ?thesis .
next
  case FREE from util_free_ok [OF assms(1) this assms(2,4)] show ?thesis .
next
  case REALLOC from util_realloc_ok [OF assms(1) this assms(2,3)] show ?thesis .
qed

lemma util_loop_ok:
  assumes "uinv live A L st" and "drop (nat k) (ops (us_trace st)) = ps" and "0 \<le> k"
    and "wf_ops (num_ids (us_trace st)) A ps"
    and "mem_brk (us_mem st) + ops_cost cost ps \<le> mem_max_addr (us_mem st)"
    and "live_total A \<le> max_total_size st"
    and "max_total_size st \<le> mem_brk (us_mem st) - mem_start_brk (us_mem st)"
  shows "\<exists>st' L'. util_loop pkg (length ps) k st = Inr st' \<and>
    uinv live (fold (\<lambda>p A. step_live A p) ps A) L' st' \<and> same_block (us_mem st) (us_mem st') \<and>
    max_total_size st' = max (max_total_size st) (peak_live A ps) \<and>
    max_total_size st' \<le> mem_brk (us_mem st') - mem_start_brk (us_mem st')"
  using assms
proof (induction ps arbitrary: k st A L)
  case Nil
  then show ?case by auto
next
  case (Cons p ps)
  note at = drop_eq_Cons [OF Cons.prems(2,3)]
  have nn: "0 \<le> ops_cost cost ps" using Cons.prems(4) ops_cost_nonneg by auto
  obtain st1 L1 where st1: "util_op pkg st p = Inr st1" "uinv live (step_live A p) L1 st1"
    and r: "util_round (op_cost cost p) (live_total (step_live A p)) st st1"
    using util_op_ok [OF Cons.prems(1), of p] Cons.prems nn by auto
  have "live_total (step_live A p) \<le> mem_brk (us_mem st1) - mem_start_brk (us_mem st1)"
    using st1(2) by (auto simp: uinv_def intro: live_total_le)
  with r Cons.prems at(2)
  have "\<exists>st' L'. util_loop pkg (length ps) (k + 1) st1 = Inr st' \<and>
    uinv live (fold (\<lambda>p A. step_live A p) ps (step_live A p)) L' st' \<and>
    same_block (us_mem st1) (us_mem st') \<and>
    max_total_size st' = max (max_total_size st1) (peak_live (step_live A p) ps) \<and>
    max_total_size st' \<le> mem_brk (us_mem st') - mem_start_brk (us_mem st')"
    by (intro Cons.IH [OF st1(2)]) (auto simp: util_round_def same_block_def)
  moreover have "max (live_total (step_live A p)) (peak_live (step_live A p) ps) = peak_live (step_live A p) ps"
    by (cases ps) auto
  ultimately show ?case
    using st1(1) at(1) r Cons.prems(6) same_block_trans [of "us_mem st" "us_mem st1"]
    by (auto simp: util_round_def max.assoc)
qed

end

context mm_contract
begin

lemma eval_mm_util_ok:
  assumes inv: "memlib_inv s" and wf: "wf_trace tr" and room: "ops_cost cost (ops tr) \<le> MAX_HEAP"
  shows "\<exists>hs s' tr'. eval_mm_util pkg s tr = Inr (peak_live Map.empty (ops tr), hs, s', tr') \<and>
    memlib_inv s' \<and> same_block s s' \<and> hs = mem_heapsize s' \<and>
    0 \<le> peak_live Map.empty (ops tr) \<and> peak_live Map.empty (ops tr) \<le> uint hs"
proof -
  obtain r t where init: "pkg_init pkg (mem_reset_brk s) = Inr (r, t)" "0 \<le> r"
    and t: "live t Map.empty" "same_block s t" "mem_brk t = mem_start_brk s"
      "mem_max_addr t = mem_start_brk s + MAX_HEAP"
    using reset_init [OF inv] by blast
  let ?st = "\<lparr>us_mem = t, us_trace = tr, total_size = 0, max_total_size = 0\<rparr>"
  have lt0: "live_total Map.empty = 0" by (simp add: live_total_def)
  have pk: "0 \<le> peak_live Map.empty (ops tr)" by (cases "ops tr") (auto simp: lt0)
  have "uinv live Map.empty Map.empty ?st"
    using t(1) wf by (auto simp: uinv_def wf_trace_def tracks_empty sized_def lt0)
  from util_loop_ok [OF this, of 0 "ops tr"] wf room t lt0 pk
  obtain st' L' where st': "util_loop pkg (length (ops tr)) 0 ?st = Inr st'"
    "live (us_mem st') L'" "same_block t (us_mem st')"
    "max_total_size st' = peak_live Map.empty (ops tr)"
    "max_total_size st' \<le> mem_brk (us_mem st') - mem_start_brk (us_mem st')"
    by (auto simp: wf_trace_def uinv_def same_block_def)
  with init wf pk same_block_trans [OF t(2)] live_inv [OF st'(2)] show ?thesis
    by (auto simp: eval_mm_util_def wf_trace_def uint_mem_heapsize)
qed

text \<open>The timed run makes the same calls and keeps only the array of blocks.\<close>

lemma speed_op_ok:
  assumes lv: "live s L" and tr: "tracks A L tr" and wf: "wf_op (num_ids tr) A p"
    and room: "mem_brk s + op_cost cost p \<le> mem_max_addr s"
  shows "\<exists>s' tr' L'. speed_op pkg (s, tr) p = Inr (s', tr') \<and> live s' L' \<and>
    tracks (step_live A p) L' tr' \<and> same_block s s' \<and> mem_brk s' \<le> mem_brk s + op_cost cost p \<and>
    ops tr' = ops tr \<and> num_ids tr' = num_ids tr"
proof -
  let ?i = "op_index p" and ?n = "op_size p"
  have len: "length (blocks tr) = nat (num_ids tr)" using tr by (simp add: tracks_def)
  show ?thesis
  proof (cases "op_type p")
    case ALLOC
    then have A: "A ?i = None" "0 \<le> ?i" "?i < num_ids tr" and n: "0 < ?n"
      and rm: "mem_brk s + cost ?n \<le> mem_max_addr s"
      using wf room by (auto simp: wf_op_def op_cost_def)
    obtain q t where mal: "pkg_malloc pkg s (word_of_int ?n) = Inr (q, t)" and Lq: "L q = None"
      and lv': "live t (L(q \<mapsto> ?n))" and t: "same_block s t" "mem_brk t \<le> mem_brk s + cost ?n"
      using malloc_ok [OF lv n rm] by blast
    have "tracks (A(?i := None)) (L(q \<mapsto> ?n)) tr"
      using tracks_extend [OF tr Lq] A(1) by (simp add: fun_upd_idem)
    from tracks_store [OF this A(2,3)] mal lv' t len A ALLOC live_not_null [OF lv', of q ?n]
      tracks_not_live [OF tr Lq]
    show ?thesis by (auto simp: speed_op_def step_live_def op_cost_def)
  next
    case FREE
    then obtain m where A: "A ?i = Some m" using wf by (auto simp: wf_op_def)
    with free_ok [OF lv tracksD (4) [OF tr A]] tracksD (5) [OF tr A] tracks_drop [OF tr A] FREE
    show ?thesis by (auto simp: speed_op_def step_live_def op_cost_def)
  next
    case REALLOC
    then obtain m where A: "A ?i = Some m" and n: "0 < ?n" and rm: "mem_brk s + cost ?n \<le> mem_max_addr s"
      using wf room by (auto simp: wf_op_def op_cost_def)
    let ?M = "L(blocks tr ! nat ?i := None)"
    note D = tracksD [OF tr A] and tr' = tracks_drop [OF tr A]
    obtain q t where rl: "pkg_realloc pkg s (blocks tr ! nat ?i) (word_of_int ?n) = Inr (q, t)"
      and Mq: "?M q = None" and lv': "live t (?M(q \<mapsto> ?n))"
      and t: "same_block s t" "mem_brk t \<le> mem_brk s + cost ?n"
      using realloc_ok [OF lv D(4) n rm] by blast
    have "tracks (A(?i \<mapsto> ?n)) (?M(q \<mapsto> ?n)) (tr\<lparr>blocks := (blocks tr)[nat ?i := q]\<rparr>)"
      using tracks_not_live [OF tr' Mq] by (intro tracks_store [OF tracks_extend [OF tr' Mq] D(1,3)]) auto
    with rl lv' t len D REALLOC live_not_null [OF lv', of q ?n]
    show ?thesis by (auto simp: speed_op_def step_live_def op_cost_def)
  qed
qed

lemma speed_loop_ok:
  assumes "live s L" and "tracks A L tr" and "drop (nat k) (ops tr) = ps" and "0 \<le> k"
    and "wf_ops (num_ids tr) A ps" and "mem_brk s + ops_cost cost ps \<le> mem_max_addr s"
  shows "\<exists>s' tr'. speed_loop pkg (length ps) k (s, tr) = Inr (s', tr') \<and> memlib_inv s' \<and> same_block s s'"
  using assms
proof (induction ps arbitrary: k s tr A L)
  case Nil
  then show ?case by (auto intro: live_inv)
next
  case (Cons p ps)
  note at = drop_eq_Cons [OF Cons.prems(3,4)]
  have nn: "0 \<le> ops_cost cost ps" using Cons.prems(5) ops_cost_nonneg by auto
  obtain s1 tr1 L1 where 1: "speed_op pkg (s, tr) p = Inr (s1, tr1)" "live s1 L1"
    "tracks (step_live A p) L1 tr1" "same_block s s1" "mem_brk s1 \<le> mem_brk s + op_cost cost p"
    "ops tr1 = ops tr" "num_ids tr1 = num_ids tr"
    using speed_op_ok [OF Cons.prems(1,2), of p] Cons.prems nn by auto
  have "\<exists>s' tr'. speed_loop pkg (length ps) (k + 1) (s1, tr1) = Inr (s', tr') \<and> memlib_inv s' \<and>
    same_block s1 s'"
    using 1 Cons.prems at(2) by (intro Cons.IH [OF 1(2,3)]) (auto simp: same_block_def)
  with 1(1) at(1) same_block_trans [OF 1(4)] show ?case by auto
qed

lemma eval_mm_speed_ok:
  assumes inv: "memlib_inv s" and wf: "wf_trace tr" and room: "ops_cost cost (ops tr) \<le> MAX_HEAP"
  shows "\<exists>s' tr'. eval_mm_speed pkg s tr = Inr (s', tr') \<and> memlib_inv s' \<and> same_block s s'"
proof -
  obtain r t where init: "pkg_init pkg (mem_reset_brk s) = Inr (r, t)" "0 \<le> r"
    and t: "live t Map.empty" "same_block s t" "mem_brk t = mem_start_brk s"
      "mem_max_addr t = mem_start_brk s + MAX_HEAP"
    using reset_init [OF inv] by blast
  have "tracks Map.empty Map.empty tr" using wf by (auto simp: wf_trace_def tracks_empty)
  from speed_loop_ok [OF t(1) this, of 0] wf room t
  obtain s' tr' where "speed_loop pkg (length (ops tr)) 0 (t, tr) = Inr (s', tr')" "memlib_inv s'"
    "same_block t s'"
    by (auto simp: wf_trace_def)
  with init wf same_block_trans [OF t(2)] show ?thesis
    by (auto simp: eval_mm_speed_def wf_trace_def)
qed

end

section \<open>The check of reallocated data\<close>

text \<open>
  C29: for an identifier whose low byte is 128 or more, the data check of a reallocation fails at
  its first byte whatever the new block holds, so a correct package is reported as not preserving
  the data: \<open>newp[j]\<close> is a signed \<open>char\<close> and \<open>index & 0xFF\<close> is an \<open>int\<close> of at least 128.
\<close>

theorem check_copied_high_index:
  assumes "128 \<le> index mod 256" and "in_block s (newp + j) 1"
  shows "check_copied s newp (index AND 255) (Suc k) j = Inr False"
proof -
  have "index AND 255 = index mod 256"
    using take_bit_eq_mask [of 8 index] by (simp add: take_bit_eq_mod mask_eq_exp_minus_1)
  moreover have "sint (mem_bytes s (newp + j)) < 128"
    using sint_less [of "mem_bytes s (newp + j)"] by simp
  ultimately show ?thesis using assms by simp
qed

theorem check_copied_high_index_witness:
  "check_copied \<lparr>mem_bytes = (\<lambda>_. 200), mem_start_brk = 4096, mem_brk = 8192,
     mem_max_addr = 8192, mem_live = True, mem_errno = 0\<rparr> 4112 (200 AND 255) 16 0 = Inr False"
  using check_copied_high_index [of 200 "\<lparr>mem_bytes = (\<lambda>_. 200), mem_start_brk = 4096,
     mem_brk = 8192, mem_max_addr = 8192, mem_live = True, mem_errno = 0\<rparr>" 4112 0 15]
  by (simp add: in_block_def)

end
