(* ===== verification/Clock.thy ===== *)
theory Clock
  imports C_Prelude Complex_Main
begin

text \<open>
  The timers of the malloc lab: the cycle counters of \<open>malloclab/clock.c\<close> (the i386 and Alpha
  versions and the refusal on other platforms), the interval and time-of-day timers of
  \<open>malloclab/ftimer.c\<close> and their selection in \<open>malloclab/fsecs.c\<close>. What the hardware and the kernel
  answer is an argument. A \<open>double\<close> is modelled by a real number: rounding is not part of the model.
  The function that is timed is a parameter \<open>f\<close> on a state of its own.
\<close>

section \<open>Cycle counters\<close>

record counter_st =
  cyc_hi :: "32 word"
  cyc_lo :: "32 word"

text \<open>The i386 version: \<open>tsc\<close> is the pair the \<open>rdtsc\<close> instruction delivers.\<close>

definition access_counter :: "32 word \<times> 32 word \<Rightarrow> 32 word \<times> 32 word" where
  "access_counter tsc = tsc"

definition start_counter :: "32 word \<times> 32 word \<Rightarrow> counter_st \<Rightarrow> counter_st" where
  "start_counter tsc c = (let (hi, lo) = access_counter tsc in c\<lparr>cyc_hi := hi, cyc_lo := lo\<rparr>)"

definition get_counter :: "32 word \<times> 32 word \<Rightarrow> counter_st \<Rightarrow> real" where
  "get_counter tsc c =
     (let (ncyc_hi, ncyc_lo) = access_counter tsc;
          lo = ncyc_lo - cyc_lo c;
          borrow = (if lo > ncyc_lo then 1 else 0);
          hi = ncyc_hi - cyc_hi c - borrow
      in of_int (uint hi) * of_int (2 ^ 30) * 4 + of_int (uint lo))"

text \<open>The Alpha version: \<open>cnt\<close> is the low half of the processor's counter.\<close>

definition start_counter_alpha :: "32 word \<Rightarrow> counter_st \<Rightarrow> counter_st" where
  "start_counter_alpha cnt c = c\<lparr>cyc_hi := 0, cyc_lo := cnt\<rparr>"

definition get_counter_alpha :: "32 word \<Rightarrow> counter_st \<Rightarrow> real" where
  "get_counter_alpha cnt c =
     (let ncyc_lo = cnt;
          ncyc_hi = 0;
          lo = ncyc_lo - cyc_lo c;
          borrow = (if lo > ncyc_lo then 1 else 0);
          hi = ncyc_hi - cyc_hi c - borrow
      in of_int (uint hi) * of_int (2 ^ 30) * 4 + of_int (uint lo))"

text \<open>Every other platform.\<close>

definition start_counter_other :: "counter_st res" where "start_counter_other = Inl (Exit 1)"

definition get_counter_other :: "real res" where "get_counter_other = Inl (Exit 1)"

text \<open>The overhead: two measurements of nothing, the second counts.\<close>

definition ovhd ::
  "32 word \<times> 32 word \<Rightarrow> 32 word \<times> 32 word \<Rightarrow> 32 word \<times> 32 word \<Rightarrow> 32 word \<times> 32 word \<Rightarrow>
     counter_st \<Rightarrow> real \<times> counter_st" where
  "ovhd t1 t2 t3 t4 c =
     (let c1 = start_counter t1 c; r1 = get_counter t2 c1;
          c2 = start_counter t3 c1; r2 = get_counter t4 c2
      in (r2, c2))"

text \<open>The clock rate: \<open>t2\<close> is the counter after sleeping \<open>sleeptime\<close> seconds from \<open>t1\<close> on.\<close>

definition mhz_full ::
  "32 word \<times> 32 word \<Rightarrow> 32 word \<times> 32 word \<Rightarrow> int \<Rightarrow> counter_st \<Rightarrow> real \<times> counter_st" where
  "mhz_full t1 t2 sleeptime c =
     (let c1 = start_counter t1 c in (get_counter t2 c1 / (10 ^ 6 * of_int sleeptime), c1))"

definition mhz :: "32 word \<times> 32 word \<Rightarrow> 32 word \<times> 32 word \<Rightarrow> counter_st \<Rightarrow> real \<times> counter_st" where
  "mhz t1 t2 c = mhz_full t1 t2 2 c"

subsection \<open>Compensation for timer interrupts\<close>

definition NEVENT :: int where "NEVENT = 100"

definition THRESHOLD :: real where "THRESHOLD = 1000"

definition RECORDTHRESH :: real where "RECORDTHRESH = 3000"

text \<open>The update of \<open>cyc_per_tick\<close> when an event of \<open>newc - oldc\<close> ticks is seen.\<close>

definition record_event :: "real \<Rightarrow> real \<Rightarrow> real \<Rightarrow> int \<Rightarrow> int \<Rightarrow> real" where
  "record_event cyc_per_tick newt oldt newc oldc =
     (let cpt = (newt - oldt) / of_int (newc - oldc)
      in if (cyc_per_tick = 0 \<or> cyc_per_tick > cpt) \<and> cpt > RECORDTHRESH then cpt
         else cyc_per_tick)"

text \<open>
  The loop of \<open>callibrate\<close>, which ends when 100 events have been seen, if ever: \<open>cnt i\<close> is the
  \<open>i\<close>th value \<open>get_counter\<close> returns and \<open>tick j\<close> the \<open>j\<close>th user time of \<open>times\<close>.
\<close>

partial_function (option) callibrate_loop ::
  "(nat \<Rightarrow> real) \<Rightarrow> (nat \<Rightarrow> int) \<Rightarrow> nat \<Rightarrow> nat \<Rightarrow> real \<Rightarrow> int \<Rightarrow> int \<Rightarrow> real \<Rightarrow> real option" where
  "callibrate_loop cnt tick i j oldt oldc e cpt =
     (if e < NEVENT
      then let newt = cnt i in
           if newt - oldt \<ge> THRESHOLD
           then let newc = tick j in
                if newc > oldc
                then callibrate_loop cnt tick (Suc i) (Suc j) newt newc (e + 1)
                       (record_event cpt newt oldt newc oldc)
                else callibrate_loop cnt tick (Suc i) (Suc j) newt oldc e cpt
           else callibrate_loop cnt tick (Suc i) j oldt oldc e cpt
      else Some cpt)"

definition callibrate :: "(nat \<Rightarrow> real) \<Rightarrow> (nat \<Rightarrow> int) \<Rightarrow> real \<Rightarrow> real option" where
  "callibrate cnt tick cyc_per_tick = callibrate_loop cnt tick 1 1 (cnt 0) (tick 0) 0 cyc_per_tick"

text \<open>\<open>start_comp_counter\<close> calibrates on first use; \<open>utime\<close> is the user time it then reads.\<close>

record comp_st =
  cyc_per_tick :: real
  start_tick :: int
  cyc :: counter_st

definition start_comp_counter ::
  "(nat \<Rightarrow> real) \<Rightarrow> (nat \<Rightarrow> int) \<Rightarrow> int \<Rightarrow> 32 word \<times> 32 word \<Rightarrow> comp_st \<Rightarrow> comp_st option" where
  "start_comp_counter cnt tick utime tsc s =
     map_option
       (\<lambda>cpt. s\<lparr>cyc_per_tick := cpt, start_tick := utime, cyc := start_counter tsc (cyc s)\<rparr>)
       (if cyc_per_tick s = 0 then callibrate cnt tick (cyc_per_tick s) else Some (cyc_per_tick s))"

definition get_comp_counter :: "32 word \<times> 32 word \<Rightarrow> int \<Rightarrow> comp_st \<Rightarrow> real" where
  "get_comp_counter tsc utime s =
     (let time = get_counter tsc (cyc s); ticks = utime - start_tick s
      in time - of_int ticks * cyc_per_tick s)"

section \<open>Timers in seconds\<close>

record timeval =
  tv_sec :: int
  tv_usec :: int

text \<open>\<open>for (i = 0; i < n; i++) f(argp);\<close>\<close>

fun repeat_calls :: "('s \<Rightarrow> 's res) \<Rightarrow> nat \<Rightarrow> 's \<Rightarrow> 's res" where
  "repeat_calls f 0 s = Inr s"
| "repeat_calls f (Suc n) s = res_bind (f s) (\<lambda>s'. repeat_calls f n s')"

definition ftimer_gettod ::
  "timeval \<Rightarrow> timeval \<Rightarrow> ('s \<Rightarrow> 's res) \<Rightarrow> int \<Rightarrow> 's \<Rightarrow> (real \<times> 's) res" where
  "ftimer_gettod stv etv f n s =
     res_bind (repeat_calls f (nat n) s) (\<lambda>s'.
     (let diff = 10 ^ 3 * of_int (tv_sec etv - tv_sec stv) + (1 / 10 ^ 3) * of_int (tv_usec etv - tv_usec stv);
          diff' = diff / of_int n
      in Inr ((1 / 10 ^ 3) * diff', s')))"

definition MAX_ETIME :: int where "MAX_ETIME = 86400"

record itimers =
  first_u :: timeval
  first_r :: timeval
  first_p :: timeval

definition init_etime :: "itimers" where
  "init_etime = (let v = \<lparr>tv_sec = MAX_ETIME, tv_usec = 0\<rparr> in \<lparr>first_u = v, first_r = v, first_p = v\<rparr>)"

text \<open>\<open>r_curr\<close> is what \<open>getitimer(ITIMER_REAL)\<close> stores; the other two timers are read and not used.\<close>

definition get_etime :: "itimers \<Rightarrow> timeval \<Rightarrow> real" where
  "get_etime t r_curr =
     of_int (tv_sec (first_p t) - tv_sec r_curr) +
     of_int (tv_usec (first_p t) - tv_usec r_curr) * (1 / 10 ^ 6)"

definition ftimer_itimer ::
  "timeval \<Rightarrow> timeval \<Rightarrow> ('s \<Rightarrow> 's res) \<Rightarrow> int \<Rightarrow> 's \<Rightarrow> (real \<times> 's) res" where
  "ftimer_itimer r1 r2 f n s =
     (let t = init_etime; start = get_etime t r1 in
      res_bind (repeat_calls f (nat n) s) (\<lambda>s'.
      (let tmeas = get_etime t r2 - start in Inr (tmeas / of_int n, s'))))"

text \<open>\<open>fsecs\<close> as \<open>config.h\<close> selects it (\<open>USE_GETTOD\<close>): ten runs by the time of day.\<close>

definition fsecs :: "timeval \<Rightarrow> timeval \<Rightarrow> ('s \<Rightarrow> 's res) \<Rightarrow> 's \<Rightarrow> (real \<times> 's) res" where
  "fsecs stv etv f s = ftimer_gettod stv etv f 10 s"

definition init_fsecs :: real where "init_fsecs = 0"

section \<open>The counters measure elapsed cycles\<close>

definition tsc_value :: "32 word \<times> 32 word \<Rightarrow> int" where
  "tsc_value t = uint (fst t) * 2 ^ 32 + uint (snd t)"

lemma pair_mod:
  fixes h l b :: int
  assumes "0 \<le> l" and "l < b"
  shows "(h * b + l) mod (b * b) = h mod b * b + l"
proof -
  have "(h * b + l) div b = h" "(h * b + l) mod b = l" using assms by simp_all
  then show ?thesis using zmod_zmult2_eq [of b "h * b + l" b] assms by simp
qed

lemma borrow_sub:
  fixes l1 l2 :: "32 word"
  shows "l2 - l1 > l2 \<longleftrightarrow> uint l2 < uint l1"
    and "uint (l2 - l1) = uint l2 - uint l1 + (if uint l2 < uint l1 then 2 ^ 32 else 0)"
proof -
  have "0 \<le> uint l1" "uint l1 < 2 ^ 32" "0 \<le> uint l2" "uint l2 < 2 ^ 32"
    using uint_lt2p [of l1] uint_lt2p [of l2] by simp_all
  then show "l2 - l1 > l2 \<longleftrightarrow> uint l2 < uint l1"
    "uint (l2 - l1) = uint l2 - uint l1 + (if uint l2 < uint l1 then 2 ^ 32 else 0)"
    by (auto simp: word_less_def uint_sub_if' split: if_splits)
qed

lemma uint_sub2: "uint (a - b - c) = (uint a - uint b - uint c) mod 2 ^ 32" for a b c :: "32 word"
  by (simp add: uint_word_ariths mod_diff_left_eq)

lemma get_counter_start:
  "get_counter t2 (start_counter t1 c) = of_int ((tsc_value t2 - tsc_value t1) mod 2 ^ 64)"
proof -
  obtain h1 l1 h2 l2 where t: "t1 = (h1, l1)" "t2 = (h2, l2)" by (cases t1, cases t2)
  let ?b = "if l2 - l1 > l2 then 1 else 0 :: 32 word"
  let ?H = "uint h2 - uint h1 - uint ?b" and ?L = "uint (l2 - l1)"
  have "tsc_value t2 - tsc_value t1 = ?H * 2 ^ 32 + ?L"
    unfolding borrow_sub (1) borrow_sub (2) [of l2 l1] by (simp add: tsc_value_def t algebra_simps)
  moreover have "0 \<le> ?L" "?L < 2 ^ 32" using uint_lt2p [of "l2 - l1"] by simp_all
  ultimately have "(tsc_value t2 - tsc_value t1) mod (2 ^ 32 * 2 ^ 32) = ?H mod 2 ^ 32 * 2 ^ 32 + ?L"
    by (simp only: pair_mod)
  then have eq: "(tsc_value t2 - tsc_value t1) mod 2 ^ 64 = uint (h2 - h1 - ?b) * (2 ^ 30 * 4) + ?L"
    unfolding uint_sub2 by simp
  show ?thesis
    unfolding eq by (simp add: get_counter_def start_counter_def access_counter_def t Let_def)
qed

text \<open>
  The 32-bit subtraction with borrow is exact: between \<open>start_counter\<close> and \<open>get_counter\<close> the
  number of cycles returned is the difference of the two 64-bit counter values modulo \<open>2\<^sup>6\<^sup>4\<close>; it is
  never negative.
\<close>

theorem get_counter_elapsed:
  "get_counter t2 (start_counter t1 c) = of_int ((tsc_value t2 - tsc_value t1) mod 2 ^ 64)"
  by (rule get_counter_start)

text \<open>
  On the Alpha, where only the low half is read, a counter that has wrapped since it was
  started makes the borrow run into the high half: the result is too large by \<open>2\<^sup>6\<^sup>4 - 2\<^sup>3\<^sup>2\<close>.
\<close>

theorem get_counter_alpha_wrapped:
  assumes "n2 < n1"
  shows "get_counter_alpha n2 (start_counter_alpha n1 c) =
    of_int ((uint n2 - uint n1) mod 2 ^ 32 + (2 ^ 64 - 2 ^ 32))"
proof -
  have "uint n2 < uint n1" using assms by (simp add: word_less_def)
  then have b: "n2 - n1 > n2" by (simp add: borrow_sub)
  have "(uint n2 - uint n1) mod 2 ^ 32 = uint (n2 - n1)" by (simp add: uint_word_ariths)
  then show ?thesis
    using b by (simp add: get_counter_alpha_def start_counter_alpha_def Let_def
        unsigned_minus_1_eq_mask mask_eq_exp_minus_1 del: of_int_uint)
qed

theorem get_counter_alpha_wrapped_witness:
  "get_counter_alpha 5 (start_counter_alpha 4294967295 \<lparr>cyc_hi = 0, cyc_lo = 0\<rparr>) = 18446744069414584326"
  using get_counter_alpha_wrapped [of 5 4294967295] by simp

section \<open>Calibration\<close>

lemma record_event_cases:
  "record_event cpt newt oldt newc oldc = cpt \<or>
   record_event cpt newt oldt newc oldc > RECORDTHRESH \<and> (cpt = 0 \<or> record_event cpt newt oldt newc oldc < cpt)"
  by (auto simp: record_event_def Let_def)

text \<open>The clocks keep running: the readings of the counter and the user times pass every bound in the end.\<close>

definition clocks_run :: "(nat \<Rightarrow> real) \<Rightarrow> (nat \<Rightarrow> int) \<Rightarrow> bool" where
  "clocks_run cnt tick \<longleftrightarrow> (\<forall>B i. \<exists>n. B \<le> cnt (i + n)) \<and> (\<forall>b j. \<exists>n. b < tick (j + n))"

text \<open>Readings that are too close to the last one are skipped.\<close>

lemma callibrate_skip:
  assumes "e < NEVENT" and "THRESHOLD \<le> cnt (i + n) - oldt"
  shows "\<exists>i'. THRESHOLD \<le> cnt i' - oldt \<and>
    callibrate_loop cnt tick i j oldt oldc e cpt = callibrate_loop cnt tick i' j oldt oldc e cpt"
  using assms(2)
proof (induction n arbitrary: i)
  case (Suc n)
  show ?case
  proof (cases "THRESHOLD \<le> cnt i - oldt")
    case False
    then have "callibrate_loop cnt tick i j oldt oldc e cpt = callibrate_loop cnt tick (Suc i) j oldt oldc e cpt"
      using assms(1) by (subst callibrate_loop.simps) simp
    with Suc.IH [of "Suc i"] Suc.prems show ?thesis by simp
  qed blast
qed auto

text \<open>In the end a tick is seen, and the event is recorded.\<close>

lemma callibrate_event:
  assumes run: "clocks_run cnt tick" and e: "e < NEVENT" and "oldc < tick (j + n)"
  shows "\<exists>i' j' newt oldt' newc. callibrate_loop cnt tick i j oldt oldc e cpt =
    callibrate_loop cnt tick i' j' newt newc (e + 1) (record_event cpt newt oldt' newc oldc)"
  using assms(3)
proof (induction n arbitrary: i j oldt)
  case (0 i j oldt)
  obtain n where "oldt + THRESHOLD \<le> cnt (i + n)" using run unfolding clocks_run_def by blast
  then obtain i' where i': "THRESHOLD \<le> cnt i' - oldt"
    "callibrate_loop cnt tick i j oldt oldc e cpt = callibrate_loop cnt tick i' j oldt oldc e cpt"
    using callibrate_skip [OF e, of cnt i n oldt] by force
  note i'(2)
  also have "callibrate_loop cnt tick i' j oldt oldc e cpt =
      callibrate_loop cnt tick (Suc i') (Suc j) (cnt i') (tick j) (e + 1) (record_event cpt (cnt i') oldt (tick j) oldc)"
    using i'(1) e 0 by (subst callibrate_loop.simps) (simp add: Let_def)
  finally show ?case by blast
next
  case (Suc n i j oldt)
  obtain m where "oldt + THRESHOLD \<le> cnt (i + m)" using run unfolding clocks_run_def by blast
  then obtain i' where i': "THRESHOLD \<le> cnt i' - oldt"
    "callibrate_loop cnt tick i j oldt oldc e cpt = callibrate_loop cnt tick i' j oldt oldc e cpt"
    using callibrate_skip [OF e, of cnt i m oldt] by force
  show ?case
  proof (cases "oldc < tick j")
    case True
    note i'(2)
    also have "callibrate_loop cnt tick i' j oldt oldc e cpt =
      callibrate_loop cnt tick (Suc i') (Suc j) (cnt i') (tick j) (e + 1) (record_event cpt (cnt i') oldt (tick j) oldc)"
      using i'(1) e True by (subst callibrate_loop.simps) (simp add: Let_def)
    finally show ?thesis by blast
  next
    case False
    then have "callibrate_loop cnt tick i' j oldt oldc e cpt =
        callibrate_loop cnt tick (Suc i') (Suc j) (cnt i') oldc e cpt"
      using i'(1) e by (subst callibrate_loop.simps) (simp add: Let_def)
    with i'(2) Suc.IH [of "Suc j" "Suc i'" "cnt i'"] Suc.prems show ?thesis by simp
  qed
qed

lemma callibrate_loop_returns:
  assumes run: "clocks_run cnt tick"
  shows "\<exists>r. callibrate_loop cnt tick i j oldt oldc e cpt = Some r \<and>
    (r = cpt \<or> r > RECORDTHRESH \<and> (cpt = 0 \<or> r < cpt))"
proof (induction "nat (NEVENT - e)" arbitrary: e cpt i j oldt oldc)
  case 0
  then show ?case by (subst callibrate_loop.simps) simp
next
  case (Suc k)
  have e: "e < NEVENT" "k = nat (NEVENT - (e + 1))" using Suc.hyps(2) by auto
  obtain n where "oldc < tick (j + n)" using run unfolding clocks_run_def by blast
  from callibrate_event [OF run e(1) this, of i oldt cpt]
  obtain i' j' newt oldt' newc where ev: "callibrate_loop cnt tick i j oldt oldc e cpt =
    callibrate_loop cnt tick i' j' newt newc (e + 1) (record_event cpt newt oldt' newc oldc)"
    by blast
  let ?c = "record_event cpt newt oldt' newc oldc"
  obtain r where "callibrate_loop cnt tick i' j' newt newc (e + 1) ?c = Some r"
    "r = ?c \<or> r > RECORDTHRESH \<and> (?c = 0 \<or> r < ?c)"
    using Suc.hyps(1) [OF e(2), of i' j' newt newc ?c] by blast
  with ev record_event_cases [of cpt newt oldt' newc oldc] show ?case by (auto simp: RECORDTHRESH_def)
qed

text \<open>
  Calibration ends when the clocks keep running, and the cycles per tick are as before or a value
  above 3000, smaller than a calibrated one.
\<close>

theorem callibrate_returns:
  assumes "clocks_run cnt tick"
  shows "\<exists>r. callibrate cnt tick cpt = Some r \<and> (r = cpt \<or> r > RECORDTHRESH \<and> (cpt = 0 \<or> r < cpt))"
  unfolding callibrate_def by (rule callibrate_loop_returns [OF assms])

lemma clocks_run_linear: "clocks_run (\<lambda>i. 5000 * real i) int"
  unfolding clocks_run_def
proof (intro conjI allI)
  fix B :: real and i
  obtain n where "B / 5000 \<le> real n" using real_arch_simple by blast
  then have "B \<le> 5000 * real (i + n)" by simp
  then show "\<exists>n. B \<le> 5000 * real (i + n)" ..
next
  fix b :: int and j
  have "b < int (j + nat (b + 1))" by simp
  then show "\<exists>n. b < int (j + n)" ..
qed

theorem callibrate_returns_witness:
  "\<exists>r. callibrate (\<lambda>i. 5000 * real i) int 0 = Some r \<and> (r = 0 \<or> r > RECORDTHRESH)"
  using callibrate_returns [OF clocks_run_linear, of 0] by auto

section \<open>The timers average elapsed time\<close>

definition usecs :: "timeval \<Rightarrow> int" where
  "usecs t = tv_sec t * 10 ^ 6 + tv_usec t"

text \<open>
  \<open>fsecs\<close> runs the function ten times and returns a tenth of the time between the two readings
  of the clock, in seconds.
\<close>

theorem fsecs_average:
  assumes "repeat_calls f 10 s = Inr s'"
  shows "fsecs stv etv f s = Inr (of_int (usecs etv - usecs stv) / (10 * 10 ^ 6), s')"
  using assms by (simp add: fsecs_def ftimer_gettod_def usecs_def Let_def field_simps)

theorem fsecs_average_witness:
  "fsecs \<lparr>tv_sec = 7, tv_usec = 900000\<rparr> \<lparr>tv_sec = 8, tv_usec = 100000\<rparr> (\<lambda>n::int. Inr (n + 1)) 0 =
     Inr (1 / 50, 10)"
  using fsecs_average [of "\<lambda>n::int. Inr (n + 1)" 0 10 "\<lparr>tv_sec = 7, tv_usec = 900000\<rparr>"
      "\<lparr>tv_sec = 8, tv_usec = 100000\<rparr>"]
  by (simp add: numeral_eq_Suc usecs_def)

end
