(* ===== verification/Mdriver_Main.thy ===== *)
theory Mdriver_Main
  imports Mdriver_Eval Clock
begin

text \<open>
  The rest of \<open>malloclab/mdriver.c\<close>: the evaluation of the C library's allocator, the performance
  index, the result tables and \<open>main\<close>. The C library's allocator is the parameter \<open>libc\<close> over a state
  of its own; the clock readings, the options \<open>getopt\<close> delivers and the trace files are arguments.
  \<open>double\<close>s are real numbers.
\<close>

section \<open>The C library's allocator\<close>

record 'h libc_pkg =
  l_malloc :: "'h \<Rightarrow> size_t \<Rightarrow> addr \<times> 'h"
  l_realloc :: "'h \<Rightarrow> addr \<Rightarrow> size_t \<Rightarrow> addr \<times> 'h"
  l_free :: "'h \<Rightarrow> addr \<Rightarrow> 'h"

text \<open>
  One request. Both evaluations end the process when a call fails: \<open>eval_libc_valid\<close> counts and
  reports the error first, but the process ends either way.
\<close>

definition libc_op :: "'h libc_pkg \<Rightarrow> 'h \<times> trace_t \<Rightarrow> traceop_t \<Rightarrow> ('h \<times> trace_t) res" where
  "libc_op libc st p =
     (let (h, tr) = st in
      case op_type p of
        ALLOC \<Rightarrow>
          (let (q, h1) = l_malloc libc h (word_of_int (op_size p)) in
           if q = NULL then unix_error
           else res_bind (put_arr (blocks tr) (op_index p) q) (\<lambda>bs. Inr (h1, tr\<lparr>blocks := bs\<rparr>)))
      | REALLOC \<Rightarrow>
          res_bind (get_arr (blocks tr) (op_index p)) (\<lambda>oldp.
          (let (newp, h1) = l_realloc libc h oldp (word_of_int (op_size p)) in
           if newp = NULL then unix_error
           else res_bind (put_arr (blocks tr) (op_index p) newp) (\<lambda>bs. Inr (h1, tr\<lparr>blocks := bs\<rparr>))))
      | FREE \<Rightarrow>
          res_bind (get_arr (blocks tr) (op_index p)) (\<lambda>q. Inr (l_free libc h q, tr)))"

fun libc_loop :: "'h libc_pkg \<Rightarrow> nat \<Rightarrow> int \<Rightarrow> 'h \<times> trace_t \<Rightarrow> ('h \<times> trace_t) res" where
  "libc_loop libc 0 i st = Inr st"
| "libc_loop libc (Suc k) i st =
     res_bind (get_arr (ops (snd st)) i) (\<lambda>p.
     res_bind (libc_op libc st p) (\<lambda>st'. libc_loop libc k (i + 1) st'))"

definition eval_libc_valid :: "'h libc_pkg \<Rightarrow> 'h \<times> trace_t \<Rightarrow> (int \<times> 'h \<times> trace_t) res" where
  "eval_libc_valid libc st =
     res_bind (libc_loop libc (nat (num_ops (snd st))) 0 st) (\<lambda>(h, tr). Inr (1, h, tr))"

definition eval_libc_speed :: "'h libc_pkg \<Rightarrow> 'h \<times> trace_t \<Rightarrow> ('h \<times> trace_t) res" where
  "eval_libc_speed libc st = libc_loop libc (nat (num_ops (snd st))) 0 st"

section \<open>Statistics\<close>

record stats_t =
  st_ops :: real
  st_valid :: int
  st_secs :: real
  st_util :: real
  st_thru_ratio :: real
  st_perfindex :: int

text \<open>\<open>calloc\<close> zeroes the array.\<close>

definition zero_stats :: stats_t where
  "zero_stats = \<lparr>st_ops = 0, st_valid = 0, st_secs = 0, st_util = 0, st_thru_ratio = 0, st_perfindex = 0\<rparr>"

definition UTIL_WEIGHT :: real where "UTIL_WEIGHT = 60 / 100"

text \<open>
  The conversion of a \<open>double\<close> to \<open>int\<close> drops the fraction. The quotients stand for those of C where
  the times are positive: for a time of 0 the quotient of C is infinite or not a number, and that of
  \<open>real\<close> is 0. What is shown of the index below assumes positive times.
\<close>

definition trunc :: "real \<Rightarrow> int" where
  "trunc x = (if x \<ge> 0 then \<lfloor>x\<rfloor> else \<lceil>x\<rceil>)"

definition perfindex_one :: "stats_t \<Rightarrow> stats_t \<Rightarrow> stats_t" where
  "perfindex_one libc st =
     (if st_valid st \<noteq> 0
      then (let avg_mm_throughput = st_ops st / st_secs st;
                avg_libc_throughput = st_ops libc / st_secs libc;
                p1 = UTIL_WEIGHT * st_util st;
                p2 = (if avg_mm_throughput > avg_libc_throughput then 1 - UTIL_WEIGHT
                      else (1 - UTIL_WEIGHT) * (avg_mm_throughput / avg_libc_throughput))
            in st\<lparr>st_perfindex := trunc ((p1 + p2) * 100),
                  st_thru_ratio := avg_mm_throughput / avg_libc_throughput\<rparr>)
      else st\<lparr>st_perfindex := 0, st_thru_ratio := 0\<rparr>)"

definition calculate_perfindex :: "stats_t list \<Rightarrow> stats_t list \<Rightarrow> stats_t list" where
  "calculate_perfindex libc_stats stats = map2 perfindex_one libc_stats stats"

text \<open>The lines of a result table: the numbers each valid trace prints, or that it is not valid.\<close>

datatype result_line =
    ValidLine int real real real real "int option"
  | InvalidLine int

definition printresults :: "stats_t list \<Rightarrow> bool \<Rightarrow> result_line list" where
  "printresults stats perfindex =
     map (\<lambda>(i, st).
       if st_valid st \<noteq> 0
       then ValidLine i (st_util st * 100) (st_ops st) (st_secs st) (st_ops st / 10 ^ 3 / st_secs st)
              (if perfindex then Some (st_perfindex st) else None)
       else InvalidLine i)
     (zip [0..int (length stats) - 1] stats)"

section \<open>The command line\<close>

record options =
  autograder :: int
  verbose :: int
  tracedir :: string
  tracefiles :: "string list option"

definition TRACEDIR :: string where "TRACEDIR = ''./traces/''"

definition default_options :: options where
  "default_options = \<lparr>autograder = 0, verbose = 0, tracedir = TRACEDIR, tracefiles = None\<rparr>"

text \<open>
  One option, with its argument. A path that does not fit \<open>tracedir\<close> or an empty \<open>-t\<close> argument is
  an access outside the array; \<open>-l\<close>, announced by the usage text, is not among the cases.
\<close>

definition handle_option :: "char \<times> string \<Rightarrow> options \<Rightarrow> options res" where
  "handle_option opt o1 =
     (let (c, optarg) = opt in
      if c = CHR ''g'' then Inr (o1\<lparr>autograder := 1\<rparr>)
      else if c = CHR ''f'' then Inr (o1\<lparr>tracefiles := Some [optarg], tracedir := ''./''\<rparr>)
      else if c = CHR ''t'' then
        (if tracefiles o1 \<noteq> None then Inr o1
         else if length optarg \<ge> MAXLINE then Inl OutOfBounds
         else if optarg = [] then Inl OutOfBounds
         else if last optarg \<noteq> CHR ''/'' then
           (if Suc (length optarg) \<ge> MAXLINE then Inl OutOfBounds
            else Inr (o1\<lparr>tracedir := optarg @ ''/''\<rparr>))
         else Inr (o1\<lparr>tracedir := optarg\<rparr>))
      else if c = CHR ''v'' then Inr (o1\<lparr>verbose := 1\<rparr>)
      else if c = CHR ''V'' then Inr (o1\<lparr>verbose := 2\<rparr>)
      else if c = CHR ''h'' then Inl (Exit 0)
      else Inl (Exit 1))"

fun handle_options :: "(char \<times> string) list \<Rightarrow> options \<Rightarrow> options res" where
  "handle_options [] o1 = Inr o1"
| "handle_options (opt # opts) o1 = res_bind (handle_option opt o1) (handle_options opts)"

definition DEFAULT_TRACEFILES :: "string list" where
  "DEFAULT_TRACEFILES =
     [''amptjp-bal.rep'', ''cccp-bal.rep'', ''cp-decl-bal.rep'', ''expr-bal.rep'',
      ''coalescing-bal.rep'', ''random-bal.rep'', ''random2-bal.rep'', ''binary-bal.rep'',
      ''binary2-bal.rep'', ''realloc-bal.rep'', ''realloc2-bal.rep'']"

section \<open>The evaluation loops of main\<close>

text \<open>
  What surrounds the driver: the files, the contents of fresh memory, and the two clock readings
  around the timed runs of each trace.
\<close>

record env =
  file_of :: "string \<Rightarrow> string option"
  fresh_mem :: uninit
  can_malloc :: "nat \<Rightarrow> size_t \<Rightarrow> bool"
  new_block :: new_addr
  clock_libc :: "nat \<Rightarrow> timeval \<times> timeval"
  clock_mm :: "nat \<Rightarrow> timeval \<times> timeval"

text \<open>
  \<open>read_trace\<close> puts the directory and the name together in an array of \<open>MAXLINE\<close> characters, and the path
  into a message in another one when it cannot open the file; neither length is checked.
\<close>

definition load_trace :: "env \<Rightarrow> string \<Rightarrow> string \<Rightarrow> trace_t res" where
  "load_trace e dir name =
     (let path = dir @ name in
      if \<not> can_malloc e 1 40 then unix_error
      else if length path \<ge> MAXLINE then Inl OutOfBounds
      else if file_of e path = None \<and> length (''Could not open '' @ path @ '' in read_trace'') \<ge> MAXLINE
      then Inl OutOfBounds
      else read_trace (fresh_mem e) (can_malloc e) (file_of e path))"

definition libc_trace ::
  "env \<Rightarrow> 'h libc_pkg \<Rightarrow> string \<Rightarrow> nat \<Rightarrow> string \<Rightarrow> 'h \<Rightarrow> (stats_t \<times> 'h) res" where
  "libc_trace e libc dir i name h =
     res_bind (load_trace e dir name) (\<lambda>tr.
     res_bind (eval_libc_valid libc (h, tr)) (\<lambda>(valid, h1, tr1).
     (let st = zero_stats\<lparr>st_ops := of_int (num_ops tr), st_valid := valid\<rparr> in
      if valid \<noteq> 0
      then res_bind (fsecs (fst (clock_libc e i)) (snd (clock_libc e i)) (eval_libc_speed libc) (h1, tr1))
             (\<lambda>(secs, h2, tr2). Inr (st\<lparr>st_secs := secs\<rparr>, h2))
      else Inr (st, h1))))"

text \<open>The state of the driver between traces: its reports, the heap and the range list.\<close>

record mm_st =
  m_drv :: mdriver
  m_mem :: memlib
  m_ranges :: "range_t list"

definition mm_trace ::
  "env \<Rightarrow> mm_pkg \<Rightarrow> string \<Rightarrow> nat \<Rightarrow> string \<Rightarrow> mm_st \<Rightarrow> (stats_t \<times> mm_st) res" where
  "mm_trace e pkg dir i name s =
     res_bind (load_trace e dir name) (\<lambda>tr.
     res_bind (eval_mm_valid pkg \<lparr>v_drv = m_drv s, v_mem = m_mem s, v_ranges = m_ranges s, v_trace = tr\<rparr>
       (int i)) (\<lambda>(valid, v).
     (let st = zero_stats\<lparr>st_ops := of_int (num_ops tr), st_valid := valid\<rparr>;
          s1 = \<lparr>m_drv = v_drv v, m_mem = v_mem v, m_ranges = v_ranges v\<rparr> in
      if valid \<noteq> 0
      then
        res_bind (eval_mm_util pkg (v_mem v) (v_trace v)) (\<lambda>(mx, hs, mem1, tr1).
        res_bind (fsecs (fst (clock_mm e i)) (snd (clock_mm e i))
                    (\<lambda>(m, t). eval_mm_speed pkg m t) (mem1, tr1)) (\<lambda>(secs, mem2, tr2).
        Inr (st\<lparr>st_util := of_int mx / of_int (uint hs), st_secs := secs\<rparr>, s1\<lparr>m_mem := mem2\<rparr>)))
      else Inr (st, s1))))"

fun trace_loop ::
  "(nat \<Rightarrow> string \<Rightarrow> 's \<Rightarrow> (stats_t \<times> 's) res) \<Rightarrow> nat \<Rightarrow> string list \<Rightarrow> 's \<Rightarrow> (stats_t list \<times> 's) res" where
  "trace_loop one i [] s = Inr ([], s)"
| "trace_loop one i (f # fs) s =
     res_bind (one i f s) (\<lambda>(st, s1).
     res_bind (trace_loop one (Suc i) fs s1) (\<lambda>(sts, s2). Inr (st # sts, s2)))"

text \<open>
  The body of either loop allocates the memory of the trace before it evaluates it and frees it
  afterwards.
\<close>

definition with_trace ::
  "new_addr \<Rightarrow> (nat \<Rightarrow> string \<Rightarrow> 's \<Rightarrow> (stats_t \<times> 's) res) \<Rightarrow> nat \<Rightarrow> string \<Rightarrow> 's \<times> ledger \<Rightarrow>
     (stats_t \<times> 's \<times> ledger) res" where
  "with_trace new one i f sl =
     (let (s, l) = sl; (tp, l1) = trace_mallocs new l in
      res_bind (one i f s) (\<lambda>(st, s1).
      res_bind (free_trace tp l1) (\<lambda>l2. Inr (st, s1, l2))))"

section \<open>The memory of main\<close>

text \<open>
  Each \<open>-f\<close> reallocates the array of names, \<open>tracefiles\<close>, and stores a copy of its argument over the
  first element; the state is the two pointers, \<open>NULL\<close> at the start. Whether the copy succeeded is not
  checked.
\<close>

fun option_mem :: "new_addr \<Rightarrow> (char \<times> string) list \<Rightarrow> (addr \<times> addr) \<times> ledger \<Rightarrow> ((addr \<times> addr) \<times> ledger) res" where
  "option_mem new [] st = Inr st"
| "option_mem new ((c, optarg) # opts) ((arr, name), l) =
     (if c = CHR ''f''
      then res_bind (led_free arr l) (\<lambda>l1.
             (let (arr', l2) = led_malloc new l1 in
              if arr' = NULL then unix_error
              else (let (name', l3) = led_malloc new l2 in option_mem new opts ((arr', name'), l3))))
      else option_mem new opts ((arr, name), l))"

text \<open>The end of \<open>main\<close>: the names and their array unless they are the default ones, and the two tables.\<close>

definition main_cleanup :: "bool \<Rightarrow> addr \<times> addr \<Rightarrow> addr \<Rightarrow> addr \<Rightarrow> ledger \<Rightarrow> ledger res" where
  "main_cleanup using_default_traces names libc_stats mm_stats l =
     res_bind
       (if using_default_traces then Inr l
        else res_bind (if snd names \<noteq> NULL then led_free (snd names) l else Inr l) (led_free (fst names)))
       (\<lambda>l1. res_bind (led_free libc_stats l1) (led_free mm_stats))"

text \<open>The summary \<open>main\<close> prints: traces passed, traces run, the average index and the error count.\<close>

record summary =
  sm_correct :: int
  sm_total :: int
  sm_index :: real
  sm_errors :: int
  sm_libc_table :: "result_line list option"
  sm_mm_table :: "result_line list option"

definition summarize :: "options \<Rightarrow> stats_t list \<Rightarrow> stats_t list \<Rightarrow> int \<Rightarrow> summary" where
  "summarize o1 libc_stats mm_stats errs =
     \<lparr>sm_correct = int (length (filter (\<lambda>st. st_valid st \<noteq> 0) mm_stats)),
      sm_total = int (length mm_stats),
      sm_index = (\<Sum>st\<leftarrow>filter (\<lambda>st. st_valid st \<noteq> 0) mm_stats. of_int (st_perfindex st)) /
                 of_int (int (length mm_stats)),
      sm_errors = errs,
      sm_libc_table = (if verbose o1 \<noteq> 0 then Some (printresults libc_stats False) else None),
      sm_mm_table = (if verbose o1 \<noteq> 0 then Some (printresults mm_stats True) else None)\<rparr>"

text \<open>
  What \<open>main\<close> leaves behind at its \<open>exit(0)\<close>: the blocks it took for itself that are still allocated,
  the heap of \<open>mem_init\<close>, the error count and the nodes of the range list with the list.
\<close>

record main_end =
  me_ledger :: ledger
  me_mem :: memlib
  me_drv :: mdriver
  me_ranges :: "range_t list"

text \<open>
  \<open>main\<close>, with \<open>blk\<close> the address \<open>malloc\<close> gives \<open>mem_init\<close>. A name that could not be copied is used by
  the first \<open>read_trace\<close>. Its value is what it printed and what it leaves behind.
\<close>

definition mdriver_main ::
  "env \<Rightarrow> 'h libc_pkg \<Rightarrow> mm_pkg \<Rightarrow> addr \<Rightarrow> (char \<times> string) list \<Rightarrow> 'h \<Rightarrow> mdriver \<Rightarrow> memlib \<Rightarrow>
     (summary \<times> main_end) res" where
  "mdriver_main e libc pkg blk opts h d mem =
     res_bind (handle_options opts default_options) (\<lambda>o1.
     res_bind (option_mem (new_block e) opts ((NULL, NULL), led_empty)) (\<lambda>(names, l0).
     (let files = (case tracefiles o1 of None \<Rightarrow> DEFAULT_TRACEFILES | Some fs \<Rightarrow> fs);
          (libc_table, l1) = led_malloc (new_block e) l0 in
      if libc_table = NULL then unix_error
      else if tracefiles o1 \<noteq> None \<and> snd names = NULL then Inl NullDeref
      else
      res_bind (trace_loop (with_trace (new_block e) (libc_trace e libc (tracedir o1))) 0 files (h, l1))
        (\<lambda>(libc_stats, h1, l2).
      (let (mm_table, l3) = led_malloc (new_block e) l2 in
       if mm_table = NULL then unix_error
       else
       res_bind (mem_init blk mem) (\<lambda>mem1.
       res_bind (trace_loop (with_trace (new_block e) (mm_trace e pkg (tracedir o1))) 0 files
                   (\<lparr>m_drv = d, m_mem = mem1, m_ranges = []\<rparr>, l3)) (\<lambda>(mm_stats, s, l4).
       (let mm_stats' = calculate_perfindex libc_stats mm_stats in
        res_bind (main_cleanup (tracefiles o1 = None) names libc_table mm_table l4) (\<lambda>l5.
        res_bind (mem_deinit (m_mem s)) (\<lambda>mem2.
        (let (d2, rs) = clear_ranges (m_drv s) (m_ranges s) in
         Inr (summarize o1 libc_stats mm_stats' (errors d2),
              \<lparr>me_ledger = l5, me_mem = mem2, me_drv = d2, me_ranges = rs\<rparr>))))))))))))"

section \<open>What the evaluations leave of a trace\<close>

text \<open>The evaluations change the arrays of a trace, not its requests nor the lengths.\<close>

definition same_shape :: "trace_t \<Rightarrow> trace_t \<Rightarrow> bool" where
  "same_shape tr tr' \<longleftrightarrow>
     ops tr' = ops tr \<and> num_ids tr' = num_ids tr \<and> num_ops tr' = num_ops tr \<and>
     sugg_heapsize tr' = sugg_heapsize tr \<and> weight tr' = weight tr \<and>
     length (blocks tr') = length (blocks tr) \<and> length (block_sizes tr') = length (block_sizes tr)"

lemma same_shape_refl [simp]: "same_shape tr tr"
  by (simp add: same_shape_def)

lemma same_shape_trans: "same_shape t u \<Longrightarrow> same_shape u v \<Longrightarrow> same_shape t v"
  by (simp add: same_shape_def)

lemma wf_trace_shape: "same_shape tr tr' \<Longrightarrow> wf_trace tr' = wf_trace tr"
  by (simp add: same_shape_def wf_trace_def)

lemma put_arr_length: "put_arr xs i v = Inr ys \<Longrightarrow> length ys = length xs"
  by (auto simp: put_arr_def split: if_splits)

lemma put_blocks_shape: "put_arr (blocks tr) i q = Inr bs \<Longrightarrow> same_shape tr (tr\<lparr>blocks := bs\<rparr>)"
  by (auto simp: same_shape_def dest: put_arr_length)

lemma remember_shape: "remember tr i p n = Inr tr' \<Longrightarrow> same_shape tr tr'"
  by (auto simp: remember_def same_shape_def dest!: put_arr_length)

text \<open>The nodes the C library can still serve for the range list, those in it included.\<close>

definition range_pool :: "vstate \<Rightarrow> nat" where
  "range_pool st = libc_avail (v_drv st) + length (v_ranges st)"

definition vstep_keeps :: "vstate \<Rightarrow> vstate \<Rightarrow> bool" where
  "vstep_keeps st st' \<longleftrightarrow> same_shape (v_trace st) (v_trace st') \<and> range_pool st' = range_pool st"

lemma vstep_keeps_trans: "vstep_keeps a b \<Longrightarrow> vstep_keeps b c \<Longrightarrow> vstep_keeps a c"
  by (auto simp: vstep_keeps_def intro: same_shape_trans)

lemma malloc_error_avail [simp]: "libc_avail (malloc_error d t o1 msg) = libc_avail d"
  by (simp add: malloc_error_def)

lemma add_range_pool:
  "add_range d s rs p n t o1 = Inr (ok, d', rs') \<Longrightarrow> libc_avail d' + length rs' = libc_avail d + length rs"
  by (auto simp: add_range_def Let_def unix_error_def split: if_splits option.splits)

lemma remove_range_pool:
  "remove_range d rs p = (d', rs') \<Longrightarrow> libc_avail d' + length rs' = libc_avail d + length rs"
  by (induction rs arbitrary: d' rs') (auto split: if_splits prod.splits)

lemma valid_alloc_keeps:
  "valid_alloc pkg t i st x n = Inr r \<Longrightarrow> (case r of Reject s \<Rightarrow> vstep_keeps st s | Next s \<Rightarrow> vstep_keeps st s)"
  by (auto simp: valid_alloc_def vstep_keeps_def range_pool_def split: if_splits
      dest!: add_range_pool remember_shape)

lemma valid_realloc_keeps:
  "valid_realloc pkg t i st x n = Inr r \<Longrightarrow> (case r of Reject s \<Rightarrow> vstep_keeps st s | Next s \<Rightarrow> vstep_keeps st s)"
  by (auto simp: valid_realloc_def vstep_keeps_def range_pool_def Let_def split: if_splits prod.splits
      dest!: add_range_pool remove_range_pool remember_shape)

lemma valid_free_keeps:
  "valid_free pkg st x = Inr r \<Longrightarrow> (case r of Reject s \<Rightarrow> vstep_keeps st s | Next s \<Rightarrow> vstep_keeps st s)"
  by (auto simp: valid_free_def vstep_keeps_def range_pool_def split: prod.splits dest!: remove_range_pool)

lemma valid_op_keeps:
  "valid_op pkg t i st p = Inr r \<Longrightarrow> (case r of Reject s \<Rightarrow> vstep_keeps st s | Next s \<Rightarrow> vstep_keeps st s)"
  using valid_alloc_keeps valid_realloc_keeps valid_free_keeps
  unfolding valid_op_def by (cases "op_type p") force+

lemma valid_loop_keeps:
  "valid_loop pkg t k i st = Inr (r, st') \<Longrightarrow> vstep_keeps st st'"
proof (induction k arbitrary: i st)
  case 0
  then show ?case by (simp add: vstep_keeps_def)
next
  case (Suc k)
  then obtain p q where q: "valid_op pkg t i st p = Inr q"
    "(case q of Reject s \<Rightarrow> Inr (0, s) | Next s \<Rightarrow> valid_loop pkg t k (i + 1) s) = Inr (r, st')"
    by auto
  from valid_op_keeps [OF q(1)]
  have "case q of Reject s \<Rightarrow> vstep_keeps st s | Next s \<Rightarrow> vstep_keeps st s" .
  with q(2) Suc.IH show ?case by (cases q) (auto intro: vstep_keeps_trans)
qed

lemma eval_mm_valid_keeps: "eval_mm_valid pkg st t = Inr (r, st') \<Longrightarrow> vstep_keeps st st'"
  by (auto simp: eval_mm_valid_def clear_ranges_eq vstep_keeps_def range_pool_def split: if_splits
      dest!: valid_loop_keeps)

lemma util_op_shape: "util_op pkg st p = Inr st' \<Longrightarrow> same_shape (us_trace st) (us_trace st')"
  by (cases "op_type p")
    (auto simp: util_op_def track_total_def app_error_def Let_def split: if_splits dest!: remember_shape)

lemma util_loop_shape: "util_loop pkg k i st = Inr st' \<Longrightarrow> same_shape (us_trace st) (us_trace st')"
  by (induction k arbitrary: i st) (auto dest!: util_op_shape intro: same_shape_trans)

lemma eval_mm_util_shape: "eval_mm_util pkg s tr = Inr (mx, hs, s', tr') \<Longrightarrow> same_shape tr tr'"
  by (auto simp: eval_mm_util_def app_error_def split: if_splits dest!: util_loop_shape)

lemma speed_op_shape: "speed_op pkg st p = Inr st' \<Longrightarrow> same_shape (snd st) (snd st')"
  by (cases "op_type p"; cases st)
    (auto simp: speed_op_def app_error_def Let_def split: if_splits dest!: put_blocks_shape)

lemma speed_loop_shape: "speed_loop pkg k i st = Inr st' \<Longrightarrow> same_shape (snd st) (snd st')"
  by (induction k arbitrary: i st) (auto dest!: speed_op_shape intro: same_shape_trans)

lemma eval_mm_speed_shape: "eval_mm_speed pkg s tr = Inr (s', tr') \<Longrightarrow> same_shape tr tr'"
  by (auto simp: eval_mm_speed_def app_error_def split: if_splits dest!: speed_loop_shape)

section \<open>The driver works on C values\<close>

lemma trace_typed_shape: "same_shape tr tr' \<Longrightarrow> trace_typed tr' = trace_typed tr"
  by (simp add: same_shape_def trace_typed_def)

lemma libc_op_shape: "libc_op libc st p = Inr st' \<Longrightarrow> same_shape (snd st) (snd st')"
  by (cases "op_type p"; cases st)
    (auto simp: libc_op_def unix_error_def Let_def case_prod_beta split: if_splits dest!: put_blocks_shape)

lemma libc_loop_shape: "libc_loop libc k i st = Inr st' \<Longrightarrow> same_shape (snd st) (snd st')"
  by (induction k arbitrary: i st) (auto dest!: libc_op_shape intro: same_shape_trans)

lemma load_trace_typed: "uninit_typed (fresh_mem e) \<Longrightarrow> load_trace e dir f = Inr tr \<Longrightarrow> trace_typed tr"
  by (auto simp: load_trace_def Let_def unix_error_def dest: read_trace_typed split: if_splits)

section \<open>The C library's allocator passes\<close>

text \<open>What the driver expects of the C library: its calls do not fail.\<close>

definition libc_ok :: "'h libc_pkg \<Rightarrow> bool" where
  "libc_ok libc \<longleftrightarrow> (\<forall>h n. fst (l_malloc libc h n) \<noteq> NULL) \<and> (\<forall>h p n. fst (l_realloc libc h p n) \<noteq> NULL)"

lemma libc_op_ok:
  assumes "libc_ok libc" and "wf_op (num_ids tr) A p" and "length (blocks tr) = nat (num_ids tr)"
    and "dom A \<subseteq> {0..<num_ids tr}"
  shows "\<exists>h' tr'. libc_op libc (h, tr) p = Inr (h', tr') \<and> same_shape tr tr' \<and>
    dom (step_live A p) \<subseteq> {0..<num_ids tr}"
proof -
  have idx: "0 \<le> op_index p \<and> op_index p < num_ids tr"
    using assms(2,4) by (cases "op_type p") (auto simp: wf_op_def)
  then have "get_arr (blocks tr) (op_index p) = Inr (blocks tr ! nat (op_index p))"
    "\<And>q. put_arr (blocks tr) (op_index p) q = Inr ((blocks tr)[nat (op_index p) := q])"
    using assms(3) by simp_all
  moreover have "fst (l_malloc libc h n) \<noteq> NULL" "fst (l_realloc libc h q n) \<noteq> NULL" for h q n
    using assms(1) by (auto simp: libc_ok_def)
  ultimately show ?thesis
    using idx assms(4)
    by (cases "op_type p") (auto simp: libc_op_def step_live_def same_shape_def case_prod_beta Let_def)
qed

lemma libc_loop_ok:
  assumes "libc_ok libc" and "drop (nat k) (ops tr) = ps" and "0 \<le> k" and "wf_ops (num_ids tr) A ps"
    and "length (blocks tr) = nat (num_ids tr)" and "dom A \<subseteq> {0..<num_ids tr}"
  shows "\<exists>h' tr'. libc_loop libc (length ps) k (h, tr) = Inr (h', tr') \<and> same_shape tr tr'"
  using assms(2-)
proof (induction ps arbitrary: k h tr A)
  case (Cons p ps)
  note at = drop_eq_Cons [OF Cons.prems(1,2)]
  obtain h1 tr1 where 1: "libc_op libc (h, tr) p = Inr (h1, tr1)" "same_shape tr tr1"
    "dom (step_live A p) \<subseteq> {0..<num_ids tr}"
    using libc_op_ok [OF assms(1), of tr A p h] Cons.prems(3-5) by auto
  have "\<exists>h' tr'. libc_loop libc (length ps) (k + 1) (h1, tr1) = Inr (h', tr') \<and> same_shape tr1 tr'"
    using 1(2,3) Cons.prems at(2) by (intro Cons.IH [where A = "step_live A p"]) (auto simp: same_shape_def)
  with 1 at(1) show ?case by (auto intro: same_shape_trans)
qed simp

lemma eval_libc_ok:
  assumes "libc_ok libc" and "wf_trace tr"
  shows "\<exists>h' tr'. eval_libc_speed libc (h, tr) = Inr (h', tr') \<and>
    eval_libc_valid libc (h, tr) = Inr (1, h', tr') \<and> wf_trace tr'"
  using libc_loop_ok [OF assms(1), of 0 tr "ops tr" Map.empty h] assms(2) wf_trace_shape [of tr]
  by (auto simp: wf_trace_def eval_libc_speed_def eval_libc_valid_def)

text \<open>Ten runs of a step that keeps an invariant.\<close>

lemma repeat_calls_inv:
  assumes "\<And>x. P x \<Longrightarrow> \<exists>y. f x = Inr y \<and> P y" and "P x"
  shows "\<exists>y. repeat_calls f n x = Inr y \<and> P y"
  using assms(2)
proof (induction n arbitrary: x)
  case (Suc n)
  obtain y where "f x = Inr y" "P y" using assms(1) [OF Suc.prems] by blast
  with Suc.IH [of y] show ?case by simp
qed simp

lemma fsecs_inv:
  assumes "\<And>x. P x \<Longrightarrow> \<exists>y. f x = Inr y \<and> P y" and "P x"
  shows "\<exists>secs y. fsecs stv etv f x = Inr (secs, y) \<and> P y"
proof -
  obtain y where "repeat_calls f 10 x = Inr y" "P y"
    using repeat_calls_inv [of P f x 10, OF assms] by blast
  then show ?thesis
    unfolding fsecs_def ftimer_gettod_def Let_def by (simp only: nat_numeral res_bind.simps) blast
qed

section \<open>The loops of main over well-formed trace files\<close>

text \<open>The file \<open>f\<close> holds a trace whose requests are well formed and fit the heap.\<close>

definition good_file :: "(int \<Rightarrow> int) \<Rightarrow> nat \<Rightarrow> env \<Rightarrow> string \<Rightarrow> bool" where
  "good_file cost pool e f \<longleftrightarrow>
     length f < MAXLINE \<and> (\<exists>t. file_of e f = Some (print_trace t) \<and> trace_ok t \<and> wf_ops (num_ids t) Map.empty (ops t) \<and>
        list_all low_index (ops t) \<and> ops_cost cost (ops t) \<le> MAX_HEAP \<and> length (ops t) \<le> pool)"

lemma load_trace_ok:
  assumes "good_file cost pool e (dir @ f)" and "\<And>k n. can_malloc e k n"
  shows "\<exists>tr. load_trace e dir f = Inr tr \<and> wf_trace tr \<and> list_all low_index (ops tr) \<and>
    ops_cost cost (ops tr) \<le> MAX_HEAP \<and> length (ops tr) \<le> pool"
proof -
  obtain t where t: "length (dir @ f) < MAXLINE" "file_of e (dir @ f) = Some (print_trace t)" "trace_ok t"
    "wf_ops (num_ids t) Map.empty (ops t)" "list_all low_index (ops t)" "ops_cost cost (ops t) \<le> MAX_HEAP"
    "length (ops t) \<le> pool"
    using assms(1) by (auto simp: good_file_def)
  moreover have "can_malloc e 1 40" by (rule assms(2))
  ultimately show ?thesis
    using read_trace_print [OF t(3), of "can_malloc e" "fresh_mem e", OF assms(2)]
    by (simp add: load_trace_def wf_trace_def trace_ok_def wf_ops_stored low_index_stored ops_cost_stored)
qed

lemma libc_trace_ok:
  assumes "libc_ok libc" and "good_file cost pool e (dir @ f)" and "\<And>k n. can_malloc e k n"
  shows "\<exists>st h'. libc_trace e libc dir i f h = Inr (st, h') \<and> st_valid st = 1"
proof -
  obtain tr where tr: "load_trace e dir f = Inr tr" "wf_trace tr"
    using load_trace_ok [OF assms(2,3)] by blast
  obtain h1 tr1 where 1: "eval_libc_valid libc (h, tr) = Inr (1, h1, tr1)" "wf_trace tr1"
    using eval_libc_ok [OF assms(1) tr(2), of h] by blast
  have "\<exists>secs y. fsecs (fst (clock_libc e i)) (snd (clock_libc e i)) (eval_libc_speed libc) (h1, tr1) =
      Inr (secs, y) \<and> wf_trace (snd y)"
    using eval_libc_ok [OF assms(1)] 1(2) by (intro fsecs_inv) (auto, metis snd_conv surj_pair)
  with tr(1) 1(1) show ?thesis by (auto simp: libc_trace_def Let_def)
qed

lemma trace_loop_ok:
  assumes "\<And>i f s. f \<in> set fs \<Longrightarrow> P s \<Longrightarrow> \<exists>st s'. one i f s = Inr (st, s') \<and> st_valid st = 1 \<and> P s'"
    and "P s"
  shows "\<exists>sts s'. trace_loop one i fs s = Inr (sts, s') \<and> length sts = length fs \<and>
    (\<forall>st\<in>set sts. st_valid st = 1) \<and> P s'"
  using assms
proof (induction fs arbitrary: i s)
  case (Cons f fs)
  obtain st s1 where 1: "one i f s = Inr (st, s1)" "st_valid st = 1" "P s1"
    using Cons.prems(1) [of f s i] Cons.prems(2) by auto
  obtain sts s' where "trace_loop one (Suc i) fs s1 = Inr (sts, s')" "length sts = length fs"
    "\<forall>st\<in>set sts. st_valid st = 1" "P s'"
    using Cons.IH [of s1 "Suc i"] Cons.prems(1) 1(3) by auto
  with 1 show ?case by auto
qed simp

lemma with_trace_ok:
  assumes "malloc_fresh new" and "finite (l_live l)" and "\<exists>st s'. one i f s = Inr (st, s') \<and> st_valid st = 1 \<and> P s'"
  shows "\<exists>st s' l'. with_trace new one i f (s, l) = Inr (st, s', l') \<and> st_valid st = 1 \<and> P s' \<and> l_live l' = l_live l"
proof -
  obtain tp l1 where tp: "trace_mallocs new l = (tp, l1)" by fastforce
  obtain l2 where "free_trace tp l1 = Inr l2" "l_live l2 = l_live l" using free_trace_ok [OF assms(1,2) tp] by blast
  with tp assms(3) show ?thesis by (auto simp: with_trace_def)
qed

text \<open>A loop over the traces leaves no block of theirs allocated.\<close>

lemma trace_loop_mem_ok:
  assumes new: "malloc_fresh new" "finite (l_live l)"
    and one: "\<And>i f s. f \<in> set fs \<Longrightarrow> P s \<Longrightarrow> \<exists>st s'. one i f s = Inr (st, s') \<and> st_valid st = 1 \<and> P s'" and "P s"
  shows "\<exists>sts s' l'. trace_loop (with_trace new one) i fs (s, l) = Inr (sts, s', l') \<and> length sts = length fs \<and>
    (\<forall>st\<in>set sts. st_valid st = 1) \<and> P s' \<and> l_live l' = l_live l"
proof -
  let ?P = "\<lambda>sl. P (fst sl) \<and> l_live (snd sl) = l_live l"
  have "\<exists>st sl'. with_trace new one i f sl = Inr (st, sl') \<and> st_valid st = 1 \<and> ?P sl'"
    if f: "f \<in> set fs" and sl: "?P sl" for i f sl
  proof -
    have "\<exists>st s'. one i f (fst sl) = Inr (st, s') \<and> st_valid st = 1 \<and> P s'" using one f sl by blast
    with with_trace_ok [OF new(1), of "snd sl" one i f "fst sl" P] new(2) sl show ?thesis by fastforce
  qed
  then have "\<exists>sts sl'. trace_loop (with_trace new one) i fs (s, l) = Inr (sts, sl') \<and> length sts = length fs \<and>
      (\<forall>st\<in>set sts. st_valid st = 1) \<and> ?P sl'"
    by (rule trace_loop_ok) (use assms(4) in simp_all)
  then show ?thesis by fastforce
qed

section \<open>What main leaves allocated\<close>

definition count_f :: "(char \<times> string) list \<Rightarrow> nat" where
  "count_f opts = length (filter (\<lambda>opt. fst opt = CHR ''f'') opts)"

text \<open>The blocks taken for the names after \<open>n\<close> options \<open>-f\<close>: the array and a copy of each argument.\<close>

definition names_inv :: "nat \<Rightarrow> (addr \<times> addr) \<times> ledger \<Rightarrow> bool" where
  "names_inv n st \<longleftrightarrow>
     (let ((arr, name), l) = st in
      finite (l_live l) \<and>
      (if n = 0 then arr = NULL \<and> name = NULL \<and> l_live l = {}
       else arr \<noteq> NULL \<and> name \<noteq> NULL \<and> arr \<noteq> name \<and> arr \<in> l_live l \<and> name \<in> l_live l \<and> card (l_live l) = Suc n))"

lemma option_mem_ok:
  assumes "malloc_fresh new" and "names_inv n st"
  shows "\<exists>st'. option_mem new opts st = Inr st' \<and> names_inv (n + count_f opts) st'"
  using assms(2)
proof (induction opts arbitrary: n st)
  case (Cons opt opts)
  obtain c optarg arr name l where st: "opt = (c, optarg)" "st = ((arr, name), l)" by (metis surj_pair)
  show ?case
  proof (cases "c = CHR ''f''")
    case True
    obtain l1 where 1: "led_free arr l = Inr l1" "finite (l_live l1)" "card (l_live l1) = n"
      using Cons.prems by (cases "n = 0") (auto simp: names_inv_def st)
    obtain arr' l2 where 2: "led_malloc new l1 = (arr', l2)" by fastforce
    obtain name' l3 where 3: "led_malloc new l2 = (name', l3)" by fastforce
    have "names_inv (Suc n) ((arr', name'), l3)"
      using led_malloc_ok [OF assms(1) 1(2) 2] led_malloc_ok [OF assms(1) _ 3] 1 by (auto simp: names_inv_def)
    from Cons.IH [OF this] show ?thesis
      using led_malloc_ok [OF assms(1) 1(2) 2] True 1(1) 2 3 by (simp add: st count_f_def)
  qed (use Cons in \<open>auto simp: st count_f_def\<close>)
qed (simp add: count_f_def)

lemma handle_option_f:
  assumes "handle_option opt o1 = Inr o2"
  shows "(tracefiles o2 = None) = (fst opt \<noteq> CHR ''f'' \<and> tracefiles o1 = None)"
  using assms by (auto simp: handle_option_def Let_def case_prod_beta split: if_splits)

lemma handle_options_f:
  "handle_options opts o1 = Inr o2 \<Longrightarrow> (tracefiles o2 = None) = (count_f opts = 0 \<and> tracefiles o1 = None)"
proof (induction opts arbitrary: o1)
  case (Cons opt opts)
  obtain o3 where "handle_option opt o1 = Inr o3" "handle_options opts o3 = Inr o2"
    using Cons.prems by (cases "handle_option opt o1") auto
  with Cons.IH [of o3] handle_option_f [of opt o1 o3] show ?case by (auto simp: count_f_def)
qed (simp add: count_f_def)

text \<open>
  The cleanup frees everything but the copies of the arguments of all options \<open>-f\<close> except the last.
\<close>

lemma main_cleanup_ok:
  assumes "names_inv n (names, l)" and "l_live l' = {libc_table, mm_table} \<union> l_live l"
    and "libc_table \<noteq> NULL" "mm_table \<noteq> NULL" "libc_table \<notin> l_live l" "mm_table \<notin> insert libc_table (l_live l)"
  shows "\<exists>l''. main_cleanup (n = 0) names libc_table mm_table l' = Inr l'' \<and> finite (l_live l'') \<and>
    card (l_live l'') = n - 1"
proof (cases "n = 0")
  case True
  then show ?thesis using assms by (cases names) (auto simp: names_inv_def main_cleanup_def)
next
  case False
  obtain arr name where nm: "names = (arr, name)" by (cases names)
  have n: "finite (l_live l)" "arr \<noteq> NULL" "name \<noteq> NULL" "arr \<noteq> name" "arr \<in> l_live l" "name \<in> l_live l"
    "card (l_live l) = Suc n"
    using assms(1) False by (auto simp: names_inv_def nm)
  have ne: "libc_table \<noteq> name" "libc_table \<noteq> arr" "mm_table \<noteq> name" "mm_table \<noteq> arr" "mm_table \<noteq> libc_table"
    using n assms(5,6) by auto
  have "{libc_table, mm_table} \<union> l_live l - {name} - {arr} - {libc_table} - {mm_table} = l_live l - {arr, name}"
    using assms(5,6) by auto
  moreover have "card (l_live l - {arr, name}) = n - 1" using n by (simp add: card_Diff_subset)
  ultimately have "finite (l_live l' - {name} - {arr} - {libc_table} - {mm_table}) \<and>
      card (l_live l' - {name} - {arr} - {libc_table} - {mm_table}) = n - 1"
    using n(1) by (simp only: assms(2)) simp
  then show ?thesis
    using n(2-6) ne assms(2-4) False by (simp add: nm main_cleanup_def)
qed

lemma summarize_all_valid:
  assumes "\<forall>st\<in>set ms. st_valid st = 1" and "length ls = length ms"
  shows "sm_correct (summarize o1 ls (calculate_perfindex ls ms) errs) = int (length ms)"
    and "sm_total (summarize o1 ls (calculate_perfindex ls ms) errs) = int (length ms)"
    and "sm_errors (summarize o1 ls (calculate_perfindex ls ms) errs) = errs"
proof -
  have "\<forall>st\<in>set (calculate_perfindex ls ms). st_valid st \<noteq> 0"
    using assms(1) by (auto simp: calculate_perfindex_def perfindex_one_def Let_def dest!: set_zip_rightD)
  then have "filter (\<lambda>st. st_valid st \<noteq> 0) (calculate_perfindex ls ms) = calculate_perfindex ls ms"
    by (simp add: filter_id_conv)
  with assms(2) show "sm_correct (summarize o1 ls (calculate_perfindex ls ms) errs) = int (length ms)"
    "sm_total (summarize o1 ls (calculate_perfindex ls ms) errs) = int (length ms)"
    "sm_errors (summarize o1 ls (calculate_perfindex ls ms) errs) = errs"
    by (simp_all add: summarize_def calculate_perfindex_def)
qed

definition main_inv :: "int \<Rightarrow> nat \<Rightarrow> mm_st \<Rightarrow> bool" where
  "main_inv errs pool s \<longleftrightarrow> memlib_inv (m_mem s) \<and> errors (m_drv s) = errs \<and>
     libc_avail (m_drv s) + length (m_ranges s) = pool"

context mm_contract
begin

lemma mm_trace_ok:
  assumes "good_file cost pool e (dir @ f)" and "\<And>k n. can_malloc e k n" and "main_inv errs pool s"
  shows "\<exists>st s'. mm_trace e pkg dir i f s = Inr (st, s') \<and> st_valid st = 1 \<and> main_inv errs pool s'"
proof -
  obtain tr where tr: "load_trace e dir f = Inr tr" "wf_trace tr" "list_all low_index (ops tr)"
    "ops_cost cost (ops tr) \<le> MAX_HEAP" "length (ops tr) \<le> pool"
    using load_trace_ok [OF assms(1,2)] by blast
  let ?v = "\<lparr>v_drv = m_drv s, v_mem = m_mem s, v_ranges = m_ranges s, v_trace = tr\<rparr>"
  obtain v where v: "eval_mm_valid pkg ?v (int i) = Inr (1, v)" "errors (v_drv v) = errs"
    "memlib_inv (v_mem v)"
    using eval_mm_valid_ok [of ?v "int i"] tr assms(3) by (auto simp: main_inv_def)
  have keep: "same_shape tr (v_trace v)" "range_pool v = pool"
    using eval_mm_valid_keeps [OF v(1)] assms(3) by (auto simp: vstep_keeps_def range_pool_def main_inv_def)
  have vt: "wf_trace (v_trace v)" "ops_cost cost (ops (v_trace v)) \<le> MAX_HEAP"
    using wf_trace_shape [OF keep(1)] keep(1) tr(2,4) by (auto simp: same_shape_def)
  obtain mx hs mem1 tr1 where u: "eval_mm_util pkg (v_mem v) (v_trace v) = Inr (mx, hs, mem1, tr1)" "memlib_inv mem1"
    using eval_mm_util_ok [OF v(3) vt] by blast
  have tr1: "wf_trace tr1" "ops_cost cost (ops tr1) \<le> MAX_HEAP"
    using eval_mm_util_shape [OF u(1)] wf_trace_shape [of "v_trace v" tr1] vt by (auto simp: same_shape_def)
  let ?P = "\<lambda>(m, t). memlib_inv m \<and> wf_trace t \<and> ops_cost cost (ops t) \<le> MAX_HEAP"
  have step: "\<exists>y. (case x of (m, t) \<Rightarrow> eval_mm_speed pkg m t) = Inr y \<and> ?P y" if "?P x" for x
  proof -
    obtain m t where x: "x = (m, t)" by (cases x)
    obtain m' t' where e: "eval_mm_speed pkg m t = Inr (m', t')" "memlib_inv m'"
      using eval_mm_speed_ok [of m t] \<open>?P x\<close> by (auto simp: x)
    with eval_mm_speed_shape [OF e(1)] wf_trace_shape [of t t'] \<open>?P x\<close> show ?thesis
      by (auto simp: x same_shape_def)
  qed
  have "\<exists>secs y. fsecs (fst (clock_mm e i)) (snd (clock_mm e i)) (\<lambda>(m, t). eval_mm_speed pkg m t)
      (mem1, tr1) = Inr (secs, y) \<and> ?P y"
    using step u(2) tr1 by (intro fsecs_inv) auto
  then show ?thesis
    using tr(1) v u(1) keep(2) by (auto simp: mm_trace_def Let_def main_inv_def range_pool_def)
qed

lemma mdriver_main_ok:
  assumes opts: "handle_options opts default_options = Inr o1"
    and files: "\<And>f. f \<in> set (case tracefiles o1 of None \<Rightarrow> DEFAULT_TRACEFILES | Some fs \<Rightarrow> fs) \<Longrightarrow>
      good_file cost (libc_avail d) e (tracedir o1 @ f)"
    and mal: "\<And>k n. can_malloc e k n" and new: "malloc_fresh (new_block e)"
    and libc: "libc_ok libc" and blk: "libc_block blk MAX_HEAP"
  shows "\<exists>sm r. mdriver_main e libc pkg blk opts h d mem = Inr (sm, r) \<and> sm_correct sm = sm_total sm \<and>
    sm_total sm = int (length (case tracefiles o1 of None \<Rightarrow> DEFAULT_TRACEFILES | Some fs \<Rightarrow> fs)) \<and>
    sm_errors sm = errors d \<and> finite (l_live (me_ledger r)) \<and>
    card (l_live (me_ledger r)) = count_f opts - 1 \<and> \<not> mem_live (me_mem r) \<and> me_ranges r = [] \<and>
    libc_avail (me_drv r) = libc_avail d"
proof -
  let ?fs = "case tracefiles o1 of None \<Rightarrow> DEFAULT_TRACEFILES | Some fs \<Rightarrow> fs"
  have "names_inv 0 ((NULL, NULL), led_empty)" by (simp add: names_inv_def led_empty_def)
  then obtain names l0 where l0: "option_mem (new_block e) opts ((NULL, NULL), led_empty) = Inr (names, l0)"
    "names_inv (count_f opts) (names, l0)"
    using option_mem_ok [OF new, of 0 "((NULL, NULL), led_empty)" opts] by fastforce
  have fin: "finite (l_live l0)" using l0(2) by (cases names) (simp add: names_inv_def)
  obtain t1 l1 where l1: "led_malloc (new_block e) l0 = (t1, l1)" by fastforce
  note m1 = led_malloc_ok [OF new fin l1]
  then have fin1: "finite (l_live l1)" by blast
  obtain ls h1 l2 where l2: "trace_loop (with_trace (new_block e) (libc_trace e libc (tracedir o1))) 0 ?fs (h, l1) =
      Inr (ls, h1, l2)" "length ls = length ?fs" "l_live l2 = l_live l1"
    using trace_loop_mem_ok [OF new fin1, of ?fs "\<lambda>_. True" "libc_trace e libc (tracedir o1)" h 0]
      libc_trace_ok [OF libc files mal] by blast
  obtain t2 l3 where l3: "led_malloc (new_block e) l2 = (t2, l3)" by fastforce
  have m2: "t2 \<noteq> NULL" "t2 \<notin> l_live l2" "l_live l3 = insert t2 (l_live l2)" "finite (l_live l3)"
    using led_malloc_ok [OF new _ l3] fin1 by (simp_all add: l2(3))
  obtain mem1 where m: "mem_init blk mem = Inr mem1" "memlib_inv mem1" using mem_init_inv [OF blk, of mem] by blast
  have "main_inv (errors d) (libc_avail d) \<lparr>m_drv = d, m_mem = mem1, m_ranges = []\<rparr>" using m(2) by (simp add: main_inv_def)
  then obtain ms s l4 where ms: "trace_loop (with_trace (new_block e) (mm_trace e pkg (tracedir o1))) 0 ?fs
      (\<lparr>m_drv = d, m_mem = mem1, m_ranges = []\<rparr>, l3) = Inr (ms, s, l4)" "length ms = length ?fs"
    "\<forall>st\<in>set ms. st_valid st = 1" "main_inv (errors d) (libc_avail d) s" "l_live l4 = l_live l3"
    using trace_loop_mem_ok [OF new m2(4), of ?fs "main_inv (errors d) (libc_avail d)" "mm_trace e pkg (tracedir o1)"]
      mm_trace_ok [OF files mal] by blast
  obtain l5 where l5: "main_cleanup (count_f opts = 0) names t1 t2 l4 = Inr l5" "finite (l_live l5)"
    "card (l_live l5) = count_f opts - 1"
    using main_cleanup_ok [OF l0(2), of l4 t1 t2] m1 m2 l2(3) ms(5) by auto
  have deflt: "(tracefiles o1 = None) = (count_f opts = 0)"
    using handle_options_f [OF opts] by (simp add: default_options_def)
  then have name: "\<not> (tracefiles o1 \<noteq> None \<and> snd names = NULL)"
    using l0(2) by (cases names) (auto simp: names_inv_def)
  note sm = summarize_all_valid [OF ms(3), of ls o1]
  have "mem_live (m_mem s)" using memlib_inv_bounds (6) [of "m_mem s"] ms(4) by (simp add: main_inv_def)
  with sm show ?thesis
    using opts l0(1) l1 l2(1,2) l3 m(1) ms l5 deflt name m1 m2(1)
    by (simp add: mdriver_main_def Let_def mem_deinit_def clear_ranges_eq main_inv_def)
qed

end

section \<open>The performance index\<close>

text \<open>
  The performance index of a valid trace lies between 0 and 100 when the utilization is at most
  1; it is at least the utilization share, and a package at least as fast as the C library gets the
  whole throughput share.
\<close>

theorem perfindex_bounds:
  assumes "st_valid st \<noteq> 0" and "0 \<le> st_util st" and "st_util st \<le> 1" and "0 \<le> st_ops st"
    and "0 < st_secs st" and "0 < st_ops libc" and "0 < st_secs libc"
  shows "0 \<le> st_perfindex (perfindex_one libc st) \<and> st_perfindex (perfindex_one libc st) \<le> 100 \<and>
    \<lfloor>60 * st_util st\<rfloor> \<le> st_perfindex (perfindex_one libc st) \<and>
    (st_ops st / st_secs st \<ge> st_ops libc / st_secs libc \<longrightarrow>
       st_perfindex (perfindex_one libc st) = \<lfloor>60 * st_util st + 40\<rfloor>)"
proof -
  define m where "m = st_ops st / st_secs st"
  define l where "l = st_ops libc / st_secs libc"
  have pos: "0 \<le> m" "0 < l" using assms by (auto simp: m_def l_def)
  define p2 where "p2 = (if m > l then 40 else 40 * (m / l))"
  have p2: "0 \<le> p2" "p2 \<le> 40" "m \<ge> l \<Longrightarrow> p2 = 40"
    using pos by (auto simp: p2_def divide_le_eq)
  have "st_perfindex (perfindex_one libc st) = trunc (60 * st_util st + p2)"
    using assms(1) by (simp add: perfindex_one_def Let_def m_def [symmetric] l_def [symmetric] UTIL_WEIGHT_def
        p2_def algebra_simps)
  moreover have "0 \<le> 60 * st_util st + p2" "60 * st_util st + p2 \<le> 100" using assms(2,3) p2 by auto
  moreover have "\<lfloor>60 * st_util st\<rfloor> \<le> \<lfloor>60 * st_util st + p2\<rfloor>" using p2 by (intro floor_mono) simp
  ultimately show ?thesis
    using p2(3) unfolding m_def [symmetric] l_def [symmetric] by (auto simp: trunc_def floor_le_iff)
qed

theorem perfindex_bounds_witness:
  "st_perfindex (perfindex_one (zero_stats\<lparr>st_ops := 100, st_secs := 1\<rparr>)
      (zero_stats\<lparr>st_valid := 1, st_util := 1 / 2, st_ops := 100, st_secs := 1 / 2\<rparr>)) = 70"
  using perfindex_bounds [of "zero_stats\<lparr>st_valid := 1, st_util := 1 / 2, st_ops := 100, st_secs := 1 / 2\<rparr>"
      "zero_stats\<lparr>st_ops := 100, st_secs := 1\<rparr>"]
  by (simp add: zero_stats_def)

end
