(* ===== verification/Mdriver_Safe.thy ===== *)
theory Mdriver_Safe
  imports Mdriver_Main
begin

text \<open>
  Well-typed traces do not go wrong: an evaluation of \<open>malloclab/mdriver.c\<close> on a trace that \<open>read_trace\<close>
  returned indexes no array out of bounds, whatever the C library or the package answer, when the
  two things the reader does not check hold. The sections follow the evaluations: those of the C
  library, \<open>eval_mm_util\<close> and \<open>eval_mm_speed\<close>, and \<open>eval_mm_valid\<close>, which also writes into the blocks.
\<close>

section \<open>Traces that are safe to index\<close>

text \<open>
  What the reader does not check: there is an identifier, and the indices of the \<open>FREE\<close> requests are
  identifiers. With it all indices are in the bounds of the driver's arrays (\<open>trace_safe\<close>).
\<close>

definition frees_in_range :: "trace_t \<Rightarrow> bool" where
  "frees_in_range tr \<longleftrightarrow>
     0 < num_ids tr \<and> (\<forall>p\<in>set (ops tr). op_type p = FREE \<longrightarrow> 0 \<le> op_index p \<and> op_index p < num_ids tr)"

definition trace_safe :: "trace_t \<Rightarrow> bool" where
  "trace_safe tr \<longleftrightarrow>
     trace_typed tr \<and> (\<forall>p\<in>set (ops tr). 0 \<le> op_index p \<and> op_index p < num_ids tr)"

lemma trace_safe_shape: "same_shape tr tr' \<Longrightarrow> trace_safe tr' = trace_safe tr"
  by (auto simp: trace_safe_def trace_typed_shape) (simp_all add: same_shape_def)

lemma trace_safe_op:
  assumes "trace_safe tr" and "p \<in> set (ops tr)"
  shows "0 \<le> op_index p" "op_index p < int (length (blocks tr))"
    "op_index p < int (length (block_sizes tr))" "in_int (op_size p)"
  using assms by (auto simp: trace_safe_def trace_typed_def traceop_typed_def list_all_iff)

lemma read_trace_safe:
  assumes "uninit_typed u" and "read_trace u mal (Some inp) = Inr tr" and "frees_in_range tr"
  shows "trace_safe tr"
proof -
  have "in_int (num_ids (u_hdr u))" "in_int (num_ops (u_hdr u))" using assms(1) by (simp_all add: uninit_typed_def)
  note idx = read_trace_in_bounds [OF assms(2) this]
  have "0 \<le> op_index p \<and> op_index p < num_ids tr" if "p \<in> set (ops tr)" for p
    using idx assms(3) that unfolding frees_in_range_def by (cases "op_type p = FREE") blast+
  with read_trace_typed [OF assms(1,2)] show ?thesis by (simp add: trace_safe_def)
qed

lemma load_trace_safe:
  assumes "uninit_typed (fresh_mem e)" and "load_trace e dir f = Inr tr" and "frees_in_range tr"
  shows "trace_safe tr"
proof -
  obtain inp where "read_trace (fresh_mem e) (can_malloc e) (Some inp) = Inr tr"
    using assms(2) by (cases "file_of e (dir @ f)")
      (auto simp: load_trace_def Let_def unix_error_def read_trace_def split: if_splits)
  with assms(1,3) show ?thesis by (intro read_trace_safe)
qed

text \<open>A loop over the requests reads inside their array.\<close>

lemma request_at:
  assumes "trace_safe tr" and "i + int (Suc k) = num_ops tr" and "0 \<le> i"
  obtains p where "get_arr (ops tr) i = Inr p" "p \<in> set (ops tr)"
  using assms by (auto simp: trace_safe_def trace_typed_def)

section \<open>The evaluations of the C library\<close>

lemma libc_op_safe:
  assumes "trace_safe tr" and "p \<in> set (ops tr)"
  shows "libc_op libc (h, tr) p = Inl (Exit 1) \<or> (\<exists>h' tr'. libc_op libc (h, tr) p = Inr (h', tr'))"
  using trace_safe_op [OF assms] by (cases "op_type p") (auto simp: libc_op_def unix_error_def case_prod_beta)

lemma libc_loop_safe:
  assumes "trace_safe tr" and "i + int k = num_ops tr" and "0 \<le> i"
  shows "libc_loop libc k i (h, tr) = Inl (Exit 1) \<or> (\<exists>h' tr'. libc_loop libc k i (h, tr) = Inr (h', tr'))"
  using assms
proof (induction k arbitrary: i h tr)
  case (Suc k)
  obtain p where p: "get_arr (ops tr) i = Inr p" "p \<in> set (ops tr)" using Suc.prems by (rule request_at)
  from libc_op_safe [OF Suc.prems(1) p(2), of libc h]
  consider "libc_op libc (h, tr) p = Inl (Exit 1)" | h1 tr1 where "libc_op libc (h, tr) p = Inr (h1, tr1)"
    by blast
  then show ?case
  proof cases
    case 2
    then have "same_shape tr tr1" by (auto dest: libc_op_shape)
    then have "trace_safe tr1" "(i + 1) + int k = num_ops tr1"
      using Suc.prems by (simp_all add: trace_safe_shape) (simp add: same_shape_def)
    from Suc.IH [OF this, of h1] Suc.prems(3) p(1) 2 show ?thesis by simp
  qed (simp add: p(1))
qed simp

text \<open>
  The condition that there is an identifier is needed: the request of \<open>hole_file\<close> is stored outside the
  arrays of no elements by the first evaluation.
\<close>

lemma hole_file_overruns:
  assumes "\<And>k n. mal k n" and "fst (l_malloc libc h 8) \<noteq> NULL"
  shows "\<exists>tr. read_trace u mal (Some hole_file) = Inr tr \<and> eval_libc_valid libc (h, tr) = Inl OutOfBounds"
  using assms(2)
  by (simp add: read_hole_file assms(1) eval_libc_valid_def libc_op_def put_arr_def case_prod_beta)

section \<open>The utilization and the timed run\<close>

text \<open>
  A package stays inside its memory when no call goes out of bounds and the break stays in the block
  \<open>mem_init\<close> took. The block itself may have been freed.
\<close>

definition brk_ok :: "memlib \<Rightarrow> bool" where
  "brk_ok s \<longleftrightarrow> mem_start_brk s \<le> mem_max_addr s \<and> mem_brk s \<le> mem_max_addr s"

definition contained :: "(memlib \<Rightarrow> 'a res) \<Rightarrow> ('a \<Rightarrow> memlib) \<Rightarrow> bool" where
  "contained f mem_of \<longleftrightarrow>
     (\<forall>s. brk_ok s \<longrightarrow> f s \<noteq> Inl OutOfBounds \<and> (\<forall>r. f s = Inr r \<longrightarrow> brk_ok (mem_of r)))"

definition pkg_contained :: "mm_pkg \<Rightarrow> bool" where
  "pkg_contained pkg \<longleftrightarrow>
     contained (pkg_init pkg) snd \<and> (\<forall>n. contained (\<lambda>s. pkg_malloc pkg s n) snd) \<and>
     (\<forall>p. contained (\<lambda>s. pkg_free pkg s p) (\<lambda>s. s)) \<and>
     (\<forall>p n. contained (\<lambda>s. pkg_realloc pkg s p n) snd)"

lemma containedD:
  assumes "contained f mem_of" and "brk_ok s"
  obtains e where "f s = Inl e" "e \<noteq> OutOfBounds" | r where "f s = Inr r" "brk_ok (mem_of r)"
  using assms unfolding contained_def by (metis old.sum.exhaust)

lemma res_bind_in_bounds:
  assumes "m \<noteq> Inl OutOfBounds" and "\<And>x. m = Inr x \<Longrightarrow> f x \<noteq> Inl OutOfBounds"
  shows "res_bind m f \<noteq> Inl OutOfBounds"
  using assms by (cases m) auto

lemma chk_int_in_bounds [simp]: "chk_int x \<noteq> Inl OutOfBounds"
  by (simp add: chk_int_def)

lemma exit_in_bounds [simp]: "app_error \<noteq> Inl OutOfBounds" "unix_error \<noteq> Inl OutOfBounds"
  by (simp_all add: app_error_def unix_error_def)

lemma exit_not_Inr [simp]: "app_error \<noteq> Inr x" "unix_error \<noteq> Inr x"
  by (simp_all add: app_error_def unix_error_def)

lemma track_total_in_bounds [simp]: "track_total st x \<noteq> Inl OutOfBounds"
  by (auto simp: track_total_def res_bind_eq_Inl)

lemma track_total_mem: "track_total st x = Inr st' \<Longrightarrow> us_mem st' = us_mem st"
  by (auto simp: track_total_def)

lemma util_op_safe:
  assumes pkg: "pkg_contained pkg" and b: "brk_ok (us_mem st)"
    and tr: "trace_safe (us_trace st)" and p: "p \<in> set (ops (us_trace st))"
  shows "util_op pkg st p \<noteq> Inl OutOfBounds \<and> (\<forall>st'. util_op pkg st p = Inr st' \<longrightarrow> brk_ok (us_mem st'))"
proof -
  note c = pkg [unfolded pkg_contained_def] and ix = trace_safe_op [OF tr p]
  show ?thesis
  proof (cases "op_type p")
    case ALLOC
    have "contained (\<lambda>s. pkg_malloc pkg s (word_of_int (op_size p))) snd" using c by blast
    then show ?thesis using b
      by (rule containedD) (use ix ALLOC in \<open>auto simp: util_op_def remember_def Let_def dest!: track_total_mem split: if_splits\<close>)
  next
    case FREE
    have "contained (\<lambda>s. pkg_free pkg s (blocks (us_trace st) ! nat (op_index p))) (\<lambda>s. s)" using c by blast
    then show ?thesis using b
      by (rule containedD) (use ix FREE in \<open>auto simp: util_op_def Let_def res_bind_eq_Inl\<close>)
  next
    case REALLOC
    have "contained (\<lambda>s. pkg_realloc pkg s (blocks (us_trace st) ! nat (op_index p)) (word_of_int (op_size p))) snd"
      using c by blast
    then show ?thesis using b
      by (rule containedD)
        (use ix REALLOC in \<open>auto simp: util_op_def remember_def Let_def res_bind_eq_Inl dest!: track_total_mem split: if_splits\<close>)
  qed
qed

lemma util_loop_safe:
  assumes "pkg_contained pkg" and "brk_ok (us_mem st)" and "trace_safe (us_trace st)"
    and "i + int k = num_ops (us_trace st)" and "0 \<le> i"
  shows "util_loop pkg k i st \<noteq> Inl OutOfBounds"
  using assms(2-)
proof (induction k arbitrary: i st)
  case (Suc k)
  obtain p where p: "get_arr (ops (us_trace st)) i = Inr p" "p \<in> set (ops (us_trace st))"
    using Suc.prems(2-4) by (rule request_at)
  note op = util_op_safe [OF assms(1) Suc.prems(1,2) p(2)]
  show ?case
    unfolding util_loop.simps p(1) res_bind.simps
  proof (rule res_bind_in_bounds)
    fix st1 assume 1: "util_op pkg st p = Inr st1"
    then have sh: "same_shape (us_trace st) (us_trace st1)" by (rule util_op_shape)
    show "util_loop pkg k (i + 1) st1 \<noteq> Inl OutOfBounds"
      by (rule Suc.IH) (use Suc.prems op 1 sh in \<open>auto simp: trace_safe_shape [OF sh] same_shape_def\<close>)
  qed (use op in blast)
qed simp

lemma speed_op_safe:
  assumes pkg: "pkg_contained pkg" and b: "brk_ok s" and tr: "trace_safe tr" and p: "p \<in> set (ops tr)"
  shows "speed_op pkg (s, tr) p \<noteq> Inl OutOfBounds \<and>
    (\<forall>s' tr'. speed_op pkg (s, tr) p = Inr (s', tr') \<longrightarrow> brk_ok s')"
proof -
  note c = pkg [unfolded pkg_contained_def] and ix = trace_safe_op [OF tr p]
  show ?thesis
  proof (cases "op_type p")
    case ALLOC
    have "contained (\<lambda>s. pkg_malloc pkg s (word_of_int (op_size p))) snd" using c by blast
    then show ?thesis using b by (rule containedD) (use ix ALLOC in \<open>auto simp: speed_op_def split: if_splits\<close>)
  next
    case FREE
    have "contained (\<lambda>s. pkg_free pkg s (blocks tr ! nat (op_index p))) (\<lambda>s. s)" using c by blast
    then show ?thesis using b by (rule containedD) (use ix FREE in \<open>auto simp: speed_op_def split: if_splits\<close>)
  next
    case REALLOC
    have "contained (\<lambda>s. pkg_realloc pkg s (blocks tr ! nat (op_index p)) (word_of_int (op_size p))) snd"
      using c by blast
    then show ?thesis using b by (rule containedD) (use ix REALLOC in \<open>auto simp: speed_op_def split: if_splits\<close>)
  qed
qed

lemma speed_loop_safe:
  assumes "pkg_contained pkg" and "brk_ok s" and "trace_safe tr"
    and "i + int k = num_ops tr" and "0 \<le> i"
  shows "speed_loop pkg k i (s, tr) \<noteq> Inl OutOfBounds"
  using assms(2-)
proof (induction k arbitrary: i s tr)
  case (Suc k)
  obtain p where p: "get_arr (ops tr) i = Inr p" "p \<in> set (ops tr)" using Suc.prems(2-4) by (rule request_at)
  note op = speed_op_safe [OF assms(1) Suc.prems(1,2) p(2)]
  show ?case
    unfolding speed_loop.simps snd_conv p(1) res_bind.simps
  proof (rule res_bind_in_bounds)
    fix st1 assume 1: "speed_op pkg (s, tr) p = Inr st1"
    obtain s1 tr1 where st1: "st1 = (s1, tr1)" by (cases st1)
    have sh: "same_shape tr tr1" using speed_op_shape [OF 1] by (simp add: st1)
    show "speed_loop pkg k (i + 1) st1 \<noteq> Inl OutOfBounds"
      unfolding st1
      by (rule Suc.IH) (use Suc.prems op 1 st1 sh in \<open>auto simp: trace_safe_shape [OF sh] same_shape_def\<close>)
  qed (use op in blast)
qed simp


section \<open>The correctness evaluation\<close>

text \<open>An accepted payload lies in the heap, so the driver writes and reads inside the block.\<close>

lemma add_range_safe:
  assumes "add_range d s rs p n t i = Inr (ok, d', rs')" and "ok \<noteq> 0"
  shows "0 < n" "mem_start_brk s \<le> p" "p + n \<le> mem_brk s"
  using assms
  by (auto simp: add_range_def Let_def unix_error_def mem_heap_lo_def mem_heap_hi_def c_assert_def
      split: if_splits option.splits)

lemma add_range_in_bounds [simp]: "add_range d s rs p n t i \<noteq> Inl OutOfBounds"
  by (auto simp: add_range_def Let_def unix_error_def c_assert_def split: option.splits)

lemma uint_size: "0 < n \<Longrightarrow> in_int n \<Longrightarrow> uint (word_of_int n :: size_t) = n"
  by (rule uint64_of_int) (simp_all add: in_int_iff)

lemma block_memset_safe:
  assumes "brk_ok s" and "0 < n" and "in_int n" and "mem_start_brk s \<le> p" and "p + n \<le> mem_brk s"
  shows "block_memset s p c (word_of_int n) \<noteq> Inl OutOfBounds \<and>
    (\<forall>s'. block_memset s p c (word_of_int n) = Inr s' \<longrightarrow> brk_ok s')"
  using assms
  by (auto simp: block_memset_def chk_block_def in_block_def uint_size brk_ok_def res_bind_eq_Inl split: if_splits)

lemma check_copied_safe:
  assumes "mem_start_brk s \<le> q + j" and "q + j + int k \<le> mem_max_addr s"
  shows "check_copied s q c k j \<noteq> Inl OutOfBounds"
  using assms
proof (induction k arbitrary: j)
  case (Suc k)
  then have "check_copied s q c k (j + 1) \<noteq> Inl OutOfBounds" by simp
  with Suc.prems show ?case by (auto simp: chk_block_def in_block_def)
qed simp

definition vstep_safe :: "vstep res \<Rightarrow> bool" where
  "vstep_safe r \<longleftrightarrow> r \<noteq> Inl OutOfBounds \<and> (\<forall>st'. r = Inr (Next st') \<longrightarrow> brk_ok (v_mem st'))"

lemma vstep_safe_simps [simp]:
  "vstep_safe (Inr (Reject st))" "vstep_safe (Inr (Next st)) = brk_ok (v_mem st)"
  "vstep_safe (Inl e) = (e \<noteq> OutOfBounds)"
  by (auto simp: vstep_safe_def)

lemma vstep_safe_bind:
  assumes "m \<noteq> Inl OutOfBounds" and "\<And>x. m = Inr x \<Longrightarrow> vstep_safe (f x)"
  shows "vstep_safe (res_bind m f)"
  using assms by (cases m) auto

text \<open>What the driver does with an accepted payload: fill it and store it in its arrays.\<close>

lemma fill_safe:
  assumes "brk_ok s" and "in_int n" and "add_range d s rs p n t i = Inr (ok, d', rs')" and "ok \<noteq> 0"
    and "0 \<le> x" "x < int (length (blocks tr))" "x < int (length (block_sizes tr))"
  shows "vstep_safe (res_bind (block_memset s p c (word_of_int n)) (\<lambda>s2.
    res_bind (remember tr x p n) (\<lambda>tr'. Inr (Next (st\<lparr>v_mem := s2, v_drv := d', v_ranges := rs', v_trace := tr'\<rparr>)))))"
proof -
  note m = block_memset_safe [OF assms(1) _ assms(2), OF add_range_safe [OF assms(3,4)], of c]
  show ?thesis
    by (rule vstep_safe_bind) (use m assms(5-7) in \<open>auto simp: remember_def\<close>)
qed

lemma checked_safe:
  assumes s: "brk_ok s" and n: "in_int n"
    and x: "0 \<le> x" "x < int (length (blocks tr))" "x < int (length (block_sizes tr))" and m: "m \<le> n"
  shows "vstep_safe (res_bind (add_range d s rs q n t i) (\<lambda>(ok, d1, rs1).
    if ok = 0 then Inr (Reject (st\<lparr>v_mem := s, v_drv := d1, v_ranges := rs1\<rparr>))
    else res_bind (check_copied s q c (nat m) 0) (\<lambda>same.
      if \<not> same
      then Inr (Reject (st\<lparr>v_mem := s, v_drv := malloc_error d1 t i DataNotPreserved, v_ranges := rs1\<rparr>))
      else res_bind (block_memset s q c (word_of_int n)) (\<lambda>s2.
        res_bind (remember tr x q n) (\<lambda>tr'.
        Inr (Next (st\<lparr>v_mem := s2, v_drv := d1, v_ranges := rs1, v_trace := tr'\<rparr>)))))))"
proof (rule vstep_safe_bind, simp, unfold split_paired_all case_prod_conv)
  fix ok d1 rs1 assume a: "add_range d s rs q n t i = Inr (ok, d1, rs1)"
  show "vstep_safe (if ok = 0 then Inr (Reject (st\<lparr>v_mem := s, v_drv := d1, v_ranges := rs1\<rparr>))
    else res_bind (check_copied s q c (nat m) 0) (\<lambda>same.
      if \<not> same
      then Inr (Reject (st\<lparr>v_mem := s, v_drv := malloc_error d1 t i DataNotPreserved, v_ranges := rs1\<rparr>))
      else res_bind (block_memset s q c (word_of_int n)) (\<lambda>s2.
        res_bind (remember tr x q n) (\<lambda>tr'.
        Inr (Next (st\<lparr>v_mem := s2, v_drv := d1, v_ranges := rs1, v_trace := tr'\<rparr>))))))"
  proof (cases "ok = 0")
    case False
    note in_heap = add_range_safe [OF a False]
    have "check_copied s q c (nat m) 0 \<noteq> Inl OutOfBounds"
      by (rule check_copied_safe) (use in_heap s m in \<open>auto simp: brk_ok_def\<close>)
    with fill_safe [OF s n a False x] False show ?thesis by (auto intro!: vstep_safe_bind)
  qed simp
qed

lemma valid_op_safe:
  assumes pkg: "pkg_contained pkg" and b: "brk_ok (v_mem st)"
    and tr: "trace_safe (v_trace st)" and p: "p \<in> set (ops (v_trace st))"
  shows "vstep_safe (valid_op pkg t i st p)"
proof -
  note c = pkg [unfolded pkg_contained_def] and ix = trace_safe_op [OF tr p]
  let ?x = "op_index p" and ?n = "op_size p"
  show ?thesis
  proof (cases "op_type p")
    case ALLOC
    have "contained (\<lambda>s. pkg_malloc pkg s (word_of_int ?n)) snd" using c by blast
    then show ?thesis using b
    proof (rule containedD)
      fix r assume r: "pkg_malloc pkg (v_mem st) (word_of_int ?n) = Inr r" "brk_ok (snd r)"
      obtain q s1 where q: "r = (q, s1)" by (cases r)
      have "vstep_safe (res_bind (add_range (v_drv st) s1 (v_ranges st) q ?n t i) (\<lambda>(ok, d1, rs1).
          if ok = 0 then Inr (Reject (st\<lparr>v_mem := s1, v_drv := d1, v_ranges := rs1\<rparr>))
          else res_bind (block_memset s1 q (?x AND 255) (word_of_int ?n)) (\<lambda>s2.
            res_bind (remember (v_trace st) ?x q ?n) (\<lambda>tr.
            Inr (Next (st\<lparr>v_mem := s2, v_drv := d1, v_ranges := rs1, v_trace := tr\<rparr>))))))"
        by (rule vstep_safe_bind) (use r q ix in \<open>auto intro: fill_safe\<close>)
      with r q show ?thesis by (simp add: valid_op_def ALLOC valid_alloc_def)
    qed (simp add: valid_op_def ALLOC valid_alloc_def)
  next
    case FREE
    have "contained (\<lambda>s. pkg_free pkg s (blocks (v_trace st) ! nat ?x)) (\<lambda>s. s)" using c by blast
    then show ?thesis using b
      by (rule containedD) (use ix FREE in \<open>auto simp: valid_op_def valid_free_def split: prod.split\<close>)
  next
    case REALLOC
    let ?old = "blocks (v_trace st) ! nat ?x"
    have "contained (\<lambda>s. pkg_realloc pkg s ?old (word_of_int ?n)) snd" using c by blast
    then show ?thesis using b
    proof (rule containedD)
      fix r assume r: "pkg_realloc pkg (v_mem st) ?old (word_of_int ?n) = Inr r" "brk_ok (snd r)"
      obtain q s1 where q: "r = (q, s1)" by (cases r)
      obtain d0 rs0 where rm: "remove_range (v_drv st) (v_ranges st) ?old = (d0, rs0)" by fastforce
      let ?bsz = "int_of_size (block_sizes (v_trace st) ! nat ?x)"
      have "brk_ok s1" using r(2) q by simp
      have "(if ?n < ?bsz then ?n else ?bsz) \<le> ?n" by simp
      note checked = checked_safe [OF \<open>brk_ok s1\<close> ix(4,1-3) this,
          where d = d0 and rs = rs0 and q = q and t = t and i = i and c = "?x AND 255" and st = st]
      with r q rm ix show ?thesis
        by (cases "q = NULL")
          (simp_all add: valid_op_def REALLOC valid_realloc_def Let_def cong: if_cong split del: if_split)
    qed (use ix in \<open>simp add: valid_op_def REALLOC valid_realloc_def\<close>)
  qed
qed


lemma valid_loop_safe:
  assumes "pkg_contained pkg" and "brk_ok (v_mem st)" and "trace_safe (v_trace st)"
    and "i + int k = num_ops (v_trace st)" and "0 \<le> i"
  shows "valid_loop pkg t k i st \<noteq> Inl OutOfBounds"
  using assms(2-)
proof (induction k arbitrary: i st)
  case (Suc k)
  obtain p where p: "get_arr (ops (v_trace st)) i = Inr p" "p \<in> set (ops (v_trace st))"
    using Suc.prems(2-4) by (rule request_at)
  note op = valid_op_safe [OF assms(1) Suc.prems(1,2) p(2), of t i]
  show ?case
    unfolding valid_loop.simps p(1) res_bind.simps
  proof (rule res_bind_in_bounds)
    show "valid_op pkg t i st p \<noteq> Inl OutOfBounds" using op by (simp add: vstep_safe_def)
    fix r assume 1: "valid_op pkg t i st p = Inr r"
    show "(case r of Reject st' \<Rightarrow> Inr (0, st') | Next st' \<Rightarrow> valid_loop pkg t k (i + 1) st') \<noteq> Inl OutOfBounds"
    proof (cases r)
      case (Next st1)
      have sh: "same_shape (v_trace st) (v_trace st1)" using valid_op_keeps [OF 1] by (simp add: Next vstep_keeps_def)
      have "valid_loop pkg t k (i + 1) st1 \<noteq> Inl OutOfBounds"
        by (rule Suc.IH) (use Suc.prems op 1 Next sh in \<open>auto simp: trace_safe_shape [OF sh] same_shape_def\<close>)
      then show ?thesis by (simp add: Next)
    qed simp
  qed
qed simp

lemma brk_ok_reset: "brk_ok s \<Longrightarrow> brk_ok (mem_reset_brk s)"
  by (simp add: brk_ok_def mem_reset_brk_def)

lemma eval_in_bounds:
  assumes pkg: "pkg_contained pkg" and b: "brk_ok s" and tr: "trace_safe tr"
  shows "v_mem st = s \<Longrightarrow> v_trace st = tr \<Longrightarrow> eval_mm_valid pkg st t \<noteq> Inl OutOfBounds"
    and "eval_mm_util pkg s tr \<noteq> Inl OutOfBounds" and "eval_mm_speed pkg s tr \<noteq> Inl OutOfBounds"
proof -
  have n: "0 + int (nat (num_ops tr)) = num_ops tr" using tr by (simp add: trace_safe_def trace_typed_def)
  have "contained (pkg_init pkg) snd" using pkg by (simp add: pkg_contained_def)
  then have init: "pkg_init pkg (mem_reset_brk s) \<noteq> Inl OutOfBounds"
    "\<And>r s1. pkg_init pkg (mem_reset_brk s) = Inr (r, s1) \<Longrightarrow> brk_ok s1"
    using brk_ok_reset [OF b] by (auto simp: contained_def)
  show "eval_mm_util pkg s tr \<noteq> Inl OutOfBounds"
    using init tr n by (auto simp: eval_mm_util_def res_bind_eq_Inl util_loop_safe [OF pkg])
  show "eval_mm_speed pkg s tr \<noteq> Inl OutOfBounds"
    using init tr n by (auto simp: eval_mm_speed_def res_bind_eq_Inl speed_loop_safe [OF pkg])
  show "eval_mm_valid pkg st t \<noteq> Inl OutOfBounds" if "v_mem st = s" "v_trace st = tr"
    using init tr n that
    by (auto simp: eval_mm_valid_def res_bind_eq_Inl clear_ranges_eq Let_def valid_loop_safe [OF pkg])
qed


section \<open>A package that stays inside\<close>

text \<open>A package that takes every block off the end of the heap and never frees one.\<close>

definition bump_malloc :: "memlib \<Rightarrow> size_t \<Rightarrow> (addr \<times> memlib) res" where
  "bump_malloc s n =
     (let (p, s1) = mem_sbrk s (int_of_size (align n)) in Inr (if p = SBRK_FAIL then NULL else p, s1))"

definition bump_pkg :: mm_pkg where
  "bump_pkg = \<lparr>pkg_init = (\<lambda>s. Inr (0, s)), pkg_malloc = bump_malloc, pkg_free = (\<lambda>s p. Inr s),
     pkg_realloc = (\<lambda>s p. bump_malloc s)\<rparr>"

lemma bump_contained: "pkg_contained bump_pkg"
  by (auto simp: pkg_contained_def contained_def bump_pkg_def bump_malloc_def mem_sbrk_def brk_ok_def Let_def)

end
