(* ===== verification/Fcyc.thy ===== *)
theory Fcyc
  imports Clock "HOL-Library.Multiset"
begin

text \<open>
  \<open>malloclab/fcyc.c\<close>: the K-best measurement scheme. The static variables are the record
  \<open>fcyc_st\<close>; \<open>values\<close> is the array of the K smallest samples so far, or \<open>NULL\<close>. The
  measurements are taken with the counters of \<open>Clock\<close>, whose hardware readings are an argument.
  \<open>double\<close>s are real numbers, as there. \<open>size_t\<close> has 64 bits; the counters of \<open>Clock\<close> are those of the
  i386, where it has 32, which makes no difference for the sizes that occur. The end of the theory is \<open>fsecs.c\<close> built with the cycle counter.
\<close>

section \<open>State and operations\<close>

record fcyc_st =
  kbest :: int
  maxsamples :: int
  epsilon :: real
  compensate :: int
  clear_cache :: int
  cache_bytes :: int
  cache_block :: int
  cache_buf :: bool
  vals :: "real list option"
  samplecount :: int
  sink :: int

definition fcyc_init_st :: fcyc_st where
  "fcyc_init_st = \<lparr>kbest = 3, maxsamples = 20, epsilon = 1 / 100, compensate = 0, clear_cache = 0,
     cache_bytes = 2 ^ 19, cache_block = 32, cache_buf = False, vals = None, samplecount = 0, sink = 0\<rparr>"

text \<open>\<open>init_sampler\<close>: \<open>mal\<close> tells whether \<open>calloc\<close> succeeds.\<close>

definition init_sampler :: "bool \<Rightarrow> fcyc_st \<Rightarrow> fcyc_st" where
  "init_sampler mal s =
     s\<lparr>vals := (if mal then Some (replicate (nat (kbest s)) 0) else None), samplecount := 0\<rparr>"

definition the_vals :: "fcyc_st \<Rightarrow> real list res" where
  "the_vals s = (case vals s of None \<Rightarrow> Inl NullDeref | Some vs \<Rightarrow> Inr vs)"

text \<open>The insertion sort of \<open>add_sample\<close> from position \<open>pos\<close> down.\<close>

fun sift_down :: "real list \<Rightarrow> nat \<Rightarrow> real list" where
  "sift_down vs 0 = vs"
| "sift_down vs (Suc p) =
     (if vs ! p > vs ! Suc p
      then sift_down (vs[p := vs ! Suc p, Suc p := vs ! p]) p
      else vs)"

definition add_sample :: "real \<Rightarrow> fcyc_st \<Rightarrow> fcyc_st res" where
  "add_sample val s =
     res_bind (the_vals s) (\<lambda>vs.
     res_bind
       (if samplecount s < kbest s
        then res_bind (put_arr vs (samplecount s) val) (\<lambda>vs'. Inr (samplecount s, vs'))
        else res_bind (get_arr vs (kbest s - 1)) (\<lambda>worst.
             if val < worst
             then res_bind (put_arr vs (kbest s - 1) val) (\<lambda>vs'. Inr (kbest s - 1, vs'))
             else Inr (0, vs)))
       (\<lambda>(pos, vs').
     res_bind (chk_int (samplecount s + 1)) (\<lambda>n.
     Inr (s\<lparr>vals := Some (sift_down vs' (nat pos)), samplecount := n\<rparr>))))"

definition has_converged :: "fcyc_st \<Rightarrow> bool res" where
  "has_converged s =
     (if samplecount s \<ge> kbest s
      then res_bind (the_vals s) (\<lambda>vs.
           res_bind (get_arr vs 0) (\<lambda>v0.
           res_bind (get_arr vs (kbest s - 1)) (\<lambda>vk.
           Inr ((1 + epsilon s) * v0 \<ge> vk))))
      else Inr False)"

text \<open>
  \<open>clear\<close>: reads a word of every cache block of the buffer, whose contents are \<open>buf\<close>; \<open>mal\<close> tells
  whether its allocation succeeds. A block size below 4 makes the stride 0 and the loop endless.
\<close>

partial_function (option) clear_loop :: "int list \<Rightarrow> int \<Rightarrow> int \<Rightarrow> int \<Rightarrow> int \<Rightarrow> int run" where
  "clear_loop buf cend incr cptr x =
     (if cptr < cend
      then run_bind (Some (get_arr buf cptr)) (\<lambda>v.
           run_bind (Some (chk_int (x + v))) (\<lambda>x'.
           clear_loop buf cend incr (cptr + incr) x'))
      else Some (Inr x))"

definition clear_op :: "bool \<Rightarrow> int list \<Rightarrow> fcyc_st \<Rightarrow> fcyc_st run" where
  "clear_op mal buf s =
     (if \<not> cache_buf s \<and> \<not> mal then Some (Inl (Exit 1))
      else
        (let incr = int_of_size (word_of_int (cache_block s) div 4);
             cend = uint (word_of_int (cache_bytes s) div 4 :: size_t)
         in run_bind (clear_loop buf cend incr 0 (sink s)) (\<lambda>x.
            Some (Inr (s\<lparr>cache_buf := True, sink := x\<rparr>)))))"

text \<open>
  What the hardware and the system deliver: reading \<open>i\<close> of the cycle counter and of the user time, and
  the readings a calibration takes that happens at that point. The state of the clock package is its
  static variables and the number of the next reading.
\<close>

record readings =
  rd_tsc :: "nat \<Rightarrow> 32 word \<times> 32 word"
  rd_utime :: "nat \<Rightarrow> int"
  rd_cal_cnt :: "nat \<Rightarrow> nat \<Rightarrow> real"
  rd_cal_tick :: "nat \<Rightarrow> nat \<Rightarrow> int"

type_synonym clock_st = "comp_st \<times> nat"

text \<open>The two pairs of calls around the function: the plain counter and the compensating one.\<close>

record timer =
  tm_start :: "clock_st \<Rightarrow> clock_st run"
  tm_stop :: "clock_st \<Rightarrow> (real \<times> clock_st) run"

definition plain_timer :: "readings \<Rightarrow> timer" where
  "plain_timer rd =
     \<lparr>tm_start = (\<lambda>(c, i). Some (Inr (c\<lparr>cyc := start_counter (rd_tsc rd i) (cyc c)\<rparr>, Suc i))),
      tm_stop = (\<lambda>(c, i). Some (Inr (get_counter (rd_tsc rd i) (cyc c), (c, Suc i))))\<rparr>"

definition comp_timer :: "readings \<Rightarrow> timer" where
  "comp_timer rd =
     \<lparr>tm_start = (\<lambda>(c, i).
        map_option (\<lambda>c'. Inr (c', Suc i))
          (start_comp_counter (rd_cal_cnt rd i) (rd_cal_tick rd i) (rd_utime rd i) (rd_tsc rd i) c)),
      tm_stop = (\<lambda>(c, i). Some (Inr (get_comp_counter (rd_tsc rd i) (rd_utime rd i) c, (c, Suc i))))\<rparr>"

text \<open>
  One measurement: the cache is cleared if asked for, \<open>f\<close> is run between the two calls of the timer,
  and the sample is added.
\<close>

definition measure_once ::
  "bool \<Rightarrow> int list \<Rightarrow> timer \<Rightarrow> ('s \<Rightarrow> 's res) \<Rightarrow> fcyc_st \<times> clock_st \<times> 's \<Rightarrow> (fcyc_st \<times> clock_st \<times> 's) run" where
  "measure_once mal_buf buf tm f st =
     (let (s, c, x) = st in
      run_bind (if clear_cache s \<noteq> 0 then clear_op mal_buf buf s else Some (Inr s)) (\<lambda>s1.
      run_bind (tm_start tm c) (\<lambda>c1.
      run_bind (Some (f x)) (\<lambda>x'.
      run_bind (tm_stop tm c1) (\<lambda>(cycles, c2).
      run_bind (Some (add_sample cycles s1)) (\<lambda>s2. Some (Inr (s2, c2, x'))))))))"

text \<open>The \<open>do ... while\<close> loop.\<close>

partial_function (option) fcyc_loop ::
  "bool \<Rightarrow> int list \<Rightarrow> timer \<Rightarrow> ('s \<Rightarrow> 's res) \<Rightarrow> fcyc_st \<times> clock_st \<times> 's \<Rightarrow> (fcyc_st \<times> clock_st \<times> 's) run" where
  "fcyc_loop mal_buf buf tm f st =
     run_bind (measure_once mal_buf buf tm f st) (\<lambda>st'.
     run_bind (Some (has_converged (fst st'))) (\<lambda>conv.
     if \<not> conv \<and> samplecount (fst st') < maxsamples (fst st')
     then fcyc_loop mal_buf buf tm f st'
     else Some (Inr st')))"

text \<open>\<open>fcyc\<close>; \<open>mal\<close> and \<open>mal_buf\<close> tell whether the allocations of the samples and of the cache buffer succeed.\<close>

definition fcyc ::
  "bool \<Rightarrow> bool \<Rightarrow> int list \<Rightarrow> readings \<Rightarrow> ('s \<Rightarrow> 's res) \<Rightarrow> fcyc_st \<times> clock_st \<times> 's \<Rightarrow>
     (real \<times> fcyc_st \<times> clock_st \<times> 's) run" where
  "fcyc mal mal_buf buf rd f st =
     (let (s, c, x) = st; s0 = init_sampler mal s in
      run_bind
        (if compensate s0 \<noteq> 0 then fcyc_loop mal_buf buf (comp_timer rd) f (s0, c, x)
         else fcyc_loop mal_buf buf (plain_timer rd) f (s0, c, x)) (\<lambda>(s1, c', x').
      run_bind (Some (the_vals s1)) (\<lambda>vs.
      run_bind (Some (get_arr vs 0)) (\<lambda>result.
      Some (Inr (result, s1\<lparr>vals := None\<rparr>, c', x'))))))"


definition set_fcyc_cache_size :: "int \<Rightarrow> fcyc_st \<Rightarrow> fcyc_st" where
  "set_fcyc_cache_size bytes s =
     (if bytes \<noteq> cache_bytes s then s\<lparr>cache_bytes := bytes, cache_buf := False\<rparr> else s)"

definition set_fcyc_cache_block :: "int \<Rightarrow> fcyc_st \<Rightarrow> fcyc_st" where
  "set_fcyc_cache_block bytes s = s\<lparr>cache_block := bytes\<rparr>"





section \<open>The insertion sort\<close>

lemma length_sift_down [simp]: "length (sift_down vs p) = length vs"
  by (induction vs p rule: sift_down.induct) auto

text \<open>Insertion after the elements that are not larger, as the loop does it.\<close>

fun ins :: "real \<Rightarrow> real list \<Rightarrow> real list" where
  "ins x [] = [x]"
| "ins x (y # ys) = (if x < y then x # y # ys else y # ins x ys)"

lemma mset_ins [simp]: "mset (ins x ys) = add_mset x (mset ys)"
  by (induction ys) auto

lemma sorted_ins: "sorted ys \<Longrightarrow> sorted (ins x ys)"
proof (induction ys)
  case (Cons y ys)
  have "set (ins x ys) = insert x (set ys)"
    using mset_ins [of x ys] by (metis set_mset_add_mset_insert set_mset_mset)
  with Cons show ?case by (auto simp: not_less)
qed simp

lemma ins_sort: "ins x (sort xs) = sort (xs @ [x])"
  by (rule properties_for_sort [symmetric]) (simp_all add: sorted_ins)

lemma length_ins [simp]: "length (ins x ys) = Suc (length ys)"
  by (induction ys) auto

lemma take_ins_small:
  "j < length ys \<Longrightarrow> x < ys ! j \<Longrightarrow> take (Suc j) (ins x ys) = ins x (take j ys)"
proof (induction ys arbitrary: j)
  case (Cons y ys)
  then show ?case by (cases j) auto
qed simp

lemma take_ins_large:
  "sorted ys \<Longrightarrow> j < length ys \<Longrightarrow> ys ! j \<le> x \<Longrightarrow> take (Suc j) (ins x ys) = take (Suc j) ys"
proof (induction ys arbitrary: j)
  case (Cons y ys)
  have "y \<le> (y # ys) ! j" using Cons.prems(1,2) by (cases j) (auto simp: sorted_simps)
  then have "\<not> x < y" using Cons.prems(3) by simp
  then show ?case using Cons by (cases j) auto
qed simp

text \<open>Sifting the element after a sorted prefix inserts it in order and leaves the rest alone.\<close>

lemma ins_snoc: "sorted (xs @ [z]) \<Longrightarrow> ins x (xs @ [z]) = (if x < z then ins x xs @ [z] else xs @ [z, x])"
  by (induction xs) auto

lemma sift_down_sorted:
  "sorted xs \<Longrightarrow> sift_down (xs @ x # ys) (length xs) = ins x xs @ ys"
proof (induction xs arbitrary: ys rule: rev_induct)
  case (snoc z xs)
  have st: "sorted xs" using snoc.prems by (simp add: sorted_append)
  show ?case
  proof (cases "x < z")
    case True
    then have "sift_down ((xs @ [z]) @ x # ys) (length (xs @ [z])) = sift_down (xs @ x # z # ys) (length xs)"
      by (simp add: nth_append list_update_append)
    with snoc.IH [OF st] True ins_snoc [OF snoc.prems, of x] show ?thesis by simp
  next
    case False
    with ins_snoc [OF snoc.prems, of x] show ?thesis by (simp add: nth_append)
  qed
qed simp

section \<open>The sampler keeps the K best\<close>

text \<open>After the samples \<open>xs\<close> the array holds the K smallest, in order, and zeros where there are fewer.\<close>

definition best :: "nat \<Rightarrow> real list \<Rightarrow> real list" where
  "best k xs = take k (sort xs) @ replicate (k - length xs) 0"

definition sampler_inv :: "fcyc_st \<Rightarrow> real list \<Rightarrow> bool" where
  "sampler_inv s xs \<longleftrightarrow> 0 < kbest s \<and> kbest s \<le> INT_MAX \<and> samplecount s = int (length xs) \<and>
     vals s = Some (best (nat (kbest s)) xs)"

lemma length_best [simp]: "length (best k xs) = k"
  by (simp add: best_def)

lemma best_0: "0 < k \<Longrightarrow> xs \<noteq> [] \<Longrightarrow> best k xs ! 0 = Min (set xs)"
proof -
  assume k: "0 < k" and xs: "xs \<noteq> []"
  then obtain y ys where s: "sort xs = y # ys" by (cases "sort xs") (auto dest: arg_cong [where f = set])
  have st: "set xs = insert y (set ys)" using s by (metis list.simps(15) set_sort)
  moreover have "\<forall>z\<in>set ys. y \<le> z" using s by (metis sorted_simps(2) sorted_sort)
  ultimately have "Min (set xs) = y" by (intro Min_eqI) auto
  then show ?thesis using k s by (cases k) (simp_all add: best_def)
qed

lemma add_sample_ok:
  assumes inv: "sampler_inv s xs" and n: "int (length xs) < INT_MAX"
  shows "\<exists>s'. add_sample x s = Inr s' \<and> sampler_inv s' (xs @ [x]) \<and>
    s' = s\<lparr>vals := vals s', samplecount := samplecount s'\<rparr>"
proof -
  let ?k = "nat (kbest s)" and ?n = "length xs"
  have k: "0 < kbest s" "0 < ?k" "int ?k = kbest s" and sc: "samplecount s = int ?n"
    and vs: "vals s = Some (best ?k xs)" and kM: "kbest s \<le> INT_MAX"
    using inv by (auto simp: sampler_inv_def)
  have rng: "in_int (int ?n + 1)" using n by (simp add: in_int_def INT_MIN_def)
  have srt: "sort (xs @ [x]) = ins x (sort xs)" by (simp add: ins_sort)
  show ?thesis
  proof (cases "?n < ?k")
    case True
    have "best ?k xs = sort xs @ 0 # replicate (?k - Suc ?n) 0"
      using True by (simp add: best_def Suc_diff_Suc flip: replicate_Suc)
    then have "sift_down ((best ?k xs)[?n := x]) ?n = ins x (sort xs) @ replicate (?k - Suc ?n) 0"
      using sift_down_sorted [of "sort xs" x "replicate (?k - Suc ?n) 0"] by (simp add: list_update_append)
    also have "\<dots> = best ?k (xs @ [x])" using True by (simp add: best_def srt)
    finally show ?thesis
      using True k sc vs rng kM by (auto simp: add_sample_def the_vals_def sampler_inv_def)
  next
    case False
    let ?ws = "take ?k (sort xs)"
    have b: "best ?k xs = ?ws" "length ?ws = ?k" using False by (auto simp: best_def)
    have j: "?k - 1 < length (sort xs)" "Suc (?k - 1) = ?k" using False k(2) by auto
    have at: "nat (kbest s - 1) = ?k - 1" "0 \<le> kbest s - 1" "kbest s - 1 < int (length ?ws)"
      using k b(2) by auto
    have worst: "?ws ! (?k - 1) = sort xs ! (?k - 1)" using k(2) by simp
    show ?thesis
    proof (cases "x < sort xs ! (?k - 1)")
      case True
      have ws: "?ws = take (?k - 1) (sort xs) @ [sort xs ! (?k - 1)]"
        using take_Suc_conv_app_nth [OF j(1)] j(2) by simp
      have "sift_down (?ws[?k - 1 := x]) (?k - 1) = ins x (take (?k - 1) (sort xs))"
        using sift_down_sorted [of "take (?k - 1) (sort xs)" x "[]"] j(1)
        by (subst ws) (simp add: list_update_append sorted_wrt_take)
      also have "\<dots> = best ?k (xs @ [x])"
        using take_ins_small [OF j(1) True] j(2) False by (simp add: best_def srt)
      finally show ?thesis
        using True False worst at b k sc vs rng kM
        by (auto simp: add_sample_def the_vals_def sampler_inv_def)
    next
      case large: False
      then have "best ?k (xs @ [x]) = ?ws"
        using take_ins_large [OF _ j(1), of x] j(2) False by (simp add: best_def srt)
      with large False worst at b k sc vs rng kM show ?thesis
        by (auto simp: add_sample_def the_vals_def sampler_inv_def)
    qed
  qed
qed

text \<open>
  C21: the sampler is a streaming selection of the K best: if the array holds the K smallest of the
  samples so far in ascending order, then after \<open>add_sample\<close> it holds the K smallest including the
  new one, in ascending order, and no access leaves the array.
\<close>

theorem add_sample_keeps_best:
  assumes "sampler_inv s xs" and "int (length xs) < INT_MAX"
  shows "\<exists>s'. add_sample x s = Inr s' \<and> sampler_inv s' (xs @ [x])"
  using add_sample_ok [OF assms, of x] by blast

theorem add_sample_keeps_best_witness:
  "\<exists>s'. add_sample 12 (init_sampler True fcyc_init_st) = Inr s' \<and> sampler_inv s' [12]"
proof -
  have "sampler_inv (init_sampler True fcyc_init_st) []"
    by (simp add: sampler_inv_def init_sampler_def fcyc_init_st_def best_def INT_MAX_def)
  from add_sample_keeps_best [OF this, of 12] show ?thesis by (simp add: INT_MAX_def)
qed

section \<open>Clearing the cache\<close>

text \<open>
  Over a buffer of any words the loop ends and reads inside the buffer only. The sum may overflow
  unless all words are 0.
\<close>

lemma clear_loop_sums:
  assumes "0 < incr" and "0 \<le> cptr" and "in_int x"
  shows "clear_loop buf (int (length buf)) incr cptr x = Some (Inl SignedOverflow) \<and> (\<exists>w\<in>set buf. w \<noteq> 0) \<or>
    (\<exists>x'. clear_loop buf (int (length buf)) incr cptr x = Some (Inr x') \<and> in_int x')"
  using assms(2,3)
proof (induction "nat (int (length buf) - cptr)" arbitrary: cptr x rule: less_induct)
  case less
  show ?case
  proof (cases "cptr < int (length buf)")
    case True
    let ?w = "buf ! nat cptr"
    have w: "?w \<in> set buf" using True less.prems(1) by simp
    show ?thesis
    proof (cases "in_int (x + ?w)")
      case rng: True
      then have "clear_loop buf (int (length buf)) incr cptr x =
          clear_loop buf (int (length buf)) incr (cptr + incr) (x + ?w)"
        using True less.prems by (subst clear_loop.simps) simp
      with less.hyps [of "cptr + incr" "x + ?w"] rng True less.prems(1) assms(1) show ?thesis by simp
    next
      case False
      then have "?w \<noteq> 0" using less.prems(2) by auto
      with w False True less.prems(1) show ?thesis by (subst clear_loop.simps) (auto simp: chk_int_def)
    qed
  next
    case False
    with less.prems(2) show ?thesis by (auto simp: clear_loop.simps)
  qed
qed

lemma size_div4: "0 \<le> b \<Longrightarrow> b \<le> INT_MAX \<Longrightarrow> uint (word_of_int b div 4 :: size_t) = b div 4"
  by (simp add: uint_div uint64_of_int INT_MAX_def)

text \<open>
  With a block size of at least 4 bytes, \<open>clear\<close> over a buffer of the configured size returns, reads
  inside the buffer only, and changes the buffer pointer and \<open>sink\<close>, unless the sum of the words
  overflows, which are those \<open>malloc\<close> left there.
\<close>

lemma clear_ok:
  assumes "4 \<le> cache_block s" and "cache_block s \<le> INT_MAX" and "0 \<le> cache_bytes s"
    and "cache_bytes s \<le> INT_MAX" and "in_int (sink s)" and "length buf = nat (cache_bytes s div 4)"
  shows "clear_op True buf s = Some (Inl SignedOverflow) \<and> (\<exists>w\<in>set buf. w \<noteq> 0) \<or>
    (\<exists>x. clear_op True buf s = Some (Inr (s\<lparr>cache_buf := True, sink := x\<rparr>)) \<and> in_int x)"
proof -
  have incr: "int_of_size (word_of_int (cache_block s) div 4) = cache_block s div 4"
    using assms(1,2) size_div4 [of "cache_block s"] by (subst int_of_size_small) (auto simp: INT_MAX_def)
  have cend: "uint (word_of_int (cache_bytes s) div 4 :: size_t) = int (length buf)"
    using size_div4 [OF assms(3,4)] assms(3,6) by simp
  have "0 < cache_block s div 4" using assms(1) by simp
  from clear_loop_sums [OF this order_refl assms(5), of buf] show ?thesis
    unfolding clear_op_def Let_def incr cend by auto
qed

section \<open>The measurement loop\<close>

text \<open>The K smallest of the samples are within the tolerance of the smallest.\<close>

definition converged :: "fcyc_st \<Rightarrow> real list \<Rightarrow> bool" where
  "converged s xs \<longleftrightarrow> kbest s \<le> int (length xs) \<and>
     sort xs ! nat (kbest s - 1) \<le> (1 + epsilon s) * Min (set xs)"

lemma has_converged_ok:
  assumes "sampler_inv s xs" and "xs \<noteq> []"
  shows "has_converged s = Inr (converged s xs)"
proof -
  have k: "0 < kbest s" "0 < nat (kbest s)" using assms(1) by (auto simp: sampler_inv_def)
  have "best (nat (kbest s)) xs ! nat (kbest s - 1) = sort xs ! nat (kbest s - 1)"
    if "kbest s \<le> int (length xs)"
    using that k by (simp add: best_def nth_append)
  with assms(1) k best_0 [OF k(2) assms(2)] show ?thesis
    by (auto simp: has_converged_def sampler_inv_def the_vals_def converged_def)
qed

text \<open>
  What the loop needs of \<open>clear\<close>, when it is called: blocks of at least four bytes, and a buffer of
  the configured size. With a buffer of zeros no sum overflows.
\<close>

definition cache_fits :: "int list \<Rightarrow> fcyc_st \<Rightarrow> bool" where
  "cache_fits buf s \<longleftrightarrow> clear_cache s = 0 \<or>
     4 \<le> cache_block s \<and> cache_block s \<le> INT_MAX \<and> 0 \<le> cache_bytes s \<and> cache_bytes s \<le> INT_MAX \<and>
     in_int (sink s) \<and> length buf = nat (cache_bytes s div 4)"

definition cache_ok :: "int list \<Rightarrow> fcyc_st \<Rightarrow> bool" where
  "cache_ok buf s \<longleftrightarrow> clear_cache s = 0 \<or>
     4 \<le> cache_block s \<and> cache_block s \<le> INT_MAX \<and> 0 \<le> cache_bytes s \<and> cache_bytes s \<le> INT_MAX \<and>
     in_int (sink s) \<and> buf = replicate (nat (cache_bytes s div 4)) 0"

text \<open>A sum that can overflow is one of words that are not all 0.\<close>

definition overflows :: "int list \<Rightarrow> fcyc_st \<Rightarrow> 'a run \<Rightarrow> bool" where
  "overflows buf s r \<longleftrightarrow> r = Some (Inl SignedOverflow) \<and> clear_cache s \<noteq> 0 \<and> (\<exists>w\<in>set buf. w \<noteq> 0)"

lemma cache_okD: "cache_ok buf s \<Longrightarrow> cache_fits buf s" "cache_ok buf s \<Longrightarrow> \<not> overflows buf s r"
  by (auto simp: cache_ok_def cache_fits_def overflows_def)

text \<open>From the clock states \<open>cs k\<close> on, the timer measures \<open>meas k\<close>.\<close>

definition timer_runs :: "timer \<Rightarrow> (nat \<Rightarrow> clock_st) \<Rightarrow> (nat \<Rightarrow> real) \<Rightarrow> bool" where
  "timer_runs tm cs meas \<longleftrightarrow>
     (\<forall>k. \<exists>c1. tm_start tm (cs k) = Some (Inr c1) \<and> tm_stop tm c1 = Some (Inr (meas k, cs (Suc k))))"

definition same_config :: "fcyc_st \<Rightarrow> fcyc_st \<Rightarrow> bool" where
  "same_config s s' \<longleftrightarrow> maxsamples s' = maxsamples s \<and> epsilon s' = epsilon s \<and> kbest s' = kbest s \<and>
     clear_cache s' = clear_cache s \<and> cache_block s' = cache_block s \<and> cache_bytes s' = cache_bytes s \<and>
     (in_int (sink s) \<longrightarrow> in_int (sink s'))"

lemma same_config_cache: "same_config s s' \<Longrightarrow> cache_fits buf s \<Longrightarrow> cache_fits buf s'"
  "same_config s s' \<Longrightarrow> overflows buf s' r \<Longrightarrow> overflows buf s r"
  by (auto simp: same_config_def cache_fits_def overflows_def)

lemma same_config_converged: "same_config s s' \<Longrightarrow> converged s' xs = converged s xs"
  by (simp add: same_config_def converged_def)

lemma measure_once_ok:
  assumes "cache_fits buf s" and "timer_runs tm cs meas" and "sampler_inv s xs" and "int (length xs) < INT_MAX"
  shows "overflows buf s (measure_once True buf tm (\<lambda>x. Inr (g x)) (s, cs k, x)) \<or>
    (\<exists>s'. measure_once True buf tm (\<lambda>x. Inr (g x)) (s, cs k, x) = Some (Inr (s', cs (Suc k), g x)) \<and>
      sampler_inv s' (xs @ [meas k]) \<and> same_config s s')"
proof -
  let ?clear = "if clear_cache s \<noteq> 0 then clear_op True buf s else Some (Inr s)"
  have "overflows buf s ?clear \<or> (\<exists>b y. ?clear = Some (Inr (s\<lparr>cache_buf := b, sink := y\<rparr>)) \<and>
      (in_int (sink s) \<longrightarrow> in_int y))"
  proof (cases "clear_cache s = 0")
    case True
    then have "?clear = Some (Inr (s\<lparr>cache_buf := cache_buf s, sink := sink s\<rparr>))" by simp
    then show ?thesis by blast
  next
    case False
    with assms(1) clear_ok [of s buf] show ?thesis by (auto simp: cache_fits_def overflows_def)
  qed
  then show ?thesis
  proof (elim disjE exE conjE)
    assume "overflows buf s ?clear"
    then show ?thesis by (auto simp: overflows_def measure_once_def)
  next
    fix b y assume b: "?clear = Some (Inr (s\<lparr>cache_buf := b, sink := y\<rparr>))" "in_int (sink s) \<longrightarrow> in_int y"
    obtain c1 where c1: "tm_start tm (cs k) = Some (Inr c1)" "tm_stop tm c1 = Some (Inr (meas k, cs (Suc k)))"
      using assms(2) unfolding timer_runs_def by blast
    have "sampler_inv (s\<lparr>cache_buf := b, sink := y\<rparr>) xs" using assms(3) by (simp add: sampler_inv_def)
    from add_sample_ok [OF this assms(4), of "meas k"] obtain s2 where
      s2: "add_sample (meas k) (s\<lparr>cache_buf := b, sink := y\<rparr>) = Inr s2" "sampler_inv s2 (xs @ [meas k])"
      "s2 = s\<lparr>cache_buf := b, sink := y, vals := vals s2, samplecount := samplecount s2\<rparr>"
      by auto
    have "same_config s s2" unfolding same_config_def by (intro conjI; subst s2(3)) (simp_all add: b(2))
    with b(1) c1 s2(1,2) show ?thesis by (simp add: measure_once_def)
  qed
qed

lemma fcyc_loop_ok:
  assumes tm: "timer_runs tm cs meas" and "cache_fits buf s" and "sampler_inv s (map meas [0..<k])"
    and "k = 0 \<or> int k < maxsamples s" and "maxsamples s \<le> INT_MAX"
  shows "overflows buf s (fcyc_loop True buf tm (\<lambda>x. Inr (g x)) (s, cs k, x)) \<or>
    (\<exists>n s'. k < n \<and> (n = 1 \<or> int n \<le> maxsamples s) \<and>
      fcyc_loop True buf tm (\<lambda>x. Inr (g x)) (s, cs k, x) = Some (Inr (s', cs n, (g ^^ (n - k)) x)) \<and>
      sampler_inv s' (map meas [0..<n]) \<and>
      (converged s (map meas [0..<n]) \<or> int n \<ge> maxsamples s))"
  using assms(2-)
proof (induction "nat (maxsamples s - int k)" arbitrary: k s x rule: less_induct)
  case less
  let ?loop = "\<lambda>s k x. fcyc_loop True buf tm (\<lambda>x. Inr (g x)) (s, cs k, x)"
  have "int (length (map meas [0..<k])) < INT_MAX" using less.prems(3,4) by (auto simp: INT_MAX_def)
  from measure_once_ok [OF less.prems(1) tm less.prems(2) this, of g k x]
  consider "overflows buf s (measure_once True buf tm (\<lambda>x. Inr (g x)) (s, cs k, x))"
    | s1 where "measure_once True buf tm (\<lambda>x. Inr (g x)) (s, cs k, x) = Some (Inr (s1, cs (Suc k), g x))"
      "sampler_inv s1 (map meas [0..<Suc k])" "same_config s s1"
    by auto
  then show ?case
  proof cases
    case 1
    then have "overflows buf s (?loop s k x)" by (subst fcyc_loop.simps) (auto simp: overflows_def)
    then show ?thesis ..
  next
    case (2 s1)
    then have mx: "maxsamples s1 = maxsamples s" by (simp add: same_config_def)
    let ?xs = "map meas [0..<Suc k]"
    have conv: "has_converged s1 = Inr (converged s ?xs)"
      using has_converged_ok [OF 2(2)] same_config_converged [OF 2(3)] by simp
    have cnt: "samplecount s1 = int (Suc k)" using 2(2) by (simp add: sampler_inv_def)
    show ?thesis
    proof (cases "\<not> converged s ?xs \<and> int (Suc k) < maxsamples s")
      case True
      then have loop: "?loop s k x = ?loop s1 (Suc k) (g x)"
        using 2(1) mx conv cnt by (subst fcyc_loop.simps) (simp add: converged_def)
      have "nat (maxsamples s1 - int (Suc k)) < nat (maxsamples s - int k)" using True mx by auto
      from less.hyps [OF this same_config_cache(1) [OF 2(3) less.prems(1)] 2(2), of "g x"] True mx less.prems(4)
      consider "overflows buf s1 (?loop s1 (Suc k) (g x))"
        | n s' where "Suc k < n" "n = 1 \<or> int n \<le> maxsamples s1"
          "?loop s1 (Suc k) (g x) = Some (Inr (s', cs n, (g ^^ (n - Suc k)) (g x)))"
          "sampler_inv s' (map meas [0..<n])" "converged s1 (map meas [0..<n]) \<or> int n \<ge> maxsamples s1"
        by auto
      then show ?thesis
      proof cases
        case 1
        then show ?thesis unfolding loop by (intro disjI1 same_config_cache(2) [OF 2(3)])
      next
        case n: (2 n s')
        have "(g ^^ (n - Suc k)) (g x) = (g ^^ (n - k)) x"
          using n(1) by (metis Suc_diff_Suc Suc_lessD funpow_Suc_right o_apply)
        then show ?thesis
          unfolding loop n(3) using n mx same_config_converged [OF 2(3)]
          by (intro disjI2 exI [of _ n] exI [of _ s']) auto
      qed
    next
      case False
      have "?loop s k x = Some (Inr (s1, cs (Suc k), g x))"
        using 2(1) mx conv cnt False by (subst fcyc_loop.simps) auto
      with False 2(2) less.prems(3) show ?thesis
        by (intro disjI2 exI [of _ "Suc k"] exI [of _ s1]) auto
    qed
  qed
qed

section \<open>What the timers measure\<close>

text \<open>The cycles between the two readings of measurement \<open>k\<close>, and the part the timer ticks are charged with.\<close>

definition elapsed :: "readings \<Rightarrow> nat \<Rightarrow> nat \<Rightarrow> real" where
  "elapsed rd i k = of_int ((tsc_value (rd_tsc rd (i + 2 * k + 1)) - tsc_value (rd_tsc rd (i + 2 * k))) mod 2 ^ 64)"

definition ticks_cost :: "readings \<Rightarrow> real \<Rightarrow> nat \<Rightarrow> nat \<Rightarrow> real" where
  "ticks_cost rd cpt i k = of_int (rd_utime rd (i + 2 * k + 1) - rd_utime rd (i + 2 * k)) * cpt"

definition sample :: "readings \<Rightarrow> fcyc_st \<Rightarrow> clock_st \<Rightarrow> nat \<Rightarrow> real" where
  "sample rd s c k =
     (if compensate s = 0 then elapsed rd (snd c) k
      else elapsed rd (snd c) k - ticks_cost rd (cyc_per_tick (fst c)) (snd c) k)"

lemma plain_timer_runs: "\<exists>cs. cs 0 = c \<and> timer_runs (plain_timer rd) cs (elapsed rd (snd c))"
proof -
  obtain s i where c: "c = (s, i)" by (cases c)
  define cs where "cs k = (if k = 0 then s else s\<lparr>cyc := start_counter (rd_tsc rd (i + 2 * (k - 1))) (cyc s)\<rparr>, i + 2 * k)"
    for k
  have "start_counter t (cyc (fst (cs k))) = start_counter t (cyc s)" for t k
    by (simp add: cs_def start_counter_def split: prod.split)
  then have "timer_runs (plain_timer rd) cs (elapsed rd i)"
    by (simp add: timer_runs_def plain_timer_def cs_def elapsed_def get_counter_start case_prod_beta)
  then show ?thesis by (intro exI [of _ cs]) (simp add: c cs_def)
qed

lemma comp_timer_runs:
  assumes "cyc_per_tick (fst c) \<noteq> 0"
  shows "\<exists>cs. cs 0 = c \<and> timer_runs (comp_timer rd) cs
    (\<lambda>k. elapsed rd (snd c) k - ticks_cost rd (cyc_per_tick (fst c)) (snd c) k)"
proof -
  obtain s i where c: "c = (s, i)" by (cases c)
  define cs where "cs k = (if k = 0 then s
      else s\<lparr>start_tick := rd_utime rd (i + 2 * (k - 1)), cyc := start_counter (rd_tsc rd (i + 2 * (k - 1))) (cyc s)\<rparr>,
    i + 2 * k)" for k
  have "start_counter t (cyc (fst (cs k))) = start_counter t (cyc s)" for t k
    by (simp add: cs_def start_counter_def split: prod.split)
  then have "timer_runs (comp_timer rd) cs (\<lambda>k. elapsed rd i k - ticks_cost rd (cyc_per_tick s) i k)"
    using assms
    by (simp add: timer_runs_def comp_timer_def cs_def elapsed_def ticks_cost_def start_comp_counter_def
        get_comp_counter_def get_counter_start case_prod_beta c)
  then show ?thesis by (intro exI [of _ cs]) (simp add: c cs_def)
qed

lemma fcyc_timed:
  assumes "timer_runs (if compensate s \<noteq> 0 then comp_timer rd else plain_timer rd) cs meas" and "cs 0 = c"
    and "cache_fits buf s" and "0 < kbest s" and "kbest s \<le> INT_MAX" and "maxsamples s \<le> INT_MAX"
  shows "overflows buf s (fcyc True True buf rd (\<lambda>x. Inr (g x)) (s, c, x)) \<or>
    (\<exists>n s' c'. 0 < n \<and> (n = 1 \<or> int n \<le> maxsamples s) \<and>
      fcyc True True buf rd (\<lambda>x. Inr (g x)) (s, c, x) =
        Some (Inr (Min (meas ` {0..<n}), s', c', (g ^^ n) x)) \<and> vals s' = None \<and>
      (int n < maxsamples s \<longrightarrow> converged s (map meas [0..<n])))"
proof -
  let ?s = "init_sampler True s"
  let ?tm = "if compensate s \<noteq> 0 then comp_timer rd else plain_timer rd"
  have inv: "sampler_inv ?s (map meas [0..<0])"
    using assms(4,5) by (simp add: sampler_inv_def init_sampler_def best_def)
  have eq: "maxsamples ?s = maxsamples s" "compensate ?s = compensate s" "kbest ?s = kbest s" "epsilon ?s = epsilon s"
    "cache_fits buf ?s" "clear_cache ?s = clear_cache s"
    using assms(3) by (simp_all add: init_sampler_def cache_fits_def)
  from fcyc_loop_ok [OF assms(1) eq(5) inv, of g x] assms(2,6) eq
  consider "overflows buf ?s (fcyc_loop True buf ?tm (\<lambda>x. Inr (g x)) (?s, c, x))"
    | n s' where "0 < n" "n = 1 \<or> int n \<le> maxsamples s"
      "fcyc_loop True buf ?tm (\<lambda>x. Inr (g x)) (?s, c, x) = Some (Inr (s', cs n, (g ^^ n) x))"
      "sampler_inv s' (map meas [0..<n])" "converged ?s (map meas [0..<n]) \<or> int n \<ge> maxsamples s"
    by auto
  then show ?thesis
  proof cases
    case 1
    then have "overflows buf s (fcyc True True buf rd (\<lambda>x. Inr (g x)) (s, c, x))"
      by (auto simp: overflows_def fcyc_def Let_def eq split: if_splits)
    then show ?thesis ..
  next
    case (2 n s')
    have k: "0 < nat (kbest s')" using 2(4) by (simp add: sampler_inv_def)
    have "best (nat (kbest s')) (map meas [0..<n]) ! 0 = Min (meas ` {0..<n})"
      using best_0 [OF k, of "map meas [0..<n]"] 2(1) by simp
    then have "fcyc True True buf rd (\<lambda>x. Inr (g x)) (s, c, x) =
        Some (Inr (Min (meas ` {0..<n}), s'\<lparr>vals := None\<rparr>, cs n, (g ^^ n) x))"
      using 2(3,4) k eq(2) by (simp add: fcyc_def Let_def the_vals_def sampler_inv_def split: if_splits)
    then show ?thesis
      using 2(1,2,5) eq by (intro disjI2 exI [of _ n] exI [of _ "s'\<lparr>vals := None\<rparr>"]) (auto simp: converged_def)
  qed
qed

lemma fcyc_ok:
  assumes "cache_ok buf s" and "0 < kbest s" and "kbest s \<le> INT_MAX" and "maxsamples s \<le> INT_MAX"
    and "compensate s \<noteq> 0 \<Longrightarrow> cyc_per_tick (fst c) \<noteq> 0"
  shows "\<exists>n s' c'. 0 < n \<and> (n = 1 \<or> int n \<le> maxsamples s) \<and>
    fcyc True True buf rd (\<lambda>x. Inr (g x)) (s, c, x) =
      Some (Inr (Min (sample rd s c ` {0..<n}), s', c', (g ^^ n) x)) \<and> vals s' = None \<and>
    (int n < maxsamples s \<longrightarrow> converged s (map (sample rd s c) [0..<n]))"
proof -
  obtain cs where "cs 0 = c"
    "timer_runs (if compensate s \<noteq> 0 then comp_timer rd else plain_timer rd) cs (sample rd s c)"
    using plain_timer_runs [of c rd] comp_timer_runs [of c rd] assms(5)
    by (cases "compensate s = 0") (auto simp: sample_def [abs_def])
  from fcyc_timed [OF this(2,1) cache_okD(1) [OF assms(1)] assms(2-4), of g x] cache_okD(2) [OF assms(1)]
  show ?thesis by blast
qed

text \<open>
  C19: \<open>fcyc\<close> always returns. It runs the function some \<open>n\<close> times, \<open>n\<close> at least 1 and at most the
  limit on the samples, and returns the smallest of the \<open>n\<close> measurements; when it stops before the
  limit, the K smallest measurements lie within the tolerance of each other. The array is freed. A
  measurement is the exact number of cycles between the two readings of the counter, less, for the
  compensating counter once it is calibrated, the cost of the timer ticks in between.
\<close>

theorem fcyc_returns_minimum:
  assumes "cache_ok buf s" and "0 < kbest s" and "kbest s \<le> INT_MAX" and "maxsamples s \<le> INT_MAX"
    and "compensate s \<noteq> 0 \<Longrightarrow> cyc_per_tick (fst c) \<noteq> 0"
  shows "\<exists>n s' c'. 0 < n \<and> (n = 1 \<or> int n \<le> maxsamples s) \<and>
    fcyc True True buf rd (\<lambda>x. Inr (g x)) (s, c, x) =
      Some (Inr (Min (sample rd s c ` {0..<n}), s', c', (g ^^ n) x)) \<and> vals s' = None \<and>
    (int n < maxsamples s \<longrightarrow> converged s (map (sample rd s c) [0..<n]))"
  using assms by (rule fcyc_ok)

definition demo_readings :: readings where
  "demo_readings = \<lparr>rd_tsc = (\<lambda>i. (0, of_nat (100 * i))), rd_utime = int, rd_cal_cnt = (\<lambda>_ i. 5000 * real i),
     rd_cal_tick = (\<lambda>_. int)\<rparr>"

definition demo_clock :: clock_st where
  "demo_clock = (\<lparr>cyc_per_tick = 0, start_tick = 0, cyc = \<lparr>cyc_hi = 0, cyc_lo = 0\<rparr>\<rparr>, 0)"

theorem fcyc_returns_minimum_witness:
  "\<exists>n s' c'. 0 < n \<and> (n = 1 \<or> int n \<le> 20) \<and>
    fcyc True True [] demo_readings (\<lambda>x::int. Inr (x + 1)) (fcyc_init_st, demo_clock, 0) =
      Some (Inr (Min (sample demo_readings fcyc_init_st demo_clock ` {0..<n}), s', c', ((\<lambda>x. x + 1) ^^ n) 0)) \<and>
    vals s' = None"
proof -
  have "cache_ok [] fcyc_init_st" by (simp add: cache_ok_def fcyc_init_st_def)
  from fcyc_returns_minimum [OF this, of demo_clock demo_readings "\<lambda>x::int. x + 1" 0]
  show ?thesis by (auto simp: fcyc_init_st_def INT_MAX_def)
qed

section \<open>The timing package with the cycle counter\<close>



definition fsecs_itimer :: "timeval \<Rightarrow> timeval \<Rightarrow> ('s \<Rightarrow> 's res) \<Rightarrow> 's \<Rightarrow> (real \<times> 's) res" where
  "fsecs_itimer r1 r2 f s = ftimer_itimer r1 r2 f 10 s"








end
