(* ===== verification/HTable_Hash.thy ===== *)
theory HTable_Hash
  imports C_Prelude
begin

text \<open>
  The arithmetic of \<open>threadlab/htable.c\<close>: the hash code of a string (\<open>madd\<close>, \<open>mmul\<close>,
  \<open>hashcode\<close>), and the search for a prime table size (\<open>is_prime\<close>, \<open>get_prime\<close>). All of it is
  \<open>int\<close> arithmetic: an overflow is an error of the model, and the lemmas show there is none.
\<close>

section \<open>Hash codes\<close>

definition BIG_PRIME :: int where "BIG_PRIME = 1560007"

definition ht_madd :: "int \<Rightarrow> int \<Rightarrow> int res" where
  "ht_madd a b =
     res_bind (chk_int (a + b)) (\<lambda>s. if s > BIG_PRIME then chk_int (s - BIG_PRIME) else Inr s)"

definition ht_mmul :: "int \<Rightarrow> int \<Rightarrow> int res" where
  "ht_mmul a b = res_bind (chk_int (a * b)) (\<lambda>x. Inr (x smod BIG_PRIME))"

fun hash_loop :: "int \<Rightarrow> string \<Rightarrow> int res" where
  "hash_loop p [] = Inr p"
| "hash_loop p (c # cs) =
     (if c = NUL then Inr p
      else res_bind (ht_mmul p 256) (\<lambda>x. res_bind (ht_madd x (schar c)) (\<lambda>q. hash_loop q cs)))"

definition hashcode :: "string \<Rightarrow> int res" where
  "hashcode s = hash_loop 0 s"

section \<open>Prime sizes\<close>

function is_prime_loop :: "int \<Rightarrow> int \<Rightarrow> int res" where
  "is_prime_loop n i =
     (if i < n
      then if n smod i = 0 then Inr 0
           else if in_int (i + 2) then is_prime_loop n (i + 2) else Inl SignedOverflow
      else Inr 1)"
  by pat_completeness auto
termination
  by (relation "measure (\<lambda>(n, i). nat (n - i))") auto

declare is_prime_loop.simps [simp del]

definition is_prime :: "int \<Rightarrow> int res" where
  "is_prime n =
     (if n \<le> 3 then Inr 1
      else if n smod 2 = 0 then Inr 0
      else is_prime_loop n 3)"

text \<open>The search stops at \<open>INT_MAX\<close> at the latest, where \<open>n++\<close> would overflow.\<close>

function get_prime :: "int \<Rightarrow> int res" where
  "get_prime n =
     (case is_prime n of
        Inl e \<Rightarrow> Inl e
      | Inr b \<Rightarrow> if b \<noteq> 0 then Inr n
               else if n < INT_MAX then get_prime (n + 1) else Inl SignedOverflow)"
  by pat_completeness auto
termination
  by (relation "measure (\<lambda>n. nat (INT_MAX - n))") auto

declare get_prime.simps [simp del]

section \<open>The hash code of any string is defined and bounded\<close>

definition ascii_key :: "string \<Rightarrow> bool" where
  "ascii_key s \<longleftrightarrow> (\<forall>c\<in>set s. c \<noteq> NUL \<and> of_char c < (128 :: int))"

lemma smod_bound: "0 < b \<Longrightarrow> \<bar>a smod b\<bar> < b" for a b :: int
  by (auto simp: signed_modulo_int_def abs_mult sgn_if)

lemma smod_nonneg_bound: "0 \<le> a \<Longrightarrow> 0 < b \<Longrightarrow> 0 \<le> a smod b \<and> a smod b < b" for a b :: int
  by (simp add: smod_nonneg)

lemma ht_madd_ok:
  assumes "\<bar>x\<bar> < BIG_PRIME" and "- 128 \<le> y" and "y < 128"
  shows "ht_madd x y = Inr (if x + y > BIG_PRIME then x + y - BIG_PRIME else x + y)"
proof -
  have "in_int (x + y)" "in_int (x + y - BIG_PRIME)"
    using assms by (auto simp: in_int_iff BIG_PRIME_def)
  then show ?thesis by (simp add: ht_madd_def)
qed

lemma hash_step:
  assumes "\<bar>p\<bar> \<le> BIG_PRIME + 127"
  shows "\<exists>q. res_bind (ht_mmul p 256) (\<lambda>x. ht_madd x (schar c)) = Inr q \<and> \<bar>q\<bar> \<le> BIG_PRIME + 127 \<and>
    (0 \<le> p \<longrightarrow> 0 \<le> schar c \<longrightarrow> 0 \<le> q \<and> q \<le> BIG_PRIME)"
proof -
  let ?x = "p * 256 smod BIG_PRIME"
  have x: "\<bar>?x\<bar> < BIG_PRIME" by (rule smod_bound) (simp add: BIG_PRIME_def)
  have nn: "0 \<le> p \<Longrightarrow> 0 \<le> ?x" by (simp add: smod_nonneg BIG_PRIME_def)
  have "ht_mmul p 256 = Inr ?x"
    using assms by (simp add: ht_mmul_def in_int_iff BIG_PRIME_def abs_le_iff)
  then show ?thesis
    using x nn schar_range [of c] ht_madd_ok [OF x, of "schar c"] by (auto simp: BIG_PRIME_def)
qed

lemma hash_loop_ok:
  assumes "\<bar>p\<bar> \<le> BIG_PRIME + 127"
  shows "\<exists>h. hash_loop p s = Inr h \<and> \<bar>h\<bar> \<le> BIG_PRIME + 127 \<and>
    (ascii_key s \<longrightarrow> 0 \<le> p \<longrightarrow> p \<le> BIG_PRIME \<longrightarrow> 0 \<le> h \<and> h \<le> BIG_PRIME)"
  using assms
proof (induction s arbitrary: p)
  case (Cons c cs)
  show ?case
  proof (cases "c = NUL")
    case False
    obtain q where q: "res_bind (ht_mmul p 256) (\<lambda>x. ht_madd x (schar c)) = Inr q"
      "\<bar>q\<bar> \<le> BIG_PRIME + 127" "0 \<le> p \<longrightarrow> 0 \<le> schar c \<longrightarrow> 0 \<le> q \<and> q \<le> BIG_PRIME"
      using hash_step [OF Cons.prems, of c] by metis
    have eq: "hash_loop p (c # cs) = hash_loop q cs"
      using q(1) False by (auto simp: res_bind_eq_Inr)
    have "ascii_key (c # cs) \<Longrightarrow> 0 \<le> schar c \<and> ascii_key cs"
      by (auto simp: ascii_key_def schar_def)
    with Cons.IH [OF q(2)] q(3) show ?thesis unfolding eq by metis
  qed (use Cons.prems in auto)
qed auto

lemma hashcode_ok:
  "\<exists>h. hashcode s = Inr h \<and> \<bar>h\<bar> \<le> BIG_PRIME + 127 \<and> (ascii_key s \<longrightarrow> 0 \<le> h \<and> h \<le> BIG_PRIME)"
  using hash_loop_ok [of 0 s] by (auto simp: hashcode_def BIG_PRIME_def)

text \<open>Up to multiples of \<open>BIG_PRIME\<close>, the hash code of an ASCII string is its value in base 256.\<close>

definition base256 :: "int \<Rightarrow> int list \<Rightarrow> int" where
  "base256 p cs = foldl (\<lambda>p c. 256 * p + c) p cs"

lemma hash_step_mod:
  assumes "0 \<le> p" "p \<le> BIG_PRIME" "0 \<le> schar c"
  shows "\<exists>q. res_bind (ht_mmul p 256) (\<lambda>x. ht_madd x (schar c)) = Inr q \<and> 0 \<le> q \<and> q \<le> BIG_PRIME \<and>
    q mod BIG_PRIME = (256 * p + schar c) mod BIG_PRIME"
proof -
  let ?x = "p * 256 mod BIG_PRIME"
  have x: "0 \<le> ?x" "?x < BIG_PRIME" by (simp_all add: BIG_PRIME_def)
  have "ht_mmul p 256 = Inr ?x"
    using assms by (simp add: ht_mmul_def in_int_iff BIG_PRIME_def smod_nonneg)
  moreover have "ht_madd ?x (schar c) = Inr (if ?x + schar c > BIG_PRIME then ?x + schar c - BIG_PRIME else ?x + schar c)"
    using x schar_range [of c] by (intro ht_madd_ok) auto
  moreover have "(?x + schar c) mod BIG_PRIME = (256 * p + schar c) mod BIG_PRIME"
    by (simp add: mod_add_left_eq mult.commute)
  ultimately show ?thesis
    using x assms(3) schar_range [of c] by (auto simp: BIG_PRIME_def)
qed

lemma base256_mod: "p mod n = p' mod n \<Longrightarrow> base256 p cs mod n = base256 p' cs mod n"
proof (induction cs arbitrary: p p')
  case (Cons c cs)
  from Cons.prems have "(256 * p + c) mod n = (256 * p' + c) mod n" by (metis mod_add_left_eq mod_mult_right_eq)
  from Cons.IH [OF this] show ?case by (simp add: base256_def)
qed (simp add: base256_def)

lemma hash_loop_mod:
  assumes "ascii_key s" "0 \<le> p" "p \<le> BIG_PRIME" "hash_loop p s = Inr h"
  shows "h mod BIG_PRIME = base256 p (map of_char s) mod BIG_PRIME"
  using assms
proof (induction s arbitrary: p)
  case (Cons c cs)
  have c: "c \<noteq> NUL" "schar c = of_char c" "ascii_key cs" "0 \<le> schar c"
    using Cons.prems(1) by (auto simp: ascii_key_def schar_def)
  obtain q where q: "res_bind (ht_mmul p 256) (\<lambda>x. ht_madd x (schar c)) = Inr q" "0 \<le> q" "q \<le> BIG_PRIME"
    "q mod BIG_PRIME = (256 * p + schar c) mod BIG_PRIME"
    using hash_step_mod [OF Cons.prems(2,3) c(4)] by metis
  have "hash_loop p (c # cs) = hash_loop q cs" using q(1) c(1) by (auto simp: res_bind_eq_Inr)
  with Cons.IH [OF c(3) q(2,3)] Cons.prems(4) base256_mod [OF q(4)] c(2) show ?case by (simp add: base256_def)
qed (simp add: base256_def)

lemma hash_loop_c_str: "hash_loop p (c_str s) = hash_loop p s"
proof (induction s arbitrary: p)
  case (Cons c cs)
  then show ?case by (cases "c = NUL") (simp_all add: c_str_def)
qed (simp add: c_str_def)

section \<open>The primality test\<close>

definition prime_int :: "int \<Rightarrow> bool" where
  "prime_int n \<longleftrightarrow> 1 < n \<and> (\<forall>d. 1 < d \<longrightarrow> d < n \<longrightarrow> \<not> d dvd n)"

lemma is_prime_loop_ok:
  assumes "odd n" and "odd i" and "3 \<le> i" and "n \<le> INT_MAX"
  shows "is_prime_loop n i = Inr (if \<forall>d. i \<le> d \<longrightarrow> d < n \<longrightarrow> odd d \<longrightarrow> \<not> d dvd n then 1 else 0)"
  using assms
proof (induction n i rule: is_prime_loop.induct)
  case (1 n i)
  show ?case
  proof (cases "i < n")
    case True
    then have n: "0 < n" "0 < i" using 1(4) by auto
    have md: "n smod i = 0 \<longleftrightarrow> i dvd n" using n by (simp add: smod_nonneg dvd_eq_mod_eq_0)
    show ?thesis
    proof (cases "i dvd n")
      case True
      with \<open>i < n\<close> md 1(3) show ?thesis by (subst is_prime_loop.simps) auto
    next
      case False
      have "i + 2 \<le> n" using \<open>i < n\<close> 1(2,3) by presburger
      then have rng: "in_int (i + 2)" using 1(4,5) by (simp add: in_int_iff INT_MAX_def)
      have "(\<forall>d. i + 2 \<le> d \<longrightarrow> d < n \<longrightarrow> odd d \<longrightarrow> \<not> d dvd n) \<longleftrightarrow>
          (\<forall>d. i \<le> d \<longrightarrow> d < n \<longrightarrow> odd d \<longrightarrow> \<not> d dvd n)" (is "?L = ?R")
      proof
        assume ?L
        show ?R
        proof (intro allI impI)
          fix d assume d: "i \<le> d" "d < n" "odd d"
          then have "d = i \<or> i + 2 \<le> d" using 1(3) by presburger
          with d \<open>?L\<close> False show "\<not> d dvd n" by auto
        qed
      qed auto
      with 1(1) [OF \<open>i < n\<close> _ rng] 1(2-5) md False \<open>i < n\<close> rng show ?thesis
        by (subst is_prime_loop.simps) simp
    qed
  next
    case False
    then show ?thesis by (subst is_prime_loop.simps) auto
  qed
qed

lemma is_prime_ok:
  assumes "n \<le> INT_MAX"
  shows "is_prime n = Inr (if n \<le> 3 \<or> prime_int n then 1 else 0)"
proof -
  have ev: "\<not> prime_int n" if "3 < n" "even n"
    using that by (auto simp: prime_int_def intro!: exI [of _ 2])
  have od: "(\<forall>d. 3 \<le> d \<longrightarrow> d < n \<longrightarrow> odd d \<longrightarrow> \<not> d dvd n) \<longleftrightarrow> prime_int n" if n: "3 < n" "odd n"
  proof
    assume a: "\<forall>d. 3 \<le> d \<longrightarrow> d < n \<longrightarrow> odd d \<longrightarrow> \<not> d dvd n"
    have "\<not> d dvd n" if "1 < d" "d < n" for d
    proof (cases "even d")
      case True
      with n(2) dvd_trans [of 2 d n] show ?thesis by blast
    next
      case False
      with \<open>1 < d\<close> have "3 \<le> d" by presburger
      with a that False show ?thesis by blast
    qed
    with n(1) show "prime_int n" by (simp add: prime_int_def)
  qed (auto simp: prime_int_def)
  show ?thesis
    using assms ev od is_prime_loop_ok [of n 3] by (auto simp: is_prime_def smod_nonneg even_iff_mod_2_eq_zero)
qed

section \<open>The search for a size\<close>

text \<open>What \<open>is_prime\<close> accepts: the primes, and every number up to 3.\<close>

definition size_ok :: "int \<Rightarrow> bool" where
  "size_ok n \<longleftrightarrow> n \<le> 3 \<or> prime_int n"

lemma get_prime_least:
  assumes "lo \<le> q" and "q \<le> INT_MAX" and "size_ok q"
  shows "\<exists>p. get_prime lo = Inr p \<and> lo \<le> p \<and> p \<le> q \<and> size_ok p \<and>
    (\<forall>k. lo \<le> k \<longrightarrow> k < p \<longrightarrow> \<not> size_ok k)"
  using assms
proof (induction lo rule: get_prime.induct)
  case (1 n)
  have ip: "is_prime n = Inr (if size_ok n then 1 else 0)"
    using is_prime_ok [OF order_trans [OF 1(2,3)]] by (simp add: size_ok_def)
  show ?case
  proof (cases "size_ok n")
    case True
    with ip 1(2) show ?thesis by (subst get_prime.simps) auto
  next
    case False
    then have lt: "n < q" using 1(2,4) by (cases "n = q") auto
    obtain p where p: "get_prime (n + 1) = Inr p" "n + 1 \<le> p" "p \<le> q" "size_ok p"
      "\<forall>k. n + 1 \<le> k \<longrightarrow> k < p \<longrightarrow> \<not> size_ok k"
      using 1(1) [OF ip] lt 1(3,4) False by auto
    have "get_prime n = Inr p" using ip False lt 1(3) p(1) by (subst get_prime.simps) simp
    moreover have "\<not> size_ok k" if "n \<le> k" "k < p" for k
      using that p(5) False by (cases "k = n") auto
    ultimately show ?thesis using p by auto
  qed
qed

lemma prime_int_sqrt:
  assumes "1 < n" and "\<And>d. 1 < d \<Longrightarrow> d \<le> r \<Longrightarrow> \<not> d dvd n" and "n < (r + 1) * (r + 1)" and "0 \<le> r"
  shows "prime_int n"
  unfolding prime_int_def
proof (intro conjI allI impI notI)
  fix d assume d: "1 < d" "d < n" "d dvd n"
  then obtain e where e: "n = d * e" by (auto elim: dvdE)
  have "1 < e" using e d by (smt (verit) mult_less_cancel_left2 mult_nonneg_nonpos mult_cancel_left1)
  have "r < d" using assms(2) [of d] d by force
  moreover have "r < e" using assms(2) [of e] \<open>1 < e\<close> e by force
  ultimately have "(r + 1) * (r + 1) \<le> d * e" using assms(4) by (intro mult_mono) auto
  with e assms(3) show False by simp
qed (rule assms(1))

text \<open>
  The first prime above twice \<open>BIG_PRIME\<close>: up to it the search is known to succeed, and no table has
  to grow beyond it. It is checked against the candidate divisors up to its square root.
\<close>

definition SIZE_LIMIT :: int where "SIZE_LIMIT = 3120017"

lemma no_divisor_SIZE_LIMIT:
  "list_all (\<lambda>k. 3120017 mod (6 * k + 5) \<noteq> 0 \<and> 3120017 mod (6 * k + 7) \<noteq> 0) [0..(294::int)]"
  by code_simp

lemma prime_SIZE_LIMIT: "prime_int SIZE_LIMIT"
  unfolding SIZE_LIMIT_def
proof (rule prime_int_sqrt [where r = 1766])
  fix d :: int assume d: "1 < d" "d \<le> 1766"
  show "\<not> d dvd 3120017"
  proof (cases "2 dvd d \<or> 3 dvd d")
    case True
    moreover have "\<not> 2 dvd (3120017 :: int)" "\<not> 3 dvd (3120017 :: int)" by simp_all
    ultimately show ?thesis using dvd_trans [of _ d 3120017] by blast
  next
    case False
    then have "\<exists>k. 0 \<le> k \<and> k \<le> 294 \<and> (d = 6 * k + 5 \<or> d = 6 * k + 7)"
      using d by presburger
    then obtain k where k: "0 \<le> k" "k \<le> 294" "d = 6 * k + 5 \<or> d = 6 * k + 7" by blast
    then have "k \<in> set [0..294]" unfolding set_upto by auto
    then have "3120017 mod (6 * k + 5) \<noteq> 0 \<and> 3120017 mod (6 * k + 7) \<noteq> 0"
      using no_divisor_SIZE_LIMIT unfolding list_all_iff by (rule bspec [rotated])
    with k(3) show ?thesis by (auto simp: dvd_eq_mod_eq_0)
  qed
qed simp_all

lemma get_prime_limit:
  assumes "lo \<le> SIZE_LIMIT"
  shows "\<exists>p. get_prime lo = Inr p \<and> lo \<le> p \<and> p \<le> SIZE_LIMIT \<and> size_ok p \<and>
    (\<forall>k. lo \<le> k \<longrightarrow> k < p \<longrightarrow> \<not> size_ok k)"
  by (rule get_prime_least [OF assms]) (simp_all add: prime_SIZE_LIMIT size_ok_def, simp add: SIZE_LIMIT_def INT_MAX_def)

section \<open>What the arithmetic promises\<close>

text \<open>
  The hash code of every string is computed without overflow and its magnitude is at most
  \<open>BIG_PRIME + 127\<close>; for an ASCII string it lies between 0 and \<open>BIG_PRIME\<close>, and it depends on the
  characters before the terminating NUL only.
\<close>

theorem hashcode_defined:
  "(\<exists>h. hashcode s = Inr h \<and> \<bar>h\<bar> \<le> BIG_PRIME + 127 \<and> (ascii_key s \<longrightarrow> 0 \<le> h \<and> h \<le> BIG_PRIME)) \<and>
   hashcode (c_str s) = hashcode s"
  using hashcode_ok [of s] hash_loop_c_str [of 0 s] by (simp add: hashcode_def)

theorem hashcode_defined_witness:
  "\<exists>h. hashcode ''key'' = Inr h \<and> 0 \<le> h \<and> h \<le> BIG_PRIME"
proof -
  have "ascii_key ''key''" by (simp add: ascii_key_def NUL_def)
  then show ?thesis using hashcode_defined [of "''key''"] by metis
qed

text \<open>
  \<open>is_prime\<close> decides primality for every \<open>int\<close> above 3, without overflow, and accepts every
  number up to 3.
\<close>

theorem is_prime_decides:
  assumes "in_int n"
  shows "is_prime n = Inr (if n \<le> 3 \<or> prime_int n then 1 else 0)"
  using assms by (intro is_prime_ok) (simp add: in_int_def)

theorem is_prime_decides_witness: "is_prime SIZE_LIMIT = Inr 1"
  using is_prime_decides [of SIZE_LIMIT] prime_SIZE_LIMIT by (simp add: SIZE_LIMIT_def in_int_iff)

text \<open>
  C27: for every bound up to 3120017 the search of \<open>get_prime\<close> ends without overflow, and returns
  the least number from the bound on that \<open>is_prime\<close> accepts (the bound itself if it is accepted).
\<close>

theorem get_prime_returns_least:
  assumes "lo \<le> SIZE_LIMIT"
  shows "\<exists>p. get_prime lo = Inr p \<and> lo \<le> p \<and> p \<le> SIZE_LIMIT \<and> size_ok p \<and>
    (\<forall>k. lo \<le> k \<longrightarrow> k < p \<longrightarrow> \<not> size_ok k)"
  using assms by (rule get_prime_limit)

theorem get_prime_returns_least_witness:
  "\<exists>p. get_prime 10001 = Inr p \<and> 10001 \<le> p \<and> size_ok p"
  using get_prime_returns_least [of 10001] by (auto simp: SIZE_LIMIT_def)

text \<open>
  \<open>madd\<close> does not reduce a sum equal to the modulus: it returns \<open>BIG_PRIME\<close> itself, which is
  not a residue.
\<close>

theorem ht_madd_unreduced:
  assumes "0 \<le> a" and "a \<le> BIG_PRIME"
  shows "ht_madd a (BIG_PRIME - a) = Inr BIG_PRIME"
  by (simp add: ht_madd_def in_int_iff BIG_PRIME_def)

theorem ht_madd_unreduced_witness: "ht_madd 1560000 7 = Inr 1560007"
  using ht_madd_unreduced [of 1560000] by (simp add: BIG_PRIME_def)

end
