(* ===== verification/HTable.thy ===== *)
theory HTable
  imports HTable_Hash
begin

text \<open>
  \<open>threadlab/htable.c\<close>: the chained hash table. Nodes live in a heap \<open>node_heap\<close> from addresses to
  nodes and are linked by their \<open>next\<close> pointers; the table is the record of \<open>htable.h\<close>, its store
  the array of list heads. What \<open>malloc\<close> answers is an argument of the operations that call it:
  an address for a node, success or failure for a store. A key is the string the caller's pointer
  points to. A store is a value of the table, so that freeing it in \<open>htable_resize\<close> and
  \<open>htable_destroy\<close> leaves no trace in the model; the nodes are freed in the heap.
\<close>

section \<open>Nodes and tables\<close>

record node =
  n_hashcode :: int
  n_key :: string
  n_val :: addr
  n_next :: addr

type_synonym node_heap = "addr \<rightharpoonup> node"

record htable =
  allow_resize :: int
  store :: "addr list"
  ht_size :: int

type_synonym ht_state = "node_heap \<times> htable"

definition MAX_COLLISION :: int where "MAX_COLLISION = 10"

text \<open>\<open>x % n\<close>, undefined for \<open>n = 0\<close>.\<close>

definition c_mod :: "int \<Rightarrow> int \<Rightarrow> int res" where
  "c_mod x n = (if n = 0 then Inl DivByZero else Inr (x smod n))"

section \<open>Operations\<close>

definition htable_init :: "bool \<Rightarrow> int \<Rightarrow> int \<Rightarrow> htable res" where
  "htable_init mal sz resize =
     res_bind (chk_int (sz + 1)) (\<lambda>x.
     res_bind (get_prime x) (\<lambda>size.
     res_bind (c_assert mal) (\<lambda>_.
     Inr \<lparr>allow_resize = resize, store = replicate (nat size) NULL, ht_size = size\<rparr>)))"

definition htable_size :: "htable \<Rightarrow> int" where
  "htable_size ht = ht_size ht"

partial_function (option) free_linked_list :: "node_heap \<Rightarrow> addr \<Rightarrow> node_heap run" where
  "free_linked_list H n =
     (if n = NULL then Some (Inr H)
      else case H n of
             None \<Rightarrow> Some (Inl UseAfterFree)
           | Some nd \<Rightarrow>
               run_bind (free_linked_list H (n_next nd)) (\<lambda>H'.
                 if H' n = None then Some (Inl UseAfterFree) else Some (Inr (H'(n := None)))))"

fun destroy_loop :: "nat \<Rightarrow> int \<Rightarrow> addr list \<Rightarrow> node_heap \<Rightarrow> node_heap run" where
  "destroy_loop 0 i st H = Some (Inr H)"
| "destroy_loop (Suc k) i st H =
     run_bind (Some (get_arr st i)) (\<lambda>p.
     run_bind (free_linked_list H p) (\<lambda>H'. destroy_loop k (i + 1) st H'))"

definition htable_destroy :: "ht_state \<Rightarrow> node_heap run" where
  "htable_destroy s = (let (H, ht) = s in destroy_loop (nat (ht_size ht)) 0 (store ht) H)"

text \<open>The inner loop of \<open>htable_resize\<close>: every node of a chain is moved to the new store.\<close>

partial_function (option) relink ::
  "int \<Rightarrow> node_heap \<Rightarrow> addr list \<Rightarrow> addr \<Rightarrow> (node_heap \<times> addr list) run" where
  "relink new_size H new_store cur =
     (if cur = NULL then Some (Inr (H, new_store))
      else case H cur of
             None \<Rightarrow> Some (Inl UseAfterFree)
           | Some nd \<Rightarrow>
               run_bind (Some (c_mod (n_hashcode nd) new_size)) (\<lambda>slot.
               run_bind (Some (get_arr new_store slot)) (\<lambda>p.
               relink new_size
                 (H(cur \<mapsto> nd\<lparr>n_next := (if p \<noteq> NULL then p else NULL)\<rparr>))
                 (new_store[nat slot := cur]) (n_next nd))))"

fun resize_loop ::
  "nat \<Rightarrow> int \<Rightarrow> int \<Rightarrow> addr list \<Rightarrow> node_heap \<Rightarrow> addr list \<Rightarrow> (node_heap \<times> addr list) run" where
  "resize_loop 0 i new_size st H new_store = Some (Inr (H, new_store))"
| "resize_loop (Suc k) i new_size st H new_store =
     run_bind (Some (get_arr st i)) (\<lambda>p.
     run_bind (relink new_size H new_store p) (\<lambda>(H', new_store').
     resize_loop k (i + 1) new_size st H' new_store'))"

definition htable_resize :: "bool \<Rightarrow> ht_state \<Rightarrow> ht_state run" where
  "htable_resize mal s =
     (let (H, ht) = s in
      run_bind (Some (chk_int (2 * ht_size ht))) (\<lambda>x.
      run_bind (Some (get_prime x)) (\<lambda>new_size.
      run_bind (Some (c_assert mal)) (\<lambda>_.
      run_bind (resize_loop (nat (ht_size ht)) 0 new_size (store ht) H (replicate (nat new_size) NULL))
        (\<lambda>(H', new_store).
      Some (Inr (H', ht\<lparr>ht_size := new_size, store := new_store\<rparr>)))))))"

text \<open>The traversal of \<open>htable_insert\<close>: \<open>None\<close> when the key is found, else the last node and the
  number of nodes passed.\<close>

partial_function (option) scan_chain ::
  "node_heap \<Rightarrow> int \<Rightarrow> string \<Rightarrow> addr \<Rightarrow> addr \<Rightarrow> int \<Rightarrow> ((addr \<times> int) option) run" where
  "scan_chain H hcode key prev cur collision =
     (if cur = NULL then Some (Inr (Some (prev, collision)))
      else case H cur of
             None \<Rightarrow> Some (Inl UseAfterFree)
           | Some nd \<Rightarrow>
               if n_hashcode nd = hcode \<and> streq (n_key nd) key then Some (Inr None)
               else run_bind (Some (chk_int (collision + 1))) (\<lambda>c.
                    scan_chain H hcode key cur (n_next nd) c))"

text \<open>The new node is stored at the head of an empty chain or after the last node.\<close>

definition link_node :: "ht_state \<Rightarrow> int \<Rightarrow> addr \<Rightarrow> addr \<Rightarrow> ht_state res" where
  "link_node s slot prev n =
     (let (H, ht) = s in
      if prev = NULL
      then res_bind (put_arr (store ht) slot n) (\<lambda>st. Inr (H, ht\<lparr>store := st\<rparr>))
      else case H prev of
             None \<Rightarrow> Inl UseAfterFree
           | Some pn \<Rightarrow> Inr (H(prev \<mapsto> pn\<lparr>n_next := n\<rparr>), ht))"

definition htable_insert ::
  "addr \<Rightarrow> bool \<Rightarrow> ht_state \<Rightarrow> string \<Rightarrow> addr \<Rightarrow> (int \<times> ht_state) run" where
  "htable_insert mal_node mal_store s key val =
     (let (H, ht) = s in
      run_bind (Some (hashcode key)) (\<lambda>hcode.
      run_bind (Some (c_mod hcode (ht_size ht))) (\<lambda>slot.
      run_bind (Some (get_arr (store ht) slot)) (\<lambda>cur.
      run_bind (scan_chain H hcode key NULL cur 0) (\<lambda>r.
      case r of
        None \<Rightarrow> Some (Inr (1, s))
      | Some (prev, collision) \<Rightarrow>
          if mal_node = NULL then Some (Inl NullDeref)
          else
            (let nd = \<lparr>n_hashcode = hcode, n_key = key, n_val = val, n_next = NULL\<rparr> in
             run_bind (Some (link_node (H(mal_node \<mapsto> nd), ht) slot prev mal_node)) (\<lambda>s1.
             if allow_resize ht \<noteq> 0 \<and> collision \<ge> MAX_COLLISION
             then run_bind (htable_resize mal_store s1) (\<lambda>s2. Some (Inr (0, s2)))
             else Some (Inr (0, s1)))))))))"

partial_function (option) lookup_chain :: "node_heap \<Rightarrow> int \<Rightarrow> string \<Rightarrow> addr \<Rightarrow> addr run" where
  "lookup_chain H hcode key cur =
     (if cur = NULL then Some (Inr NULL)
      else case H cur of
             None \<Rightarrow> Some (Inl UseAfterFree)
           | Some nd \<Rightarrow>
               if n_hashcode nd = hcode \<and> streq (n_key nd) key then Some (Inr (n_val nd))
               else lookup_chain H hcode key (n_next nd))"

definition htable_lookup :: "ht_state \<Rightarrow> string \<Rightarrow> addr run" where
  "htable_lookup s key =
     (let (H, ht) = s in
      run_bind (Some (hashcode key)) (\<lambda>hcode.
      run_bind (Some (c_mod hcode (ht_size ht))) (\<lambda>slot.
      run_bind (Some (get_arr (store ht) slot)) (\<lambda>cur.
      lookup_chain H hcode key cur))))"

section \<open>Chains\<close>

text \<open>The nodes reached from \<open>p\<close> are those at \<open>as\<close>, in order.\<close>

fun chain :: "node_heap \<Rightarrow> addr \<Rightarrow> addr list \<Rightarrow> bool" where
  "chain H p [] \<longleftrightarrow> p = NULL"
| "chain H p (a # as) \<longleftrightarrow>
     p = a \<and> a \<noteq> NULL \<and> (case H a of None \<Rightarrow> False | Some nd \<Rightarrow> chain H (n_next nd) as)"

lemma chain_cong: "(\<And>a. a \<in> set as \<Longrightarrow> H' a = H a) \<Longrightarrow> chain H' p as = chain H p as"
  by (induction as arbitrary: p) (auto split: option.splits)

lemma chain_upd_other [simp]: "b \<notin> set as \<Longrightarrow> chain (H(b := x)) p as = chain H p as"
  by (rule chain_cong) auto

lemma chain_NULL [simp]: "chain H NULL as \<longleftrightarrow> as = []"
  by (cases as) auto

lemma chain_mem: "chain H p as \<Longrightarrow> a \<in> set as \<Longrightarrow> H a \<noteq> None \<and> a \<noteq> NULL"
  by (induction as arbitrary: p) (auto split: option.splits)

lemma chain_unique: "chain H p as \<Longrightarrow> chain H p bs \<Longrightarrow> as = bs"
proof (induction as arbitrary: p bs)
  case (Cons a as)
  then show ?case by (cases bs) (auto split: option.splits)
qed auto

definition matches :: "node_heap \<Rightarrow> int \<Rightarrow> string \<Rightarrow> addr \<Rightarrow> bool" where
  "matches H hcode key a \<longleftrightarrow>
     (case H a of None \<Rightarrow> False | Some nd \<Rightarrow> n_hashcode nd = hcode \<and> streq (n_key nd) key)"

lemma lookup_chain_ok:
  "chain H p as \<Longrightarrow> lookup_chain H hcode key p =
     Some (Inr (case find (matches H hcode key) as of None \<Rightarrow> NULL | Some a \<Rightarrow> n_val (the (H a))))"
  by (induction as arbitrary: p; subst lookup_chain.simps) (auto simp: matches_def split: option.splits)

lemma scan_chain_ok:
  "chain H p as \<Longrightarrow> 0 \<le> c \<Longrightarrow> c + int (length as) \<le> INT_MAX \<Longrightarrow>
   scan_chain H hcode key prev p c =
     Some (Inr (if \<exists>a\<in>set as. matches H hcode key a then None
                else Some (last (prev # as), c + int (length as))))"
proof (induction as arbitrary: p prev c)
  case Nil
  then show ?case by (subst scan_chain.simps) simp
next
  case (Cons a as)
  then obtain nd where nd: "p = a" "a \<noteq> NULL" "H a = Some nd" "chain H (n_next nd) as"
    by (auto split: option.splits)
  have "in_int (c + 1)" using Cons.prems by (auto simp: in_int_def INT_MIN_def)
  with Cons.IH [OF nd(4), of "c + 1" a] Cons.prems nd show ?case
    by (subst scan_chain.simps) (auto simp: matches_def)
qed

lemma chain_snoc:
  assumes "chain H p as" and "distinct as" and "n \<notin> set as" and "n \<noteq> NULL" and "n_next nd = NULL"
  shows "if as = [] then chain (H(n \<mapsto> nd)) n [n]
    else chain (H(n \<mapsto> nd, last as \<mapsto> (the (H (last as)))\<lparr>n_next := n\<rparr>)) p (as @ [n])"
  using assms
proof (induction as arbitrary: p)
  case (Cons a as)
  then obtain an where an: "p = a" "a \<noteq> NULL" "H a = Some an" "chain H (n_next an) as"
    by (auto split: option.splits)
  show ?case
  proof (cases "as = []")
    case True
    with an Cons.prems show ?thesis by simp
  next
    case False
    then have "last as \<in> set as" "last as \<noteq> a" using Cons.prems(2) by auto
    with False Cons.IH [OF an(4)] Cons.prems an show ?thesis by auto
  qed
qed simp

section \<open>Well-formed tables\<close>

text \<open>A node stores the hash code of its ASCII key; its slot is the code modulo the size.\<close>

definition node_ok :: "node_heap \<Rightarrow> addr \<Rightarrow> bool" where
  "node_ok H a \<longleftrightarrow>
     (\<exists>nd. H a = Some nd \<and> ascii_key (n_key nd) \<and> hashcode (n_key nd) = Inr (n_hashcode nd))"

definition slot_of :: "int \<Rightarrow> node_heap \<Rightarrow> addr \<Rightarrow> nat" where
  "slot_of n H a = nat (n_hashcode (the (H a)) mod n)"

definition slots_ok :: "node_heap \<Rightarrow> int \<Rightarrow> addr list \<Rightarrow> addr list list \<Rightarrow> bool" where
  "slots_ok H n st cs \<longleftrightarrow>
     0 < n \<and> length st = nat n \<and> length cs = nat n \<and>
     (\<forall>i<nat n. chain H (st ! i) (cs ! i) \<and> distinct (cs ! i) \<and>
        (\<forall>a\<in>set (cs ! i). node_ok H a \<and> slot_of n H a = i))"

text \<open>What a node holds, its link apart.\<close>

definition payload :: "node_heap \<Rightarrow> addr \<Rightarrow> (int \<times> string \<times> addr) option" where
  "payload H a = map_option (\<lambda>nd. (n_hashcode nd, n_key nd, n_val nd)) (H a)"

lemma payload_dom: "a \<in> dom H \<longleftrightarrow> payload H a \<noteq> None"
  by (auto simp: payload_def)

lemma dom_payload: "(\<And>a. payload H' a = payload H a) \<Longrightarrow> dom H' = dom H"
  by (rule set_eqI) (simp add: payload_dom del: domIff)

lemma dom_payload_insert:
  "(\<And>a. payload H' a = (if a = n then Some x else payload H a)) \<Longrightarrow> dom H' = insert n (dom H)"
  by (rule set_eqI) (simp add: payload_dom del: domIff split_paired_Ex)

lemma node_ok_payload: "payload H' a = payload H a \<Longrightarrow> node_ok H' a = node_ok H a"
  by (cases "H a"; cases "H' a") (auto simp: payload_def node_ok_def)

lemma slot_of_payload: "H a \<noteq> None \<Longrightarrow> payload H' a = payload H a \<Longrightarrow> slot_of n H' a = slot_of n H a"
  by (cases "H a"; cases "H' a") (auto simp: payload_def slot_of_def)

lemma hashcode_ascii:
  assumes "ascii_key k"
  obtains h where "hashcode k = Inr h" "0 \<le> h" "h \<le> BIG_PRIME"
  using hashcode_ok [of k] assms by metis

lemma node_okD:
  assumes "node_ok H a"
  obtains nd where "H a = Some nd" "ascii_key (n_key nd)" "hashcode (n_key nd) = Inr (n_hashcode nd)"
    "0 \<le> n_hashcode nd"
  using assms hashcode_ascii unfolding node_ok_def by (metis Inr_inject)

lemma c_mod_ok: "0 \<le> x \<Longrightarrow> 0 < n \<Longrightarrow> c_mod x n = Inr (x mod n)"
  by (simp add: c_mod_def smod_nonneg)

lemma slots_okD:
  assumes "slots_ok H n st cs" and "i < nat n"
  shows "chain H (st ! i) (cs ! i)" "distinct (cs ! i)" "a \<in> set (cs ! i) \<Longrightarrow> node_ok H a"
    "a \<in> set (cs ! i) \<Longrightarrow> slot_of n H a = i"
  using assms by (auto simp: slots_ok_def)

lemma slots_ok_other:
  assumes "slots_ok H n st cs" and "a \<in> set (cs ! i)" and "i < nat n" and "j < nat n" and "i \<noteq> j"
  shows "a \<notin> set (cs ! j)"
  using assms slots_okD (4) [OF assms(1)] by metis

lemma slots_ok_init: "0 < n \<Longrightarrow> slots_ok H n (replicate (nat n) NULL) (replicate (nat n) [])"
  by (simp add: slots_ok_def)

definition all_nodes :: "addr list list \<Rightarrow> addr set" where
  "all_nodes cs = (\<Union>i<length cs. set (cs ! i))"

lemma all_nodes_iff: "a \<in> all_nodes cs \<longleftrightarrow> (\<exists>i<length cs. a \<in> set (cs ! i))"
  by (auto simp: all_nodes_def)

lemma nth_all_nodes: "a \<in> set (cs ! i) \<Longrightarrow> i < length cs \<Longrightarrow> a \<in> all_nodes cs"
  by (auto simp: all_nodes_def)

lemma all_nodes_update:
  "i < length cs \<Longrightarrow> set ys = insert a (set (cs ! i)) \<Longrightarrow>
     all_nodes (cs[i := ys]) = insert a (all_nodes cs)"
  by (auto simp: all_nodes_def nth_list_update split: if_splits)

lemma all_nodes_empty [simp]: "all_nodes (replicate n []) = {}"
  by (simp add: all_nodes_def)

text \<open>
  Replacing one chain: the others are untouched as long as the nodes that change are not theirs.
\<close>

lemma slots_ok_update:
  assumes ok: "slots_ok H n st cs" and i: "i < nat n"
    and ch: "chain H' p as" "distinct as" "\<And>a. a \<in> set as \<Longrightarrow> node_ok H' a \<and> slot_of n H' a = i"
    and same: "\<And>j a. j < nat n \<Longrightarrow> j \<noteq> i \<Longrightarrow> a \<in> set (cs ! j) \<Longrightarrow> H' a = H a"
  shows "slots_ok H' n (st[i := p]) (cs[i := as])"
  unfolding slots_ok_def
proof (intro conjI allI impI)
  show "0 < n" "length (st[i := p]) = nat n" "length (cs[i := as]) = nat n"
    using ok by (auto simp: slots_ok_def)
  fix j assume j: "j < nat n"
  have len: "length st = nat n" "length cs = nat n" using ok by (auto simp: slots_ok_def)
  note D = slots_okD [OF ok j]
  have eq: "H' a = H a" if "j \<noteq> i" "a \<in> set (cs ! j)" for a using same j that by blast
  show "chain H' (st[i := p] ! j) (cs[i := as] ! j)"
    using ch(1) D(1) chain_cong [of "cs ! j" H' H "st ! j"] eq j len by (cases "j = i") auto
  show "distinct (cs[i := as] ! j)" using ch(2) D(2) j len by (cases "j = i") auto
  show "\<forall>a\<in>set (cs[i := as] ! j). node_ok H' a \<and> slot_of n H' a = j"
  proof
    fix a assume a: "a \<in> set (cs[i := as] ! j)"
    show "node_ok H' a \<and> slot_of n H' a = j"
    proof (cases "j = i")
      case True
      with a len i ch(3) show ?thesis by simp
    next
      case False
      with a eq D(3,4) show ?thesis by (simp add: node_ok_def slot_of_def)
    qed
  qed
qed

section \<open>Resizing\<close>

text \<open>Moving one chain to the new store.\<close>

lemma relink_ok:
  assumes "chain H p as" and "distinct as" and "slots_ok H n st cs"
    and "set as \<inter> all_nodes cs = {}" and "\<And>a. a \<in> set as \<Longrightarrow> node_ok H a"
  shows "\<exists>H' st' cs'. relink n H st p = Some (Inr (H', st')) \<and> slots_ok H' n st' cs' \<and>
    all_nodes cs' = all_nodes cs \<union> set as \<and> (\<forall>a. payload H' a = payload H a) \<and>
    (\<forall>b. b \<notin> set as \<longrightarrow> H' b = H b)"
  using assms
proof (induction as arbitrary: p H st cs)
  case Nil
  then show ?case by (subst relink.simps) auto
next
  case (Cons a as)
  obtain nd where nd: "H a = Some nd" "0 \<le> n_hashcode nd"
    using Cons.prems(5) [of a] by (auto elim: node_okD)
  then have p: "p = a" "a \<noteq> NULL" "chain H (n_next nd) as" using Cons.prems(1) by auto
  have n: "0 < n" "length st = nat n" "length cs = nat n" using Cons.prems(3) by (auto simp: slots_ok_def)
  let ?s = "nat (n_hashcode nd mod n)"
  have slot: "0 \<le> n_hashcode nd mod n" "n_hashcode nd mod n < n" using n(1) by auto
  then have s: "?s < nat n" by linarith
  let ?H = "H(a \<mapsto> nd\<lparr>n_next := st ! ?s\<rparr>)"
  have pay: "payload ?H b = payload H b" for b using nd by (simp add: payload_def)
  have fresh: "a \<notin> set (cs ! j)" if "j < nat n" for j
    using Cons.prems(4) that n(3) by (auto simp: all_nodes_iff)
  have "slots_ok ?H n (st[?s := a]) (cs[?s := a # cs ! ?s])"
  proof (rule slots_ok_update [OF Cons.prems(3) s])
    show "chain ?H a (a # cs ! ?s)" using p slots_okD (1) [OF Cons.prems(3) s] fresh [OF s] by simp
    show "distinct (a # cs ! ?s)" using fresh [OF s] slots_okD (2) [OF Cons.prems(3) s] by simp
    show "node_ok ?H b \<and> slot_of n ?H b = ?s" if "b \<in> set (a # cs ! ?s)" for b
    proof (cases "b = a")
      case True
      then show ?thesis
        using nd Cons.prems(5) [of a] node_ok_payload [OF pay] by (simp add: slot_of_def)
    next
      case False
      with that slots_okD (3,4) [OF Cons.prems(3) s, of b] show ?thesis
        by (simp add: node_ok_def slot_of_def)
    qed
    show "?H b = H b" if "j < nat n" "b \<in> set (cs ! j)" for j b using fresh [OF that(1)] that(2) by auto
  qed
  note step = this
  have cc: "all_nodes (cs[?s := a # cs ! ?s]) = insert a (all_nodes cs)"
    using s n(3) by (intro all_nodes_update) auto
  have "chain ?H (n_next nd) as" "distinct as" using p Cons.prems(2) by auto
  moreover have "set as \<inter> all_nodes (cs[?s := a # cs ! ?s]) = {}"
    unfolding cc using Cons.prems(2,4) by auto
  moreover have "node_ok ?H b" if "b \<in> set as" for b
    using Cons.prems(5) [of b] that node_ok_payload [OF pay] by auto
  ultimately obtain H' st' cs' where rest: "relink n ?H (st[?s := a]) (n_next nd) = Some (Inr (H', st'))"
    "slots_ok H' n st' cs'" "all_nodes cs' = all_nodes (cs[?s := a # cs ! ?s]) \<union> set as"
    "\<forall>b. payload H' b = payload ?H b" "\<forall>b. b \<notin> set as \<longrightarrow> H' b = ?H b"
    using Cons.IH [OF _ _ step] by blast
  have "relink n H st p = relink n ?H (st[?s := a]) (n_next nd)"
    using p nd n slot by (subst relink.simps) (simp add: c_mod_ok)
  with rest cc pay show ?case by auto
qed

text \<open>
  The outer loop from slot \<open>i\<close> on: the chains of the old store (well formed in the heap \<open>H0\<close> the
  resize started from) that are still to come are untouched and disjoint from the new ones.
\<close>

lemma resize_loop_ok:
  assumes "slots_ok H0 m st0 ds" and "i + k = nat m" and "slots_ok H n st cs"
    and "\<And>j a. i \<le> j \<Longrightarrow> j < nat m \<Longrightarrow> a \<in> set (ds ! j) \<Longrightarrow> H a = H0 a \<and> a \<notin> all_nodes cs"
  shows "\<exists>H' st' cs'. resize_loop k (int i) n st0 H st = Some (Inr (H', st')) \<and>
    slots_ok H' n st' cs' \<and> all_nodes cs' = all_nodes cs \<union> (\<Union>j\<in>{i..<nat m}. set (ds ! j)) \<and>
    (\<forall>a. payload H' a = payload H a)"
  using assms(2-)
proof (induction k arbitrary: i H st cs)
  case 0
  then show ?case by (intro exI [of _ H] exI [of _ st] exI [of _ cs]) auto
next
  case (Suc k)
  have i: "i < nat m" using Suc.prems(1) by simp
  note D = slots_okD [OF assms(1) i]
  have "chain H (st0 ! i) (ds ! i)"
    using D(1) chain_cong [of "ds ! i" H H0] Suc.prems(3) [OF order_refl i] by auto
  moreover have "set (ds ! i) \<inter> all_nodes cs = {}" using Suc.prems(3) [OF order_refl i] by blast
  moreover have "node_ok H a" if "a \<in> set (ds ! i)" for a
    using D(3) [OF that] Suc.prems(3) [OF order_refl i that] by (simp add: node_ok_def)
  ultimately obtain H1 st1 cs1 where 1: "relink n H st (st0 ! i) = Some (Inr (H1, st1))"
    "slots_ok H1 n st1 cs1" "all_nodes cs1 = all_nodes cs \<union> set (ds ! i)"
    "\<forall>a. payload H1 a = payload H a" "\<forall>b. b \<notin> set (ds ! i) \<longrightarrow> H1 b = H b"
    using relink_ok [OF _ D(2) Suc.prems(2)] by blast
  have "H1 a = H0 a \<and> a \<notin> all_nodes cs1" if j: "Suc i \<le> j" "j < nat m" "a \<in> set (ds ! j)" for j a
  proof -
    have "a \<notin> set (ds ! i)" using slots_ok_other [OF assms(1) j(3,2) i] j(1) by auto
    with 1(3,5) Suc.prems(3) [of j a] j show ?thesis by auto
  qed
  then obtain H' st' cs' where 2: "resize_loop k (int (Suc i)) n st0 H1 st1 = Some (Inr (H', st'))"
    "slots_ok H' n st' cs'" "all_nodes cs' = all_nodes cs1 \<union> (\<Union>j\<in>{Suc i..<nat m}. set (ds ! j))"
    "\<forall>a. payload H' a = payload H1 a"
    using Suc.IH [OF _ 1(2), of "Suc i"] Suc.prems(1) by fastforce
  have "get_arr st0 (int i) = Inr (st0 ! i)" using assms(1) i by (simp add: slots_ok_def)
  with 1(1) 2(1) have "resize_loop (Suc k) (int i) n st0 H st = Some (Inr (H', st'))"
    by (simp add: add.commute)
  moreover have "{i..<nat m} = insert i {Suc i..<nat m}" using i by auto
  ultimately show ?case using 1(3,4) 2(2-4) by (intro exI [of _ H'] exI [of _ st'] exI [of _ cs']) auto
qed

section \<open>Tables as maps\<close>

text \<open>The nodes at \<open>A\<close> hold the bindings of \<open>m\<close>.\<close>

definition binds :: "node_heap \<Rightarrow> addr set \<Rightarrow> (string \<rightharpoonup> addr) \<Rightarrow> bool" where
  "binds H A m \<longleftrightarrow> (\<forall>k v. m k = Some v \<longleftrightarrow> (\<exists>a\<in>A. \<exists>h. payload H a = Some (h, k, v)))"

text \<open>The table \<open>s\<close> stores the map \<open>m\<close> from keys to values, and its nodes are all there are.\<close>

definition ht_map :: "ht_state \<Rightarrow> (string \<rightharpoonup> addr) \<Rightarrow> bool" where
  "ht_map s m \<longleftrightarrow>
     (\<exists>cs. slots_ok (fst s) (ht_size (snd s)) (store (snd s)) cs \<and> ht_size (snd s) \<le> INT_MAX \<and>
       dom (fst s) = all_nodes cs \<and> binds (fst s) (all_nodes cs) m)"

lemma ht_mapI:
  "slots_ok H (ht_size ht) (store ht) cs \<Longrightarrow> ht_size ht \<le> INT_MAX \<Longrightarrow> dom H = all_nodes cs \<Longrightarrow>
     binds H (all_nodes cs) m \<Longrightarrow> ht_map (H, ht) m"
  by (auto simp: ht_map_def)

lemma ht_mapE:
  assumes "ht_map (H, ht) m"
  obtains cs where "slots_ok H (ht_size ht) (store ht) cs" "ht_size ht \<le> INT_MAX"
    "dom H = all_nodes cs" "binds H (all_nodes cs) m"
  using assms by (auto simp: ht_map_def)

lemma binds_cong: "(\<And>a. payload H' a = payload H a) \<Longrightarrow> binds H' A m = binds H A m"
  by (simp add: binds_def)

lemma htable_resize_ok:
  assumes "ht_map (H, ht) m" and "2 * ht_size ht \<le> SIZE_LIMIT"
  shows "\<exists>H' ht'. htable_resize True (H, ht) = Some (Inr (H', ht')) \<and> ht_map (H', ht') m \<and>
    (\<forall>a. payload H' a = payload H a) \<and> 2 * ht_size ht \<le> ht_size ht' \<and> ht_size ht' \<le> SIZE_LIMIT \<and>
    allow_resize ht' = allow_resize ht"
proof -
  obtain ds where ds: "slots_ok H (ht_size ht) (store ht) ds" and dm: "dom H = all_nodes ds"
    and m: "binds H (all_nodes ds) m"
    using assms(1) by (rule ht_mapE)
  have pos: "0 < ht_size ht" "length ds = nat (ht_size ht)" using ds by (auto simp: slots_ok_def)
  obtain n where n: "get_prime (2 * ht_size ht) = Inr n" "2 * ht_size ht \<le> n" "n \<le> SIZE_LIMIT"
    using get_prime_limit [OF assms(2)] by blast
  have rng: "in_int (2 * ht_size ht)" "n \<le> INT_MAX"
    using assms(2) pos n(3) by (auto simp: in_int_iff SIZE_LIMIT_def INT_MAX_def)
  have "slots_ok H n (replicate (nat n) NULL) (replicate (nat n) [])"
    using n(2) pos by (intro slots_ok_init) auto
  from resize_loop_ok [OF ds _ this, of 0 "nat (ht_size ht)"]
  obtain H' st' cs' where r: "resize_loop (nat (ht_size ht)) 0 n (store ht) H (replicate (nat n) NULL) =
      Some (Inr (H', st'))" "slots_ok H' n st' cs'" "all_nodes cs' = all_nodes ds"
    "\<forall>a. payload H' a = payload H a"
    by (auto simp: all_nodes_def [of ds] pos(2) lessThan_atLeast0)
  let ?ht = "ht\<lparr>ht_size := n, store := st'\<rparr>"
  have "htable_resize True (H, ht) = Some (Inr (H', ?ht))"
    using r(1) n(1) rng by (simp add: htable_resize_def)
  moreover have "ht_map (H', ?ht) m"
    using r(2-4) m rng dm dom_payload [of H' H] binds_cong [of H' H] by (intro ht_mapI [of _ _ cs']) simp_all
  ultimately show ?thesis using r(4) n by auto
qed

lemma ascii_c_str: "ascii_key k \<Longrightarrow> c_str k = k"
  by (rule c_str_id) (auto simp: ascii_key_def)

lemma streq_ascii: "ascii_key k \<Longrightarrow> ascii_key k' \<Longrightarrow> streq k k' \<longleftrightarrow> k = k'"
  by (simp add: streq_def ascii_c_str)

text \<open>The chain a key hashes to holds every node with that key.\<close>

lemma matches_slot:
  assumes ok: "slots_ok H n st cs" and k: "ascii_key k" "hashcode k = Inr h"
    and a: "a \<in> all_nodes cs"
  shows "(\<exists>h' v. payload H a = Some (h', k, v)) \<longleftrightarrow>
    a \<in> set (cs ! nat (h mod n)) \<and> matches H h k a"
proof -
  obtain i where i: "i < nat n" "a \<in> set (cs ! i)"
    using a ok by (auto simp: all_nodes_iff slots_ok_def)
  obtain nd where nd: "H a = Some nd" "ascii_key (n_key nd)" "hashcode (n_key nd) = Inr (n_hashcode nd)"
    using slots_okD (3) [OF ok i] by (auto elim: node_okD)
  have "matches H h k a \<longleftrightarrow> n_key nd = k"
    using nd k streq_ascii [OF nd(2) k(1)] by (auto simp: matches_def)
  moreover have "a \<in> set (cs ! nat (h mod n))" if "n_key nd = k"
    using slots_okD (4) [OF ok i] i(2) nd k that by (simp add: slot_of_def)
  ultimately show ?thesis using nd(1) by (auto simp: payload_def)
qed

lemma htable_lookup_ok:
  assumes "ht_map (H, ht) m" and k: "ascii_key k"
  shows "htable_lookup (H, ht) k = Some (Inr (case m k of None \<Rightarrow> NULL | Some v \<Rightarrow> v))"
proof -
  obtain cs where ok: "slots_ok H (ht_size ht) (store ht) cs" and b: "binds H (all_nodes cs) m"
    using assms(1) by (rule ht_mapE)
  have m: "m k = Some v \<longleftrightarrow> (\<exists>a\<in>all_nodes cs. \<exists>h. payload H a = Some (h, k, v))" for k v
    using b by (simp add: binds_def)
  obtain h where h: "hashcode k = Inr h" "0 \<le> h" using k by (rule hashcode_ascii)
  let ?n = "ht_size ht" and ?s = "nat (h mod ht_size ht)"
  have n: "0 < ?n" "length (store ht) = nat ?n" "length cs = nat ?n" using ok by (auto simp: slots_ok_def)
  have s: "0 \<le> h mod ?n" "h mod ?n < ?n" "?s < nat ?n" using n by auto
  have eq: "htable_lookup (H, ht) k = Some (Inr (case find (matches H h k) (cs ! ?s) of None \<Rightarrow> NULL
      | Some a \<Rightarrow> n_val (the (H a))))"
    using lookup_chain_ok [OF slots_okD (1) [OF ok s(3)]] h n s
    by (simp add: htable_lookup_def c_mod_ok)
  have sub: "a \<in> all_nodes cs" if "a \<in> set (cs ! ?s)" for a
    using nth_all_nodes [OF that] s(3) n(3) by simp
  show ?thesis
  proof (cases "find (matches H h k) (cs ! ?s)")
    case None
    then have "\<not> matches H h k a" if "a \<in> set (cs ! ?s)" for a using that by (simp add: find_None_iff)
    then have "m k = None"
      using m [of k] matches_slot [OF ok k h(1)] by (cases "m k") blast+
    with eq None show ?thesis by simp
  next
    case (Some a)
    then have a: "a \<in> set (cs ! ?s)" "matches H h k a" by (auto simp: find_Some_iff)
    then obtain h' v where p: "payload H a = Some (h', k, v)"
      using matches_slot [OF ok k h(1) sub [OF a(1)]] by blast
    then have "m k = Some v" using m sub [OF a(1)] by blast
    with eq Some p show ?thesis by (auto simp: payload_def)
  qed
qed

section \<open>Insertion\<close>

text \<open>Appending a fresh node to the chain of its slot.\<close>

lemma link_node_ok:
  fixes v :: addr
  assumes ok: "slots_ok H (ht_size ht) (store ht) cs"
    and k: "ascii_key k" "hashcode k = Inr h" "0 \<le> h" and n: "n \<noteq> NULL" "H n = None"
  defines "sl \<equiv> h mod ht_size ht"
  defines "as \<equiv> cs ! nat sl"
  defines "nd \<equiv> \<lparr>n_hashcode = h, n_key = k, n_val = v, n_next = NULL\<rparr>"
  shows "\<exists>H' ht'. link_node (H(n \<mapsto> nd), ht) sl (last (NULL # as)) n = Inr (H', ht') \<and>
    slots_ok H' (ht_size ht) (store ht') (cs[nat sl := as @ [n]]) \<and>
    (\<forall>a. payload H' a = (if a = n then Some (h, k, v) else payload H a)) \<and>
    ht_size ht' = ht_size ht \<and> allow_resize ht' = allow_resize ht"
proof -
  let ?n = "ht_size ht" and ?s = "nat sl" and ?H1 = "H(n \<mapsto> nd)"
  have pos: "0 < ?n" "length (store ht) = nat ?n" "length cs = nat ?n" using ok by (auto simp: slots_ok_def)
  have s: "0 \<le> sl" "sl < ?n" "?s < nat ?n" using pos by (auto simp: sl_def)
  note D = slots_okD [OF ok s(3), folded as_def]
  have fresh: "n \<notin> set (cs ! j)" if "j < nat ?n" for j
    using chain_mem [OF slots_okD (1) [OF ok that], of n] n(2) by auto
  define H' where "H' = (if as = [] then ?H1 else ?H1(last as \<mapsto> (the (H (last as)))\<lparr>n_next := n\<rparr>))"
  define p where "p = (if as = [] then n else store ht ! ?s)"
  have last: "last as \<in> set as" "last as \<noteq> NULL" "last as \<noteq> n" "H (last as) = Some (the (H (last as)))"
    if "as \<noteq> []"
    using that chain_mem [OF D(1), of "last as"] fresh [OF s(3)] by (auto simp: as_def)
  have pay: "payload H' a = (if a = n then Some (h, k, v) else payload H a)" for a
  proof (cases "as = []")
    case False
    note L = last [OF False]
    have "payload H (last as) = payload H' (last as)"
      using False by (subst payload_def, subst L(4)) (simp add: H'_def payload_def)
    with False L(3) show ?thesis by (cases "a = last as") (auto simp: H'_def payload_def nd_def)
  qed (simp add: H'_def payload_def nd_def)
  have old: "node_ok H' a \<and> slot_of ?n H' a = ?s" if "a \<in> set as" for a
  proof -
    have "a \<noteq> n" using that fresh [OF s(3)] by (auto simp: as_def)
    with pay have eq: "payload H' a = payload H a" by simp
    have "H a \<noteq> None" using D(3) [OF that] by (auto simp: node_ok_def)
    then show ?thesis
      using D(3,4) [OF that] node_ok_payload [OF eq] slot_of_payload [OF _ eq] by simp
  qed
  have new: "node_ok H' n \<and> slot_of ?n H' n = ?s"
    using k last(3) by (auto simp: H'_def node_ok_def slot_of_def nd_def sl_def)
  have "slots_ok H' ?n ((store ht)[?s := p]) (cs[?s := as @ [n]])"
  proof (rule slots_ok_update [OF ok s(3)])
    show "chain H' p (as @ [n])"
      using chain_snoc [OF D(1,2) _ n(1), of nd] fresh [OF s(3)]
      by (auto simp: H'_def p_def nd_def as_def split: if_splits)
    show "distinct (as @ [n])" using D(2) fresh [OF s(3)] by (simp add: as_def)
    show "node_ok H' a \<and> slot_of ?n H' a = ?s" if "a \<in> set (as @ [n])" for a
      using that old new by auto
    show "H' a = H a" if "j < nat ?n" "j \<noteq> ?s" "a \<in> set (cs ! j)" for j a
    proof -
      have "a \<noteq> n" "a \<notin> set as"
        using fresh [OF that(1)] slots_ok_other [OF ok that(3,1) s(3) that(2)] that(3) by (auto simp: as_def)
      then show ?thesis using last(1) by (auto simp: H'_def)
    qed
  qed
  moreover have "link_node (?H1, ht) sl (last (NULL # as)) n = Inr (H', ht\<lparr>store := (store ht)[?s := p]\<rparr>)"
  proof (cases "as = []")
    case True
    then show ?thesis using s pos by (simp add: link_node_def H'_def p_def)
  next
    case False
    note L = last [OF False]
    have "(store ht)[?s := p] = store ht" using False by (simp add: p_def)
    moreover have "?H1 (last as) = Some (the (H (last as)))" using L(3,4) by simp
    ultimately show ?thesis using False L(2) by (simp add: link_node_def H'_def)
  qed
  ultimately show ?thesis using pay by auto
qed

text \<open>The nodes an insertion can count without overflow, and the sizes it may double.\<close>

definition ht_room :: "ht_state \<Rightarrow> bool" where
  "ht_room s \<longleftrightarrow> finite (dom (fst s)) \<and> int (card (dom (fst s))) \<le> INT_MAX \<and>
     (allow_resize (snd s) \<noteq> 0 \<longrightarrow> 2 * ht_size (snd s) \<le> SIZE_LIMIT)"

text \<open>
  An insertion of \<open>k\<close> that resizes the table must find a larger prime; one into a short chain does not
  resize it.
\<close>

definition slot_short :: "ht_state \<Rightarrow> string \<Rightarrow> bool" where
  "slot_short s k \<longleftrightarrow>
     (\<forall>h as. hashcode k = Inr h \<longrightarrow> chain (fst s) (store (snd s) ! nat (h mod ht_size (snd s))) as \<longrightarrow> distinct as \<longrightarrow>
        (\<forall>a\<in>set as. node_ok (fst s) a \<and> slot_of (ht_size (snd s)) (fst s) a = nat (h mod ht_size (snd s))) \<longrightarrow>
        int (length as) < MAX_COLLISION)"

definition nodes_fit :: "ht_state \<Rightarrow> bool" where
  "nodes_fit s \<longleftrightarrow> finite (dom (fst s)) \<and> int (card (dom (fst s))) \<le> INT_MAX"

lemma nodes_fit_room: "ht_room s \<Longrightarrow> nodes_fit s"
  by (simp add: ht_room_def nodes_fit_def)

definition fresh_node :: "addr \<Rightarrow> ht_state \<Rightarrow> bool" where
  "fresh_node n s \<longleftrightarrow> n \<noteq> NULL \<and> fst s n = None"

lemma chain_length:
  assumes "chain H p as" and "distinct as" and "finite (dom H)"
  shows "length as \<le> card (dom H)"
proof -
  have "set as \<subseteq> dom H" using chain_mem [OF assms(1)] by auto
  with card_mono [OF assms(3) this] distinct_card [OF assms(2)] show ?thesis by simp
qed

lemma all_nodes_ok: "slots_ok H n st cs \<Longrightarrow> a \<in> all_nodes cs \<Longrightarrow> node_ok H a"
  by (auto simp: all_nodes_iff slots_ok_def)

lemma binds_insert:
  assumes "binds H A m" and "m k = None" and "n \<notin> A"
    and "\<And>a. payload H' a = (if a = n then Some (h, k, v) else payload H a)"
  shows "binds H' (insert n A) (m(k \<mapsto> v))"
  unfolding binds_def
proof (intro allI)
  fix k' v'
  have old: "(\<exists>a\<in>A. \<exists>h. payload H' a = Some (h, k', v')) \<longleftrightarrow> m k' = Some v'"
    using assms(1,3,4) unfolding binds_def by (metis (no_types))
  have new: "(\<exists>h'. payload H' n = Some (h', k', v')) \<longleftrightarrow> k' = k \<and> v' = v"
    using assms(4) [of n] by auto
  show "(m(k \<mapsto> v)) k' = Some v' \<longleftrightarrow> (\<exists>a\<in>insert n A. \<exists>h. payload H' a = Some (h, k', v'))"
    using old new assms(2) by auto
qed

text \<open>The search of an insertion: it finds a node exactly when the key is bound.\<close>

lemma scan_slot_ok:
  assumes ok: "slots_ok H (ht_size ht) (store ht) cs" and m: "binds H (all_nodes cs) m"
    and k: "ascii_key k" "hashcode k = Inr h" and room: "nodes_fit (H, ht)"
  defines "s \<equiv> nat (h mod ht_size ht)"
  shows "scan_chain H h k NULL (store ht ! s) 0 = Some (Inr (if m k \<noteq> None then None
      else Some (last (NULL # cs ! s), int (length (cs ! s)))))"
proof -
  have pos: "0 < ht_size ht" "length cs = nat (ht_size ht)" using ok by (auto simp: slots_ok_def)
  then have s: "s < nat (ht_size ht)" by (simp add: s_def)
  have "(\<exists>v. m k = Some v) \<longleftrightarrow> (\<exists>a\<in>all_nodes cs. \<exists>h v. payload H a = Some (h, k, v))"
    using m unfolding binds_def by blast
  also have "\<dots> \<longleftrightarrow> (\<exists>a\<in>all_nodes cs. a \<in> set (cs ! s) \<and> matches H h k a)"
    using matches_slot [OF ok k] unfolding s_def by blast
  also have "\<dots> \<longleftrightarrow> (\<exists>a\<in>set (cs ! s). matches H h k a)"
    using nth_all_nodes [of _ cs s] s pos(2) by auto
  finally have found: "(\<exists>a\<in>set (cs ! s). matches H h k a) \<longleftrightarrow> m k \<noteq> None" by auto
  note D = slots_okD [OF ok s]
  show ?thesis
    using scan_chain_ok [OF D(1), of 0 h k NULL] chain_length [OF D(1,2)] room found
    by (auto simp: nodes_fit_def)
qed

lemma htable_insert_core:
  assumes map: "ht_map (H, ht) m" and k: "ascii_key k" and room: "nodes_fit (H, ht)"
    and n: "fresh_node n (H, ht)"
    and grow: "m k = None \<Longrightarrow> allow_resize ht \<noteq> 0 \<Longrightarrow> 2 * ht_size ht \<le> SIZE_LIMIT \<or> slot_short (H, ht) k"
  shows "if m k \<noteq> None then htable_insert n True (H, ht) k v = Some (Inr (1, (H, ht)))
    else \<exists>H' ht'. htable_insert n True (H, ht) k v = Some (Inr (0, (H', ht'))) \<and>
      ht_map (H', ht') (m(k \<mapsto> v)) \<and>
      (\<forall>a. payload H' a = (if a = n then Some (projr (hashcode k), k, v) else payload H a)) \<and>
      allow_resize ht' = allow_resize ht \<and> (ht_size ht \<le> SIZE_LIMIT \<longrightarrow> ht_size ht' \<le> SIZE_LIMIT) \<and>
      (allow_resize ht \<noteq> 0 \<longrightarrow> \<not> slot_short (H, ht) k \<longrightarrow> 2 * ht_size ht \<le> ht_size ht')"
proof -
  obtain cs where ok: "slots_ok H (ht_size ht) (store ht) cs" and mx: "ht_size ht \<le> INT_MAX"
    and dm: "dom H = all_nodes cs" and m: "binds H (all_nodes cs) m"
    using map by (rule ht_mapE)
  obtain h where h: "hashcode k = Inr h" "0 \<le> h" using k by (rule hashcode_ascii)
  let ?n = "ht_size ht" and ?sl = "h mod ht_size ht"
  let ?as = "cs ! nat ?sl" and ?nd = "\<lparr>n_hashcode = h, n_key = k, n_val = v, n_next = NULL\<rparr>"
  have pos: "0 < ?n" "length (store ht) = nat ?n" "length cs = nat ?n" using ok by (auto simp: slots_ok_def)
  have s: "0 \<le> ?sl" "?sl < ?n" "nat ?sl < nat ?n" using pos by auto
  note pre = h pos s scan_slot_ok [OF ok m k h(1) room]
  have nn: "n \<noteq> NULL" "H n = None" using n by (auto simp: fresh_node_def)
  obtain H1 ht1 where 1: "link_node (H(n \<mapsto> ?nd), ht) ?sl (last (NULL # ?as)) n = Inr (H1, ht1)"
    "slots_ok H1 ?n (store ht1) (cs[nat ?sl := ?as @ [n]])"
    "\<forall>a. payload H1 a = (if a = n then Some (h, k, v) else payload H a)"
    "ht_size ht1 = ?n" "allow_resize ht1 = allow_resize ht"
    using link_node_ok [OF ok k h nn, of v] by blast
  have nodes: "all_nodes (cs[nat ?sl := ?as @ [n]]) = insert n (all_nodes cs)"
    using s(3) pos(3) by (intro all_nodes_update) auto
  have fr: "n \<notin> all_nodes cs" using all_nodes_ok [OF ok, of n] nn(2) by (auto simp: node_ok_def)
  show ?thesis
  proof (cases "m k")
    case (Some v')
    with pre show ?thesis by (simp add: htable_insert_def c_mod_ok)
  next
    case None
    have map1: "ht_map (H1, ht1) (m(k \<mapsto> v))"
      using binds_insert [OF m None fr, of H1 h v] 1(2-4) mx nodes dm
        dom_payload_insert [of H1 n "(h, k, v)" H]
      by (intro ht_mapI [of _ _ "cs[nat ?sl := ?as @ [n]]"]) simp_all
    show ?thesis
    proof (cases "allow_resize ht \<noteq> 0 \<and> int (length ?as) \<ge> MAX_COLLISION")
      case True
      note D = slots_okD [OF ok s(3)]
      have "\<not> slot_short (H, ht) k" using True D h(1) by (force simp: slot_short_def)
      then have "2 * ht_size ht \<le> SIZE_LIMIT" using grow None True by blast
      then obtain H2 ht2 where "htable_resize True (H1, ht1) = Some (Inr (H2, ht2))"
        "ht_map (H2, ht2) (m(k \<mapsto> v))" "\<forall>a. payload H2 a = payload H1 a" "allow_resize ht2 = allow_resize ht"
        "ht_size ht2 \<le> SIZE_LIMIT" "2 * ht_size ht \<le> ht_size ht2"
        using htable_resize_ok [OF map1] 1(4,5) by auto
      with pre 1(1,3) None True nn show ?thesis by (simp add: htable_insert_def c_mod_ok)
    next
      case False
      then have "slot_short (H, ht) k" if "allow_resize ht \<noteq> 0"
        using that chain_unique [OF slots_okD (1) [OF ok s(3)]] h(1) by (auto simp: slot_short_def)
      with False pre 1(1,3-5) None nn map1 show ?thesis by (auto simp: htable_insert_def c_mod_ok)
    qed
  qed
qed

lemma htable_insert_ok:
  assumes "ht_map (H, ht) m" and "ascii_key k" and "ht_room (H, ht)" and "fresh_node n (H, ht)"
  shows "if m k \<noteq> None then htable_insert n True (H, ht) k v = Some (Inr (1, (H, ht)))
    else \<exists>H' ht'. htable_insert n True (H, ht) k v = Some (Inr (0, (H', ht'))) \<and>
      ht_map (H', ht') (m(k \<mapsto> v)) \<and>
      (\<forall>a. payload H' a = (if a = n then Some (projr (hashcode k), k, v) else payload H a)) \<and>
      allow_resize ht' = allow_resize ht"
proof -
  have "2 * ht_size ht \<le> SIZE_LIMIT" if "allow_resize ht \<noteq> 0" using assms(3) that by (simp add: ht_room_def)
  then show ?thesis
    using htable_insert_core [OF assms(1,2) nodes_fit_room [OF assms(3)] assms(4), of v] by (auto split: if_splits)
qed

section \<open>Creation and destruction\<close>

lemma htable_init_ok:
  assumes "0 \<le> sz" and "sz < SIZE_LIMIT"
  shows "\<exists>ht. htable_init True sz resize = Inr ht \<and> ht_map (Map.empty, ht) Map.empty \<and>
    sz < ht_size ht \<and> ht_size ht \<le> SIZE_LIMIT \<and> size_ok (ht_size ht) \<and> allow_resize ht = resize"
proof -
  obtain n where n: "get_prime (sz + 1) = Inr n" "sz + 1 \<le> n" "n \<le> SIZE_LIMIT" "size_ok n"
    using get_prime_limit [of "sz + 1"] assms(2) by auto
  let ?ht = "\<lparr>allow_resize = resize, store = replicate (nat n) NULL, ht_size = n\<rparr>"
  have "in_int (sz + 1)" using assms by (auto simp: in_int_iff SIZE_LIMIT_def)
  then have "htable_init True sz resize = Inr ?ht" using n(1) by (simp add: htable_init_def)
  moreover have sl: "slots_ok Map.empty n (replicate (nat n) NULL) (replicate (nat n) [])"
    using n(2) assms(1) by (intro slots_ok_init) auto
  moreover have "ht_map (Map.empty, ?ht) Map.empty"
    using sl n(3) by (intro ht_mapI [of _ _ "replicate (nat n) []"])
      (auto simp: binds_def SIZE_LIMIT_def INT_MAX_def)
  ultimately show ?thesis using n(2-4) by auto
qed

text \<open>Freeing a chain frees each of its nodes once, from the last to the first, and no other.\<close>

lemma free_linked_list_ok:
  "chain H p as \<Longrightarrow> distinct as \<Longrightarrow> free_linked_list H p = Some (Inr (H |` (- set as)))"
proof (induction as arbitrary: p)
  case Nil
  have "H |` UNIV = H" by (auto simp: restrict_map_def)
  with Nil show ?case by (subst free_linked_list.simps) simp
next
  case (Cons a as)
  then obtain nd where nd: "p = a" "a \<noteq> NULL" "H a = Some nd" "chain H (n_next nd) as"
    by (auto split: option.splits)
  have "(H |` (- set as)) a = Some nd" using nd(3) Cons.prems(2) by simp
  moreover have "(H |` (- set as))(a := None) = H |` (- set (a # as))"
    by (auto simp: restrict_map_def)
  ultimately show ?case
    using Cons.IH [OF nd(4)] Cons.prems(2) nd by (subst free_linked_list.simps) simp
qed

lemma destroy_loop_ok:
  assumes "slots_ok H0 n st cs" and "i + k = nat n"
    and "\<And>j a. i \<le> j \<Longrightarrow> j < nat n \<Longrightarrow> a \<in> set (cs ! j) \<Longrightarrow> H a = H0 a"
  shows "destroy_loop k (int i) st H = Some (Inr (H |` (- (\<Union>j\<in>{i..<nat n}. set (cs ! j)))))"
  using assms(2,3)
proof (induction k arbitrary: i H)
  case 0
  then show ?case by simp
next
  case (Suc k)
  have i: "i < nat n" using Suc.prems(1) by simp
  note D = slots_okD [OF assms(1) i]
  have "chain H (st ! i) (cs ! i)"
    using D(1) chain_cong [of "cs ! i" H H0] Suc.prems(2) [OF order_refl i] by auto
  from free_linked_list_ok [OF this D(2)]
  have fr: "free_linked_list H (st ! i) = Some (Inr (H |` (- set (cs ! i))))" .
  have "destroy_loop k (int (Suc i)) st (H |` (- set (cs ! i))) =
    Some (Inr (H |` (- set (cs ! i)) |` (- (\<Union>j\<in>{Suc i..<nat n}. set (cs ! j)))))"
  proof (rule Suc.IH)
    show "Suc i + k = nat n" using Suc.prems(1) by simp
    fix j a assume j: "Suc i \<le> j" "j < nat n" "a \<in> set (cs ! j)"
    then have "a \<notin> set (cs ! i)" using slots_ok_other [OF assms(1) j(3,2) i] by auto
    then show "(H |` (- set (cs ! i))) a = H0 a" using Suc.prems(2) [of j a] j by simp
  qed
  moreover have "{i..<nat n} = insert i {Suc i..<nat n}" using i by auto
  moreover have "get_arr st (int i) = Inr (st ! i)" using assms(1) i by (simp add: slots_ok_def)
  ultimately show ?case using fr by (simp add: add.commute)
qed

lemma htable_destroy_ok:
  assumes "ht_map (H, ht) m"
  shows "htable_destroy (H, ht) = Some (Inr Map.empty)"
proof -
  obtain cs where ok: "slots_ok H (ht_size ht) (store ht) cs" and dm: "dom H = all_nodes cs"
    using assms by (rule ht_mapE)
  have "length cs = nat (ht_size ht)" using ok by (simp add: slots_ok_def)
  with destroy_loop_ok [OF ok, of 0 "nat (ht_size ht)" H]
  have "htable_destroy (H, ht) = Some (Inr (H |` (- all_nodes cs)))"
    by (simp add: htable_destroy_def all_nodes_def lessThan_atLeast0)
  moreover have "H |` (- all_nodes cs) = Map.empty"
    unfolding dm [symmetric] by (auto simp: restrict_map_def)
  ultimately show ?thesis by simp
qed

section \<open>The interface of a table\<close>

text \<open>
  What the test program relies on: a table stores a map, lookups read it, and an insertion adds a
  binding for a new key and refuses an old one, for the keys that are admitted (\<open>okkey\<close>). \<open>room n s\<close>: the next \<open>n\<close> insertions can be served;
  \<open>fresh a s\<close>: \<open>malloc\<close> may return \<open>a\<close> in state \<open>s\<close>.
\<close>

locale dictionary =
  fixes okkey :: "string \<Rightarrow> bool"
    and rep :: "'s \<Rightarrow> (string \<rightharpoonup> addr) \<Rightarrow> bool"
    and room :: "nat \<Rightarrow> 's \<Rightarrow> bool"
    and fresh :: "addr \<Rightarrow> 's \<Rightarrow> bool"
    and lookup :: "'s \<Rightarrow> string \<Rightarrow> addr run"
    and insert_key :: "addr \<Rightarrow> 's \<Rightarrow> string \<Rightarrow> addr \<Rightarrow> (int \<times> 's) run"
  assumes lookup_ok: "rep s m \<Longrightarrow> okkey k \<Longrightarrow>
      lookup s k = Some (Inr (case m k of None \<Rightarrow> NULL | Some v \<Rightarrow> v))"
    and insert_old: "rep s m \<Longrightarrow> okkey k \<Longrightarrow> room (Suc n) s \<Longrightarrow> fresh a s \<Longrightarrow> m k = Some v' \<Longrightarrow>
      insert_key a s k v = Some (Inr (1, s))"
    and insert_new: "rep s m \<Longrightarrow> okkey k \<Longrightarrow> room (Suc n) s \<Longrightarrow> fresh a s \<Longrightarrow> m k = None \<Longrightarrow>
      \<exists>s'. insert_key a s k v = Some (Inr (0, s')) \<and> rep s' (m(k \<mapsto> v)) \<and> room n s' \<and>
        (\<forall>b. fresh b s \<longrightarrow> b \<noteq> a \<longrightarrow> fresh b s')"
    and room_less: "room (Suc n) s \<Longrightarrow> room n s"
begin

text \<open>Either way an insertion leaves the table with the old binding of the key, or the new one.\<close>

lemma insert_any:
  assumes "rep s m" and "okkey k" and "room (Suc n) s" and "fresh a s"
  shows "\<exists>r s'. insert_key a s k v = Some (Inr (r, s')) \<and> rep s' ([k \<mapsto> v] ++ m) \<and> room n s' \<and>
    (\<forall>b. fresh b s \<longrightarrow> b \<noteq> a \<longrightarrow> fresh b s')"
proof (cases "m k")
  case None
  then have "[k \<mapsto> v] ++ m = m(k \<mapsto> v)" by (auto simp: map_add_def split: option.splits)
  with insert_new [OF assms None, of v] show ?thesis by auto
next
  case (Some v')
  then have "[k \<mapsto> v] ++ m = m" by (auto simp: map_add_def split: option.splits)
  with insert_old [OF assms Some, of v] assms(1) room_less [OF assms(3)] show ?thesis by auto
qed

end

text \<open>The table without resizing, as in the first test of \<open>tester.c\<close>.\<close>

definition ht_capacity :: "nat \<Rightarrow> ht_state \<Rightarrow> bool" where
  "ht_capacity n s \<longleftrightarrow> finite (dom (fst s)) \<and> int (card (dom (fst s)) + n) \<le> INT_MAX + 1 \<and>
     allow_resize (snd s) = 0"

lemma htable_insert_new:
  assumes "ht_map s m" and "ascii_key k" and "ht_capacity (Suc n) s" and "fresh_node a s" and "m k = None"
  shows "\<exists>s'. htable_insert a True s k v = Some (Inr (0, s')) \<and> ht_map s' (m(k \<mapsto> v)) \<and>
    ht_capacity n s' \<and> (\<forall>b. fresh_node b s \<longrightarrow> b \<noteq> a \<longrightarrow> fresh_node b s')"
proof -
  obtain H ht where s: "s = (H, ht)" by (cases s)
  have room: "ht_room (H, ht)" using assms(3) by (simp add: s ht_capacity_def ht_room_def)
  obtain H' ht' where 1: "htable_insert a True (H, ht) k v = Some (Inr (0, (H', ht')))"
    "ht_map (H', ht') (m(k \<mapsto> v))"
    "\<forall>b. payload H' b = (if b = a then Some (projr (hashcode k), k, v) else payload H b)"
    "allow_resize ht' = allow_resize ht"
    using htable_insert_ok [OF assms(1) [unfolded s] assms(2) room assms(4) [unfolded s], of v] assms(5)
    by auto
  have dom: "dom H' = insert a (dom H)" using 1(3) by (intro dom_payload_insert) blast
  have "H a = None" using assms(4) by (simp add: s fresh_node_def)
  moreover have "allow_resize ht' = 0" using 1(4) assms(3) by (simp add: s ht_capacity_def)
  ultimately have "ht_capacity n (H', ht')"
    using assms(3) dom by (auto simp: s ht_capacity_def card_insert_if domIff)
  moreover have "fresh_node b (H', ht')" if "fresh_node b s" "b \<noteq> a" for b
    using that dom by (auto simp: s fresh_node_def domIff)
  ultimately show ?thesis using 1(1,2) by (auto simp: s)
qed

interpretation ht: dictionary ascii_key ht_map ht_capacity fresh_node htable_lookup "\<lambda>a. htable_insert a True"
proof (unfold_locales, goal_cases)
  case (1 s m k)
  then show ?case using htable_lookup_ok [of "fst s" "snd s" m k] by simp
next
  case (2 s m k n a v' v)
  then have "ht_room (fst s, snd s)" by (simp add: ht_capacity_def ht_room_def)
  with 2 htable_insert_ok [of "fst s" "snd s" m k a v] show ?case by simp
next
  case (3 s m k n a v)
  then show ?case by (rule htable_insert_new)
next
  case (4 n s)
  then show ?case by (simp add: ht_capacity_def)
qed

section \<open>A table that grows\<close>

text \<open>
  With resizing, every insertion into a chain of ten or more nodes doubles the table. Keys with the same
  hash code stay in one chain whatever the size, so the table stops growing only if no hash code has
  more than ten keys; then it never has to grow once it has more than \<open>BIG_PRIME\<close> slots.
\<close>

definition hash_spread :: "string set \<Rightarrow> bool" where
  "hash_spread K \<longleftrightarrow> (\<forall>k\<in>K. ascii_key k) \<and>
     (\<forall>h. finite {k \<in> K. hashcode k = Inr h} \<and> int (card {k \<in> K. hashcode k = Inr h}) \<le> MAX_COLLISION)"

definition key_of :: "node_heap \<Rightarrow> addr \<Rightarrow> string" where
  "key_of H a = n_key (the (H a))"

definition ht_growing :: "string set \<Rightarrow> nat \<Rightarrow> ht_state \<Rightarrow> bool" where
  "ht_growing K n s \<longleftrightarrow> finite (dom (fst s)) \<and> int (card (dom (fst s)) + n) \<le> INT_MAX + 1 \<and>
     ht_size (snd s) \<le> SIZE_LIMIT \<and> key_of (fst s) ` dom (fst s) \<subseteq> K \<and> inj_on (key_of (fst s)) (dom (fst s))"

lemma key_of_bound:
  assumes "ht_map (H, ht) m" and "a \<in> dom H"
  shows "m (key_of H a) \<noteq> None"
proof -
  obtain cs where "dom H = all_nodes cs" "binds H (all_nodes cs) m" using assms(1) by (rule ht_mapE)
  moreover obtain nd where "H a = Some nd" using assms(2) by blast
  then have "payload H a = Some (n_hashcode nd, key_of H a, n_val nd)" by (simp add: payload_def key_of_def)
  ultimately show ?thesis using assms(2) unfolding binds_def by blast
qed

lemma growing_slot_short:
  assumes K: "hash_spread K" "k \<in> K" and m: "ht_map (H, ht) m" "m k = None" and g: "ht_growing K n (H, ht)"
    and big: "\<not> 2 * ht_size ht \<le> SIZE_LIMIT"
  shows "slot_short (H, ht) k"
  unfolding slot_short_def fst_conv snd_conv
proof (intro allI impI)
  fix h as
  assume h: "hashcode k = Inr h" and as: "chain H (store ht ! nat (h mod ht_size ht)) as" "distinct as"
    and ok: "\<forall>a\<in>set as. node_ok H a \<and> slot_of (ht_size ht) H a = nat (h mod ht_size ht)"
  let ?S = "{k \<in> K. hashcode k = Inr h}"
  have size: "BIG_PRIME < ht_size ht" using big by (simp add: SIZE_LIMIT_def BIG_PRIME_def)
  have rng: "0 \<le> h" "h \<le> BIG_PRIME" using hashcode_ascii [of k] K h by (auto simp: hash_spread_def)
  have "key_of H a \<in> ?S - {k}" if a: "a \<in> set as" for a
  proof -
    obtain nd where nd: "H a = Some nd" "ascii_key (n_key nd)" "hashcode (n_key nd) = Inr (n_hashcode nd)"
      "0 \<le> n_hashcode nd"
      using ok a by (auto elim: node_okD)
    have "n_hashcode nd \<le> BIG_PRIME" using hashcode_ascii [OF nd(2)] nd(3) by auto
    then have "n_hashcode nd = h"
      using ok a nd(1,4) rng size by (auto simp: slot_of_def)
    moreover have "key_of H a \<in> K" using g nd(1) by (auto simp: ht_growing_def)
    moreover have "key_of H a \<noteq> k" using key_of_bound [OF m(1) domI [of H a, OF nd(1)]] m(2) by auto
    ultimately show ?thesis using nd(1,3) by (simp add: key_of_def)
  qed
  then have sub: "key_of H ` set as \<subseteq> ?S - {k}" by blast
  have fin: "finite ?S" "int (card ?S) \<le> MAX_COLLISION" "k \<in> ?S" using K h by (auto simp: hash_spread_def)
  have "set as \<subseteq> dom H" using chain_mem [OF as(1)] by blast
  then have "inj_on (key_of H) (set as)" using g by (auto simp: ht_growing_def intro: inj_on_subset)
  then have "length as = card (key_of H ` set as)" using distinct_card [OF as(2)] by (simp add: card_image)
  also have "\<dots> \<le> card (?S - {k})" using sub fin(1) by (intro card_mono) auto
  also have "card (?S - {k}) = card ?S - 1" using fin(1,3) by simp
  finally show "int (length as) < MAX_COLLISION"
    using fin(2) card_gt_0_iff [of ?S] fin(1,3) by (auto simp: MAX_COLLISION_def)
qed

lemma growing_insert:
  assumes K: "hash_spread K" "k \<in> K" and m: "ht_map (H, ht) m" and g: "ht_growing K (Suc n) (H, ht)"
    and a: "fresh_node a (H, ht)"
  shows "if m k \<noteq> None then htable_insert a True (H, ht) k v = Some (Inr (1, (H, ht)))
    else \<exists>s'. htable_insert a True (H, ht) k v = Some (Inr (0, s')) \<and> ht_map s' (m(k \<mapsto> v)) \<and>
      ht_growing K n s' \<and> (\<forall>b. fresh_node b (H, ht) \<longrightarrow> b \<noteq> a \<longrightarrow> fresh_node b s')"
proof -
  have k: "ascii_key k" using K by (auto simp: hash_spread_def)
  have fit: "nodes_fit (H, ht)" using g by (simp add: ht_growing_def nodes_fit_def)
  have grow: "2 * ht_size ht \<le> SIZE_LIMIT \<or> slot_short (H, ht) k" if "m k = None"
    using growing_slot_short [OF K m that g] by blast
  note core = htable_insert_core [OF m k fit a, of v, OF grow]
  show ?thesis
  proof (cases "m k")
    case None
    then obtain H' ht' where 1: "htable_insert a True (H, ht) k v = Some (Inr (0, (H', ht')))"
      "ht_map (H', ht') (m(k \<mapsto> v))"
      "\<forall>b. payload H' b = (if b = a then Some (projr (hashcode k), k, v) else payload H b)"
      "ht_size ht' \<le> SIZE_LIMIT"
      using core g by (auto simp: ht_growing_def)
    have dom: "dom H' = insert a (dom H)" using 1(3) by (intro dom_payload_insert) blast
    have key: "key_of H' b = (if b = a then k else key_of H b)" if "b \<in> dom H'" for b
      using 1(3) [rule_format, of b] that dom by (auto simp: payload_def key_of_def split: if_splits)
    have new: "a \<notin> dom H" using a by (auto simp: fresh_node_def)
    have "key_of H b \<noteq> k" if "b \<in> dom H" for b using key_of_bound [OF m that] None by auto
    then have "inj_on (key_of H') (dom H')" "key_of H' ` dom H' \<subseteq> K"
      using g K(2) key new unfolding dom ht_growing_def
      by (auto simp: inj_on_def image_subset_iff)
    then have "ht_growing K n (H', ht')"
      using g new 1(4) by (simp add: ht_growing_def dom)
    moreover have "fresh_node b (H', ht')" if "fresh_node b (H, ht)" "b \<noteq> a" for b
      using that dom by (auto simp: fresh_node_def domIff)
    ultimately show ?thesis using 1(1,2) None by auto
  qed (use core in auto)
qed

text \<open>All keys with one hash code are in one chain, whatever the size of the table.\<close>

lemma same_hash_not_short:
  assumes m: "ht_map (H, ht) m" and k: "hashcode k = Inr h"
    and many: "MAX_COLLISION \<le> int (card {k' \<in> dom m. ascii_key k' \<and> hashcode k' = Inr h})"
  shows "\<not> slot_short (H, ht) k"
proof -
  obtain cs where ok: "slots_ok H (ht_size ht) (store ht) cs" and b: "binds H (all_nodes cs) m"
    using m by (rule ht_mapE)
  let ?s = "nat (h mod ht_size ht)" and ?S = "{k' \<in> dom m. ascii_key k' \<and> hashcode k' = Inr h}"
  have s: "?s < nat (ht_size ht)" using ok by (simp add: slots_ok_def)
  note D = slots_okD [OF ok s]
  have "\<exists>a\<in>set (cs ! ?s). key_of H a = k'" if k': "k' \<in> ?S" for k'
  proof -
    obtain a x v where a: "a \<in> all_nodes cs" "payload H a = Some (x, k', v)"
      using k' b unfolding binds_def by blast
    then have "a \<in> set (cs ! ?s)" using matches_slot [OF ok _ _ a(1), of k' h] k' by blast
    moreover have "key_of H a = k'" using a(2) by (auto simp: payload_def key_of_def)
    ultimately show ?thesis by blast
  qed
  then have "?S \<subseteq> key_of H ` set (cs ! ?s)" by blast
  then have "card ?S \<le> length (cs ! ?s)"
    using card_mono [of "key_of H ` set (cs ! ?s)" ?S] card_image_le [of "set (cs ! ?s)" "key_of H"] card_length [of "cs ! ?s"]
    by simp
  then have "MAX_COLLISION \<le> int (length (cs ! ?s))" using many by linarith
  then show ?thesis using D k unfolding slot_short_def fst_conv snd_conv by (metis linorder_not_le)
qed

text \<open>So the growing table is a dictionary for any such set of keys.\<close>

lemma growing_dictionary:
  assumes "hash_spread K"
  shows "dictionary (\<lambda>k. k \<in> K) ht_map (ht_growing K) fresh_node htable_lookup (\<lambda>a. htable_insert a True)"
proof (unfold_locales, goal_cases)
  case (1 s m k)
  then show ?case using assms htable_lookup_ok [of "fst s" "snd s" m k] by (simp add: hash_spread_def)
next
  case (2 s m k n a v' v)
  then show ?case using growing_insert [OF assms 2(2), of "fst s" "snd s" m n a v] by simp
next
  case (3 s m k n a v)
  then show ?case using growing_insert [OF assms 3(2), of "fst s" "snd s" m n a v] by simp
next
  case (4 n s)
  then show ?case by (simp add: ht_growing_def)
qed

section \<open>What the table promises\<close>

text \<open>A table of 10007 slots after one insertion, for the witnesses.\<close>

lemma demo_table:
  obtains ht where "htable_init True 10000 1 = Inr ht" "ht_map (Map.empty, ht) Map.empty"
    "ht_room (Map.empty, ht)" "fresh_node 64 (Map.empty, ht)" "1 < ht_size ht"
    "10000 < ht_size ht" "ht_size ht \<le> 10007"
proof -
  obtain ht where ht: "htable_init True 10000 1 = Inr ht" "ht_map (Map.empty, ht) Map.empty"
    "10000 < ht_size ht" "size_ok (ht_size ht)" "ht_size ht \<le> SIZE_LIMIT"
    using htable_init_ok [of 10000 1] by (auto simp: SIZE_LIMIT_def)
  have "get_prime 10001 = Inr (ht_size ht)"
    using ht(1) by (auto simp: htable_init_def in_int_iff)
  moreover have "prime_int 10007"
  proof (rule prime_int_sqrt [where r = 101])
    fix d :: int assume "1 < d" "d \<le> 101"
    then have "d \<in> set [2..101]" unfolding set_upto by auto
    moreover have "list_all (\<lambda>d. 10007 mod d \<noteq> 0) [2..(101::int)]" by code_simp
    ultimately have "10007 mod d \<noteq> 0" unfolding list_all_iff by metis
    then show "\<not> d dvd 10007" by (simp add: dvd_eq_mod_eq_0)
  qed simp_all
  ultimately have size: "ht_size ht \<le> 10007"
    using get_prime_least [of 10001 10007] by (auto simp: size_ok_def INT_MAX_def)
  then have "ht_room (Map.empty, ht)"
    by (simp add: ht_room_def SIZE_LIMIT_def INT_MAX_def)
  with that ht size show ?thesis by (auto simp: fresh_node_def NULL_def)
qed

lemma ascii_demo: "ascii_key ''key''"
  by (simp add: ascii_key_def NUL_def)

text \<open>
  C3: \<open>htable_insert\<close> refines the update of a map. On a table that stores \<open>m\<close>, inserting a bound
  key returns 1 and changes nothing; inserting a new key returns 0 and the table stores the map
  with the new binding, also when the insertion resizes the table. The call always returns.
\<close>

theorem htable_insert_refines:
  assumes "ht_map (H, ht) m" and "ascii_key k" and "ht_room (H, ht)" and "fresh_node n (H, ht)"
  shows "if m k \<noteq> None then htable_insert n True (H, ht) k v = Some (Inr (1, (H, ht)))
    else \<exists>s'. htable_insert n True (H, ht) k v = Some (Inr (0, s')) \<and> ht_map s' (m(k \<mapsto> v))"
  using htable_insert_ok [OF assms, of v] by auto

theorem htable_insert_refines_witness:
  "\<exists>ht s'. htable_init True 10000 1 = Inr ht \<and>
    htable_insert 64 True (Map.empty, ht) ''key'' 4096 = Some (Inr (0, s')) \<and>
    ht_map s' [''key'' \<mapsto> 4096]"
proof -
  obtain ht where ht: "htable_init True 10000 1 = Inr ht" "ht_map (Map.empty, ht) Map.empty"
    "ht_room (Map.empty, ht)" "fresh_node 64 (Map.empty, ht)"
    by (rule demo_table)
  with htable_insert_refines [OF ht(2) ascii_demo ht(3,4), of 4096] show ?thesis by auto
qed

text \<open>
  C4: \<open>htable_lookup\<close> reads the map the table stores: the value bound to the key, or \<open>NULL\<close> for a
  key that is not bound. The call always returns.
\<close>

theorem htable_lookup_reads:
  assumes "ht_map (H, ht) m" and "ascii_key k"
  shows "htable_lookup (H, ht) k = Some (Inr (case m k of None \<Rightarrow> NULL | Some v \<Rightarrow> v))"
  using assms by (rule htable_lookup_ok)

theorem htable_lookup_reads_witness:
  "\<exists>ht. htable_init True 10000 1 = Inr ht \<and> htable_lookup (Map.empty, ht) ''key'' = Some (Inr NULL)"
proof -
  obtain ht where ht: "htable_init True 10000 1 = Inr ht" "ht_map (Map.empty, ht) Map.empty"
    by (rule demo_table)
  with htable_lookup_reads [OF ht(2) ascii_demo] show ?thesis by auto
qed

text \<open>
  C17: \<open>htable_resize\<close> at least doubles the number of slots, relinks the existing nodes without
  copying them (what each node holds is unchanged, none is freed or allocated), and the table
  stores the same map.
\<close>

theorem htable_resize_keeps_map:
  assumes "ht_map (H, ht) m" and "2 * ht_size ht \<le> SIZE_LIMIT"
  shows "\<exists>H' ht'. htable_resize True (H, ht) = Some (Inr (H', ht')) \<and> ht_map (H', ht') m \<and>
    (\<forall>a. payload H' a = payload H a) \<and> 2 * ht_size ht \<le> ht_size ht'"
  using htable_resize_ok [OF assms] by blast

theorem htable_resize_keeps_map_witness:
  "\<exists>ht H' ht'. htable_init True 10000 1 = Inr ht \<and>
    htable_resize True (Map.empty, ht) = Some (Inr (H', ht')) \<and> 2 * ht_size ht \<le> ht_size ht'"
proof -
  obtain ht where ht: "htable_init True 10000 1 = Inr ht" "ht_map (Map.empty, ht) Map.empty"
    "ht_room (Map.empty, ht)"
    by (rule demo_table)
  have "allow_resize ht \<noteq> 0" using ht(1) by (auto simp: htable_init_def)
  then have "2 * ht_size ht \<le> SIZE_LIMIT" using ht(3) by (simp add: ht_room_def)
  with htable_resize_keeps_map [OF ht(2)] ht(1) show ?thesis by blast
qed

text \<open>
  C18: \<open>htable_destroy\<close> frees every node of the table exactly once: no node is freed twice or used
  after it was freed, and none is left.
\<close>

theorem htable_destroy_frees_all:
  assumes "ht_map (H, ht) m"
  shows "htable_destroy (H, ht) = Some (Inr Map.empty)"
  using assms by (rule htable_destroy_ok)

theorem htable_destroy_frees_all_witness:
  "\<exists>ht s'. htable_init True 10000 1 = Inr ht \<and>
    htable_insert 64 True (Map.empty, ht) ''key'' 4096 = Some (Inr (0, s')) \<and>
    htable_destroy s' = Some (Inr Map.empty)"
proof -
  obtain ht where ht: "htable_init True 10000 1 = Inr ht" "ht_map (Map.empty, ht) Map.empty"
    "ht_room (Map.empty, ht)" "fresh_node 64 (Map.empty, ht)"
    by (rule demo_table)
  obtain s' where s': "htable_insert 64 True (Map.empty, ht) ''key'' 4096 = Some (Inr (0, s'))"
    "ht_map (fst s', snd s') [''key'' \<mapsto> 4096]"
    using htable_insert_ok [OF ht(2) ascii_demo ht(3,4), of 4096] by auto
  from htable_destroy_frees_all [OF s'(2)] ht(1) s'(1) show ?thesis by (metis prod.collapse)
qed

text \<open>
  Keys written in characters above 127 only, as every word of a text in UTF-8 without an ASCII letter
  is: \<open>char\<close> is signed, so every step of \<open>hashcode\<close> stays below zero.
\<close>

lemma schar_high: "128 \<le> (of_char c :: int) \<Longrightarrow> - 128 \<le> schar c \<and> schar c < 0 \<and> c \<noteq> NUL"
  using of_char_less [of c] by (auto simp: schar_def NUL_def)

lemma smod_neg_dvd:
  fixes a b :: int
  assumes "a < 0" and "0 < b" and "\<not> b dvd a"
  shows "a smod b < 0"
proof -
  have "a smod b \<noteq> 0"
    using assms(3) sdiv_mult_smod_eq [of a b] by (metis add.right_neutral dvd_triv_right)
  then show ?thesis using smod_int_compares(4) [of a b] assms(1,2) by linarith
qed

lemma hash_loop_high:
  assumes "list_all (\<lambda>c. 128 \<le> (of_char c :: int)) k" and "- BIG_PRIME - 128 \<le> p" and "p \<le> 0"
  shows "\<exists>h. hash_loop p k = Inr h \<and> (k = [] \<and> h = p \<or> - BIG_PRIME - 128 \<le> h \<and> h < 0)"
  using assms
proof (induction k arbitrary: p)
  case (Cons c k)
  have c: "- 128 \<le> schar c" "schar c < 0" "c \<noteq> NUL" using Cons.prems(1) schar_high [of c] by simp_all
  let ?x = "(p * 256) smod BIG_PRIME"
  have x: "- BIG_PRIME < ?x" "?x \<le> 0"
    using smod_int_compares(3,4) [of "p * 256" BIG_PRIME] Cons.prems(3) by (simp_all add: BIG_PRIME_def)
  have "ht_mmul p 256 = Inr ?x" using Cons.prems(2,3) by (simp add: ht_mmul_def in_int_iff BIG_PRIME_def)
  moreover have "ht_madd ?x (schar c) = Inr (?x + schar c)"
    using x c by (simp add: ht_madd_def in_int_iff BIG_PRIME_def)
  moreover have "\<exists>h. hash_loop (?x + schar c) k = Inr h \<and> - BIG_PRIME - 128 \<le> h \<and> h < 0"
  proof -
    have q: "- BIG_PRIME - 128 \<le> ?x + schar c" "?x + schar c < 0" using x c by linarith+
    then obtain h where "hash_loop (?x + schar c) k = Inr h"
      "k = [] \<and> h = ?x + schar c \<or> - BIG_PRIME - 128 \<le> h \<and> h < 0"
      using Cons.IH [of "?x + schar c"] Cons.prems(1) by auto
    with q show ?thesis by auto
  qed
  ultimately show ?case using c(3) by simp
qed simp

lemma negative_slot:
  assumes "hashcode k = Inr h" and "h < 0" and "0 < ht_size ht" and "\<not> ht_size ht dvd h"
  shows "htable_insert n mal (H, ht) k v = Some (Inl OutOfBounds)"
    "htable_lookup (H, ht) k = Some (Inl OutOfBounds)"
  using assms smod_neg_dvd [OF assms(2-4)]
  by (simp_all add: htable_insert_def htable_lookup_def c_mod_def get_arr_def)

text \<open>
  C31: the hash code of a key whose characters are all above 127 (negative as a \<open>char\<close>) is negative,
  so that \<open>htable_insert\<close> and \<open>htable_lookup\<close> read the store at a negative index for every such key,
  except where the number of slots happens to divide the hash code and the slot is 0. Of one such
  character the hash code is the value of the \<open>char\<close>. The key is arbitrary otherwise, and so are the
  nodes and the size of the table.
\<close>

theorem htable_insert_negative_slot:
  assumes "k \<noteq> []" and "list_all (\<lambda>c. 128 \<le> (of_char c :: int)) k" and "0 < ht_size ht"
  shows "\<exists>h. hashcode k = Inr h \<and> - BIG_PRIME - 128 \<le> h \<and> h < 0 \<and> (length k = 1 \<longrightarrow> h = schar (hd k)) \<and>
    (ht_size ht dvd h \<or>
      htable_insert n mal (H, ht) k v = Some (Inl OutOfBounds) \<and>
      htable_lookup (H, ht) k = Some (Inl OutOfBounds))"
proof -
  have "- BIG_PRIME - 128 \<le> 0" by (simp add: BIG_PRIME_def)
  with hash_loop_high [OF assms(2), of 0] assms(1)
  obtain h where h: "hashcode k = Inr h" "- BIG_PRIME - 128 \<le> h" "h < 0" by (auto simp: hashcode_def)
  moreover have "h = schar (hd k)" if "length k = 1"
  proof -
    obtain c where c: "k = [c]" using \<open>length k = 1\<close> by (auto simp: length_Suc_conv)
    with assms(2) schar_high [of c] h(1) show ?thesis
      by (simp add: hashcode_def ht_mmul_def ht_madd_def in_int_iff BIG_PRIME_def)
  qed
  ultimately show ?thesis using negative_slot [OF h(1,3) assms(3)] by blast
qed

text \<open>The letter e with an acute accent in UTF-8, in the table of the tests.\<close>

theorem htable_insert_negative_slot_witness:
  "\<exists>ht. htable_init True 10000 1 = Inr ht \<and>
    htable_insert 64 True (Map.empty, ht) [CHR 0xC3, CHR 0xA9] 4096 = Some (Inl OutOfBounds)"
proof -
  obtain ht where ht: "htable_init True 10000 1 = Inr ht" "10000 < ht_size ht" "ht_size ht \<le> 10007"
    by (rule demo_table)
  have "\<not> ht_size ht dvd - 15703"
  proof
    assume "ht_size ht dvd - 15703"
    then have "ht_size ht dvd 15703" by simp
    then obtain q where "15703 = ht_size ht * q" by (rule dvdE)
    moreover have "q \<le> 1 \<or> 2 \<le> q" by linarith
    ultimately show False
      using mult_left_mono [of q 1 "ht_size ht"] mult_left_mono [of 2 q "ht_size ht"] ht(2,3) by linarith
  qed
  have "hashcode [CHR 0xC3, CHR 0xA9] = Inr (- 15703)"
    by (simp add: hashcode_def NUL_def ht_mmul_def ht_madd_def schar_def in_int_iff BIG_PRIME_def
        signed_modulo_int_def)
  with htable_insert_negative_slot [of "[CHR 0xC3, CHR 0xA9]" ht 64 True Map.empty 4096] ht
    \<open>\<not> ht_size ht dvd - 15703\<close>
  show ?thesis by auto
qed

end
