(* ===== verification/HTable_Collide.thy ===== *)
theory HTable_Collide
  imports HTable
begin

text \<open>
  What resizing (\<open>htable_insert\<close> and \<open>htable_resize\<close> of \<open>threadlab/htable.c\<close>) does for keys that share a hash
  code: it cannot separate them, and still the table is doubled for each of them.
\<close>

text \<open>
  C35: with resizing, once ten keys with one hash code are in the table, the insertion of every further
  key with that hash code at least doubles the table, although no size can separate these keys: the
  size is exponential in their number.
\<close>

theorem same_hash_doubles:
  assumes "ht_map (H, ht) m" and "ascii_key k" and "ht_room (H, ht)" and "fresh_node n (H, ht)"
    and "allow_resize ht \<noteq> 0" and "m k = None" and "hashcode k = Inr h"
    and "MAX_COLLISION \<le> int (card {k' \<in> dom m. ascii_key k' \<and> hashcode k' = Inr h})"
  shows "\<exists>H' ht'. htable_insert n True (H, ht) k v = Some (Inr (0, (H', ht'))) \<and>
    ht_map (H', ht') (m(k \<mapsto> v)) \<and> 2 * ht_size ht \<le> ht_size ht' \<and>
    MAX_COLLISION \<le> int (card {k' \<in> dom (m(k \<mapsto> v)). ascii_key k' \<and> hashcode k' = Inr h})"
proof -
  let ?S = "{k' \<in> dom m. ascii_key k' \<and> hashcode k' = Inr h}"
  have "2 * ht_size ht \<le> SIZE_LIMIT" using assms(3,5) by (simp add: ht_room_def)
  then obtain H' ht' where "htable_insert n True (H, ht) k v = Some (Inr (0, (H', ht')))"
    "ht_map (H', ht') (m(k \<mapsto> v))" "2 * ht_size ht \<le> ht_size ht'"
    using htable_insert_core [OF assms(1,2) nodes_fit_room [OF assms(3)] assms(4), of v]
      same_hash_not_short [OF assms(1,7,8)] assms(5,6) by auto
  moreover have "{k' \<in> dom (m(k \<mapsto> v)). ascii_key k' \<and> hashcode k' = Inr h} = insert k ?S" using assms(2,7) by auto
  moreover have "finite ?S"
    using assms(8) card.infinite [of ?S] by (cases "finite ?S") (auto simp: MAX_COLLISION_def)
  then have "card ?S \<le> card (insert k ?S)" by (simp add: card_insert_if)
  ultimately show ?thesis using assms(8) by auto
qed

section \<open>Ten keys with one hash code\<close>

text \<open>The blocks \<open>Anz\<close> and \<open>Y<A\<close> differ by \<open>BIG_PRIME\<close> in base 256.\<close>

definition dup_keys :: "string list" where
  "dup_keys =
     [''AnzAnzAnzAnz'', ''AnzAnzAnzY<A'', ''AnzAnzY<AAnz'', ''AnzAnzY<AY<A'', ''AnzY<AAnzAnz'', ''AnzY<AAnzY<A'',
      ''AnzY<AY<AAnz'', ''AnzY<AY<AY<A'', ''Y<AAnzAnzAnz'', ''Y<AAnzAnzY<A'', ''Y<AAnzY<AAnz'']"

text \<open>The first ten of them in a table of one slot, at the addresses 1 to 10.\<close>

definition dup_heap :: node_heap where
  "dup_heap a =
     (if 1 \<le> a \<and> a \<le> 10
      then Some \<lparr>n_hashcode = 1190182, n_key = dup_keys ! nat (a - 1), n_val = 4096, n_next = (if a = 10 then NULL else a + 1)\<rparr>
      else None)"

definition dup_table :: htable where
  "dup_table = \<lparr>allow_resize = 1, store = [1], ht_size = 1\<rparr>"

definition dup_map :: "string \<rightharpoonup> addr" where
  "dup_map k = (if k \<in> set (take 10 dup_keys) then Some 4096 else None)"

lemma dup_keys_hash: "list_all (\<lambda>k. hashcode k = Inr 1190182) dup_keys"
  by code_simp

lemma dup_keys_ascii: "list_all ascii_key dup_keys"
  by (simp add: dup_keys_def ascii_key_def NUL_def)

lemma length_dup_keys: "length dup_keys = 11" by (simp add: dup_keys_def)

lemma dup_nth: "i < 11 \<Longrightarrow> hashcode (dup_keys ! i) = Inr 1190182 \<and> ascii_key (dup_keys ! i)"
  using dup_keys_hash dup_keys_ascii by (simp add: list_all_length length_dup_keys)

lemma dom_dup_heap: "dom dup_heap = {1..10}"
  by (auto simp: dup_heap_def split: if_splits)

lemma dup_binds: "binds dup_heap {1..10} dup_map"
proof -
  have "set (take 10 dup_keys) = (\<lambda>a. dup_keys ! nat (a - 1)) ` {1..10}"
  proof -
    have "(\<lambda>a. dup_keys ! nat (a - 1)) ` {1..10} = (\<lambda>i. dup_keys ! i) ` {0..<10}"
    proof (intro equalityI subsetI)
      fix k assume "k \<in> (\<lambda>i. dup_keys ! i) ` {0..<10}"
      then obtain i where "i < 10" "k = dup_keys ! i" by auto
      then show "k \<in> (\<lambda>a. dup_keys ! nat (a - 1)) ` {1..10}" by (intro image_eqI [of _ _ "int i + 1"]) auto
    qed auto
    then show ?thesis by (simp add: length_dup_keys flip: nth_image)
  qed
  then show ?thesis by (auto simp: binds_def payload_def dup_heap_def dup_map_def split: if_splits)
qed

lemma dup_table_map: "ht_map (dup_heap, dup_table) dup_map"
proof (rule ht_mapI)
  have eq: "[1..10] = [1, 2, 3, 4, 5, 6, 7, 8, 9, 10 :: int]" by (simp add: upto.simps)
  have "chain dup_heap 1 [1..10]" unfolding eq by (simp add: dup_heap_def NULL_def)
  moreover have "node_ok dup_heap a \<and> slot_of 1 dup_heap a = 0" if "a \<in> set [1..10]" for a
  proof -
    have "nat (a - 1) < 11" using that by auto
    then show ?thesis using that dup_nth [of "nat (a - 1)"] by (auto simp: node_ok_def slot_of_def dup_heap_def)
  qed
  ultimately show "slots_ok dup_heap (ht_size dup_table) (store dup_table) [[1..10]]"
    by (simp add: slots_ok_def dup_table_def del: set_upto)
  have "all_nodes [[1..10]] = {1..10 :: int}" by (simp add: all_nodes_def lessThan_Suc)
  then show "dom dup_heap = all_nodes [[1..10]]" "binds dup_heap (all_nodes [[1..10]]) dup_map"
    using dom_dup_heap dup_binds by simp_all
qed (simp add: dup_table_def INT_MAX_def)

theorem same_hash_doubles_witness:
  "\<exists>H' ht'. htable_insert 64 True (dup_heap, dup_table) (dup_keys ! 10) 4096 = Some (Inr (0, (H', ht'))) \<and>
    2 * ht_size dup_table \<le> ht_size ht'"
proof -
  have "distinct (take 10 dup_keys)" "dup_keys ! 10 \<notin> set (take 10 dup_keys)" by (simp_all add: dup_keys_def)
  moreover have "{k \<in> dom dup_map. ascii_key k \<and> hashcode k = Inr 1190182} = set (take 10 dup_keys)"
    using dup_keys_hash dup_keys_ascii by (auto simp: dup_map_def list_all_iff split: if_splits dest: in_set_takeD)
  ultimately have "MAX_COLLISION \<le> int (card {k \<in> dom dup_map. ascii_key k \<and> hashcode k = Inr 1190182})"
    "dup_map (dup_keys ! 10) = None"
    by (simp_all add: distinct_card MAX_COLLISION_def length_dup_keys dup_map_def)
  moreover have "ht_room (dup_heap, dup_table)" "fresh_node 64 (dup_heap, dup_table)" "allow_resize dup_table \<noteq> 0"
    by (simp_all add: ht_room_def dom_dup_heap dup_table_def SIZE_LIMIT_def INT_MAX_def fresh_node_def dup_heap_def NULL_def)
  ultimately show ?thesis
    using same_hash_doubles [OF dup_table_map, of "dup_keys ! 10" 64 1190182 4096] dup_nth [of 10] by auto
qed

end
