(* ===== verification/HTable_Race.thy ===== *)
theory HTable_Race
  imports HTable_Collide
begin

text \<open>
  Two threads in \<open>htable_insert\<close> of \<open>threadlab/htable.c\<close>, which takes no lock. The function is split where
  another thread may come in between: first the chain is searched, then the new node is linked. Run in
  one go the two parts are \<open>htable_insert\<close>; interleaved, they lose a key.
\<close>

section \<open>The two parts of an insertion\<close>

text \<open>The hash code, the slot, and what the search of the chain ends with.\<close>

definition insert_scan :: "ht_state \<Rightarrow> string \<Rightarrow> (int \<times> int \<times> (addr \<times> int) option) run" where
  "insert_scan s key =
     (let (H, ht) = s in
      run_bind (Some (hashcode key)) (\<lambda>hcode.
      run_bind (Some (c_mod hcode (ht_size ht))) (\<lambda>slot.
      run_bind (Some (get_arr (store ht) slot)) (\<lambda>cur.
      run_bind (scan_chain H hcode key NULL cur 0) (\<lambda>r.
      Some (Inr (hcode, slot, r)))))))"

definition insert_link ::
  "addr \<Rightarrow> bool \<Rightarrow> ht_state \<Rightarrow> string \<Rightarrow> addr \<Rightarrow> int \<times> int \<times> (addr \<times> int) option \<Rightarrow> (int \<times> ht_state) run" where
  "insert_link mal_node mal_store s key val found =
     (let (H, ht) = s; (hcode, slot, r) = found in
      case r of
        None \<Rightarrow> Some (Inr (1, s))
      | Some (prev, collision) \<Rightarrow>
          if mal_node = NULL then Some (Inl NullDeref)
          else
            (let nd = \<lparr>n_hashcode = hcode, n_key = key, n_val = val, n_next = NULL\<rparr> in
             run_bind (Some (link_node (H(mal_node \<mapsto> nd), ht) slot prev mal_node)) (\<lambda>s1.
             if allow_resize ht \<noteq> 0 \<and> collision \<ge> MAX_COLLISION
             then run_bind (htable_resize mal_store s1) (\<lambda>s2. Some (Inr (0, s2)))
             else Some (Inr (0, s1)))))"

lemma run_bind_assoc: "run_bind (run_bind m f) g = run_bind m (\<lambda>x. run_bind (f x) g)"
  by (cases m; simp add: run_bind_def split: sum.splits)

lemma insert_in_one_go:
  "htable_insert a mal s key val = run_bind (insert_scan s key) (insert_link a mal s key val)"
  by (cases s) (simp add: htable_insert_def insert_scan_def insert_link_def run_bind_assoc cong: option.case_cong)

text \<open>Both threads have searched before the first one links its node.\<close>

definition race_insert ::
  "ht_state \<Rightarrow> addr \<Rightarrow> string \<Rightarrow> addr \<Rightarrow> addr \<Rightarrow> string \<Rightarrow> addr \<Rightarrow> (int \<times> int \<times> ht_state) run" where
  "race_insert s a1 k1 v1 a2 k2 v2 =
     run_bind (insert_scan s k1) (\<lambda>f1.
     run_bind (insert_scan s k2) (\<lambda>f2.
     run_bind (insert_link a1 True s k1 v1 f1) (\<lambda>(r1, s1).
     run_bind (insert_link a2 True s1 k2 v2 f2) (\<lambda>(r2, s2).
     Some (Inr (r1, r2, s2))))))"

section \<open>A lost key\<close>

text \<open>
  C26: without a lock an insertion can be lost. Two threads insert different keys into one empty slot; when
  both search before either links its node, both insertions report success, but the second node
  replaces the first: the first key is not found any more, and its node is left out of the table.
\<close>

theorem race_loses_key:
  assumes ok: "ht_map (H, ht) m" and k: "ascii_key k1" "ascii_key k2" "k1 \<noteq> k2"
    and h: "hashcode k1 = Inr h1" "hashcode k2 = Inr h2" "h1 mod ht_size ht = h2 mod ht_size ht"
    and empty: "store ht ! nat (h1 mod ht_size ht) = NULL"
    and a: "a1 \<noteq> NULL" "a2 \<noteq> NULL" "a1 \<noteq> a2"
  shows "\<exists>H' ht'. race_insert (H, ht) a1 k1 v1 a2 k2 v2 = Some (Inr (0, 0, (H', ht'))) \<and> H' a1 \<noteq> None \<and>
    htable_lookup (H', ht') k1 = Some (Inr NULL) \<and> htable_lookup (H', ht') k2 = Some (Inr v2)"
proof -
  let ?n = "ht_size ht" and ?sl = "h1 mod ht_size ht"
  have n: "0 < ?n" "length (store ht) = nat ?n" using ok by (auto simp: ht_map_def slots_ok_def)
  have nn: "0 \<le> h1" "0 \<le> h2" using hashcode_ascii [OF k(1)] hashcode_ascii [OF k(2)] h by auto
  have sl: "0 \<le> ?sl" "?sl < ?n" "nat ?sl < nat ?n" using n by auto
  let ?nd1 = "\<lparr>n_hashcode = h1, n_key = k1, n_val = v1, n_next = NULL\<rparr>"
  let ?nd2 = "\<lparr>n_hashcode = h2, n_key = k2, n_val = v2, n_next = NULL\<rparr>"
  let ?H = "H(a1 \<mapsto> ?nd1, a2 \<mapsto> ?nd2)" and ?ht = "ht\<lparr>store := (store ht)[nat ?sl := a2]\<rparr>"
  have scan: "insert_scan (H, ht) k1 = Some (Inr (h1, ?sl, Some (NULL, 0)))"
    "insert_scan (H, ht) k2 = Some (Inr (h2, ?sl, Some (NULL, 0)))"
    using h empty n sl nn by (simp_all add: insert_scan_def c_mod_ok scan_chain.simps)
  have "race_insert (H, ht) a1 k1 v1 a2 k2 v2 = Some (Inr (0, 0, (?H, ?ht)))"
    using a n sl by (simp add: race_insert_def scan insert_link_def link_node_def MAX_COLLISION_def)
  moreover have "htable_lookup (?H, ?ht) k = lookup_chain ?H h k a2"
    if "hashcode k = Inr h" "0 \<le> h" "h mod ?n = ?sl" for k h
    using that n sl by (simp add: htable_lookup_def c_mod_ok)
  moreover have "lookup_chain ?H h1 k1 a2 = Some (Inr NULL)" "lookup_chain ?H h2 k2 a2 = Some (Inr v2)"
    using a k streq_ascii [OF k(2,1)] streq_ascii [OF k(2,2)] by (simp_all add: lookup_chain.simps)
  ultimately show ?thesis using h nn a(3) by (intro exI [of _ ?H] exI [of _ ?ht]) simp
qed

theorem race_loses_key_witness:
  "\<exists>ht s'. htable_init True 10000 0 = Inr ht \<and>
    race_insert (Map.empty, ht) 64 (dup_keys ! 0) 4096 128 (dup_keys ! 1) 8192 = Some (Inr (0, 0, s')) \<and>
    htable_lookup s' (dup_keys ! 0) = Some (Inr NULL) \<and> htable_lookup s' (dup_keys ! 1) = Some (Inr 8192)"
proof -
  obtain ht where ht: "htable_init True 10000 0 = Inr ht" "ht_map (Map.empty, ht) Map.empty" "10000 < ht_size ht"
    using htable_init_ok [of 10000 0] by (auto simp: SIZE_LIMIT_def)
  have st: "store ht = replicate (nat (ht_size ht)) NULL" using ht(1) by (auto simp: htable_init_def)
  have "store ht ! nat (1190182 mod ht_size ht) = NULL" unfolding st using ht(3) by (intro nth_replicate) simp
  moreover have "dup_keys ! 0 \<noteq> dup_keys ! 1" by (simp add: dup_keys_def)
  ultimately have "\<exists>H' ht'. race_insert (Map.empty, ht) 64 (dup_keys ! 0) 4096 128 (dup_keys ! 1) 8192 = Some (Inr (0, 0, (H', ht'))) \<and>
      H' 64 \<noteq> None \<and> htable_lookup (H', ht') (dup_keys ! 0) = Some (Inr NULL) \<and>
      htable_lookup (H', ht') (dup_keys ! 1) = Some (Inr 8192)"
    using dup_nth [of 0] dup_nth [of 1]
    by (intro race_loses_key [OF ht(2), of _ _ 1190182 1190182]) (simp_all add: NULL_def)
  with ht(1) show ?thesis by blast
qed

end
