(* ===== verification/RWLock.thy ===== *)
theory RWLock
  imports C_Prelude
begin

text \<open>
  The reader-writer lock of the thread lab: the stubs of \<open>threadlab/rwlock.c\<close>, and the two tests of
  \<open>threadlab/testrwlock.c\<close>. The lock is to be written, so the tests take it as an argument
  (\<open>rwl_pkg\<close>) or run over a description of what it has to do. \<open>test_rwl_basic\<close> is one thread, a
  sequence of calls. \<open>test_rwl_priority\<close> is a main thread with ten others: a step relation in which
  each step is one locked section, one lock operation or one test of a waiting loop.
\<close>

section \<open>The functions of \<open>rwlock.c\<close>\<close>

definition ETIMEDOUT :: int where "ETIMEDOUT = 110"

record timespec =
  ts_sec :: int
  ts_nsec :: int

text \<open>\<open>timed\<close> and \<open>untimed\<close> are what the two wait functions of the thread library return.\<close>

definition cond_timedwait :: "(timespec \<Rightarrow> int) \<Rightarrow> int \<Rightarrow> timespec option \<Rightarrow> int res" where
  "cond_timedwait timed untimed expire =
     (let r = (case expire of Some e \<Rightarrow> timed e | None \<Rightarrow> untimed) in
      res_bind (c_assert (r = 0 \<or> r = ETIMEDOUT)) (\<lambda>_. Inr r))"

text \<open>
  The operations the tests call. An operation that waits for ever has no result; with a time to
  expire it returns \<open>ETIMEDOUT\<close> when the lock is not granted before.
\<close>

record 'l rwl_pkg =
  lk_init :: "'l"
  lk_nwaiters :: "'l \<Rightarrow> int"
  lk_rlock :: "'l \<Rightarrow> timespec option \<Rightarrow> (int \<times> 'l) run"
  lk_runlock :: "'l \<Rightarrow> 'l run"
  lk_wlock :: "'l \<Rightarrow> timespec option \<Rightarrow> (int \<times> 'l) run"
  lk_wunlock :: "'l \<Rightarrow> 'l run"

text \<open>The shipped stubs: the structure is empty and every call returns at once.\<close>

definition rwl_init :: unit where "rwl_init = ()"

definition rwl_nwaiters :: "unit \<Rightarrow> int" where "rwl_nwaiters l = 0"

definition rwl_rlock :: "unit \<Rightarrow> timespec option \<Rightarrow> (int \<times> unit) run" where
  "rwl_rlock l expire = Some (Inr (0, l))"

definition rwl_runlock :: "unit \<Rightarrow> unit run" where "rwl_runlock l = Some (Inr l)"

definition rwl_wlock :: "unit \<Rightarrow> timespec option \<Rightarrow> (int \<times> unit) run" where
  "rwl_wlock l expire = Some (Inr (0, l))"

definition rwl_wunlock :: "unit \<Rightarrow> unit run" where "rwl_wunlock l = Some (Inr l)"

definition stub_rwl :: "unit rwl_pkg" where
  "stub_rwl = \<lparr>lk_init = rwl_init, lk_nwaiters = rwl_nwaiters, lk_rlock = rwl_rlock,
     lk_runlock = rwl_runlock, lk_wlock = rwl_wlock, lk_wunlock = rwl_wunlock\<rparr>"

section \<open>The basic test\<close>

definition get_expiretime :: "timespec \<Rightarrow> timespec" where
  "get_expiretime now = now\<lparr>ts_nsec := ts_nsec now + 100\<rparr>"

text \<open>\<open>test_fatal\<close> prints its message and ends the process with status 1.\<close>

definition test_fatal :: "'a run" where "test_fatal = Some (Inl (Exit 1))"

text \<open>One lock call of the test, which fails unless the call returns \<open>want\<close>.\<close>

definition expect :: "int \<Rightarrow> (int \<times> 'l) run \<Rightarrow> 'l run" where
  "expect want call = run_bind call (\<lambda>(r, l). if r \<noteq> want then test_fatal else Some (Inr l))"

text \<open>\<open>now i\<close> is the time at the \<open>i\<close>th call of \<open>get_expiretime\<close>.\<close>

definition test_rwl_basic :: "'l rwl_pkg \<Rightarrow> (nat \<Rightarrow> timespec) \<Rightarrow> 'l run" where
  "test_rwl_basic pkg now =
     run_bind (expect 0 (lk_rlock pkg (lk_init pkg) None)) (\<lambda>l.
     run_bind (expect ETIMEDOUT (lk_wlock pkg l (Some (get_expiretime (now 0))))) (\<lambda>l.
     run_bind (expect 0 (lk_rlock pkg l (Some (get_expiretime (now 1))))) (\<lambda>l.
     run_bind (lk_runlock pkg l) (\<lambda>l.
     run_bind (lk_runlock pkg l) (\<lambda>l.
     run_bind (expect 0 (lk_wlock pkg l None)) (\<lambda>l.
     run_bind (expect ETIMEDOUT (lk_wlock pkg l (Some (get_expiretime (now 2))))) (\<lambda>l.
     run_bind (expect ETIMEDOUT (lk_rlock pkg l (Some (get_expiretime (now 3))))) (\<lambda>l.
     lk_wunlock pkg l))))))))"

text \<open>
  What the comments of \<open>rwlock.c\<close> ask of a lock used by one thread: \<open>st\<close> tells the number of readers and
  whether a writer holds it. A call that cannot be granted times out, or never returns when no time
  was given, and leaves the lock as it was.
\<close>

definition lock_call ::
  "('l \<Rightarrow> nat \<times> bool) \<Rightarrow> 'l \<Rightarrow> bool \<Rightarrow> nat \<times> bool \<Rightarrow> timespec option \<Rightarrow> (int \<times> 'l) run \<Rightarrow> bool" where
  "lock_call st l granted after expire r \<longleftrightarrow>
     (if granted then \<exists>l'. r = Some (Inr (0, l')) \<and> st l' = after
      else case expire of
             None \<Rightarrow> r = None
           | Some e \<Rightarrow> \<exists>l'. r = Some (Inr (ETIMEDOUT, l')) \<and> st l' = st l)"

definition rwl_ok :: "'l rwl_pkg \<Rightarrow> ('l \<Rightarrow> nat \<times> bool) \<Rightarrow> bool" where
  "rwl_ok pkg st \<longleftrightarrow>
     st (lk_init pkg) = (0, False) \<and>
     (\<forall>l n w e. st l = (n, w) \<longrightarrow>
        lock_call st l (\<not> w) (Suc n, False) e (lk_rlock pkg l e) \<and>
        lock_call st l (n = 0 \<and> \<not> w) (0, True) e (lk_wlock pkg l e) \<and>
        (n > 0 \<longrightarrow> (\<exists>l'. lk_runlock pkg l = Some (Inr l') \<and> st l' = (n - 1, w))) \<and>
        (w \<longrightarrow> (\<exists>l'. lk_wunlock pkg l = Some (Inr l') \<and> st l' = (n, False))))"

lemma rwl_okD:
  assumes "rwl_ok pkg st"
  shows "st (lk_init pkg) = (0, False)"
    and "st l = (n, w) \<Longrightarrow> lock_call st l (\<not> w) (Suc n, False) e (lk_rlock pkg l e)"
    and "st l = (n, w) \<Longrightarrow> lock_call st l (n = 0 \<and> \<not> w) (0, True) e (lk_wlock pkg l e)"
    and "st l = (Suc n, w) \<Longrightarrow> \<exists>l'. lk_runlock pkg l = Some (Inr l') \<and> st l' = (n, w)"
    and "st l = (n, True) \<Longrightarrow> \<exists>l'. lk_wunlock pkg l = Some (Inr l') \<and> st l' = (n, False)"
  using assms by (force simp: rwl_ok_def)+

lemma expect_granted:
  assumes "lock_call st l granted after e r" and "granted"
  obtains l' where "expect 0 r = Some (Inr l')" "st l' = after"
  using assms by (auto simp: lock_call_def expect_def)

lemma expect_timeout:
  assumes "lock_call st l granted after (Some e) r" and "\<not> granted"
  obtains l' where "expect ETIMEDOUT r = Some (Inr l')" "st l' = st l"
  using assms by (auto simp: lock_call_def expect_def)

lemma test_rwl_basic_ok:
  assumes ok: "rwl_ok pkg st"
  shows "\<exists>l. test_rwl_basic pkg now = Some (Inr l) \<and> st l = (0, False)"
proof -
  note D = rwl_okD [OF ok]
  let ?e = "\<lambda>i. get_expiretime (now i)"
  obtain l1 where l1: "expect 0 (lk_rlock pkg (lk_init pkg) None) = Some (Inr l1)" "st l1 = (1, False)"
    using expect_granted [OF D(2) [OF D(1)]] by auto
  obtain l2 where l2: "expect ETIMEDOUT (lk_wlock pkg l1 (Some (?e 0))) = Some (Inr l2)" "st l2 = (1, False)"
    using expect_timeout [OF D(3) [OF l1(2)]] l1(2) by auto
  obtain l3 where l3: "expect 0 (lk_rlock pkg l2 (Some (?e 1))) = Some (Inr l3)" "st l3 = (2, False)"
    using expect_granted [OF D(2) [OF l2(2)]] by (auto simp: numeral_2_eq_2)
  obtain l4 where l4: "lk_runlock pkg l3 = Some (Inr l4)" "st l4 = (1, False)"
    using D(4) [of l3 1 False] l3(2) by auto
  obtain l5 where l5: "lk_runlock pkg l4 = Some (Inr l5)" "st l5 = (0, False)"
    using D(4) [of l4 0 False] l4(2) by auto
  obtain l6 where l6: "expect 0 (lk_wlock pkg l5 None) = Some (Inr l6)" "st l6 = (0, True)"
    using expect_granted [OF D(3) [OF l5(2)]] by auto
  obtain l7 where l7: "expect ETIMEDOUT (lk_wlock pkg l6 (Some (?e 2))) = Some (Inr l7)" "st l7 = (0, True)"
    using expect_timeout [OF D(3) [OF l6(2)]] l6(2) by auto
  obtain l8 where l8: "expect ETIMEDOUT (lk_rlock pkg l7 (Some (?e 3))) = Some (Inr l8)" "st l8 = (0, True)"
    using expect_timeout [OF D(2) [OF l7(2)]] l7(2) by auto
  obtain l9 where "lk_wunlock pkg l8 = Some (Inr l9)" "st l9 = (0, False)"
    using D(5) [OF l8(2)] by auto
  then show ?thesis
    using l1(1) l2(1) l3(1) l4(1) l5(1) l6(1) l7(1) l8(1) by (simp add: test_rwl_basic_def)
qed

text \<open>
  \<open>test_rwl_basic\<close> passes with every lock that does what the comments of \<open>rwlock.c\<close> ask, and leaves
  it free.
\<close>

theorem test_rwl_basic_passes:
  assumes ok: "rwl_ok pkg st"
  shows "\<exists>l. test_rwl_basic pkg now = Some (Inr l) \<and> st l = (0, False)"
  using ok by (rule test_rwl_basic_ok)

definition demo_rwl :: "(nat \<times> bool) rwl_pkg" where
  "demo_rwl = \<lparr>lk_init = (0, False), lk_nwaiters = (\<lambda>l. 0),
     lk_rlock = (\<lambda>(n, w) e. if \<not> w then Some (Inr (0, (Suc n, False)))
                             else if e = None then None else Some (Inr (ETIMEDOUT, (n, w)))),
     lk_runlock = (\<lambda>(n, w). Some (Inr (n - 1, w))),
     lk_wlock = (\<lambda>(n, w) e. if n = 0 \<and> \<not> w then Some (Inr (0, (0, True)))
                             else if e = None then None else Some (Inr (ETIMEDOUT, (n, w)))),
     lk_wunlock = (\<lambda>(n, w). Some (Inr (n, False)))\<rparr>"

lemma demo_rwl_ok: "rwl_ok demo_rwl (\<lambda>l. l)"
  by (auto simp: rwl_ok_def demo_rwl_def lock_call_def split: option.splits)

theorem test_rwl_basic_passes_witness:
  "\<exists>l. test_rwl_basic demo_rwl (\<lambda>_. \<lparr>ts_sec = 0, ts_nsec = 0\<rparr>) = Some (Inr l) \<and> l = (0, False)"
  using test_rwl_basic_passes [OF demo_rwl_ok, of "\<lambda>_. \<lparr>ts_sec = 0, ts_nsec = 0\<rparr>"] by simp

text \<open>
  The shipped stubs fail \<open>test_rwl_basic\<close>: the program ends with status 1, at the writer that gets
  a lock a reader holds.
\<close>

theorem stub_rwl_rejected: "test_rwl_basic stub_rwl now = Some (Inl (Exit 1))"
  by (simp add: test_rwl_basic_def stub_rwl_def expect_def rwl_rlock_def rwl_wlock_def test_fatal_def
      ETIMEDOUT_def)

definition valid_timespec :: "timespec \<Rightarrow> bool" where
  "valid_timespec t \<longleftrightarrow> 0 \<le> ts_nsec t \<and> ts_nsec t < 1000000000"

definition EINVAL :: int where "EINVAL = 22"

text \<open>
  In the last 100 nanoseconds of every second \<open>get_expiretime\<close> makes a time that is not valid, which
  \<open>pthread_cond_timedwait\<close> refuses with \<open>EINVAL\<close>, and the assertion of \<open>cond_timedwait\<close> fails.
\<close>

theorem expire_not_valid:
  assumes "valid_timespec now" and "999999900 \<le> ts_nsec now"
    and "\<And>t. \<not> valid_timespec t \<Longrightarrow> timed t = EINVAL"
  shows "cond_timedwait timed untimed (Some (get_expiretime now)) = Inl AssertFail"
proof -
  have "\<not> valid_timespec (get_expiretime now)"
    using assms(1,2) by (simp add: valid_timespec_def get_expiretime_def)
  then show ?thesis using assms(3) by (simp add: cond_timedwait_def EINVAL_def ETIMEDOUT_def)
qed

theorem expire_not_valid_witness:
  "cond_timedwait (\<lambda>t. if valid_timespec t then ETIMEDOUT else EINVAL) 0
     (Some (get_expiretime \<lparr>ts_sec = 7, ts_nsec = 999999950\<rparr>)) = Inl AssertFail"
  by (rule expire_not_valid) (auto simp: valid_timespec_def)

end
