(* ===== verification/TestHash.thy ===== *)
theory TestHash
  imports Complex_Main HTable RWLock "HOL-Library.Multiset"
begin

text \<open>
  \<open>threadlab/testhash.c\<close>: the test of the hash table. Each thread has a share of the test keys;
  it inserts them and in between inserts or looks up other keys. The model takes every call of
  the table as one step and the order in which the threads' calls take effect as a schedule, which
  pairs each call with the address \<open>malloc\<close> returns to it: the theorems hold for every schedule of
  the threads' calls. They are about a table whose operations are atomic, which is what the locking
  the lab asks for has to achieve; \<open>htable.c\<close> as shipped takes no lock.
\<close>

section \<open>Test data\<close>

definition TESTSZ :: int where "TESTSZ = 1000000"

definition STRLEN :: int where "STRLEN = 50"

datatype run_mode_t = INSERT | MIX

text \<open>\<open>rnd i\<close> is what the \<open>i\<close>th call of \<open>rand\<close> returns.\<close>

definition set_random_str :: "(nat \<Rightarrow> int) \<Rightarrow> int \<Rightarrow> string" where
  "set_random_str rnd len = map (\<lambda>i. char_of (rnd i smod 26 + 65)) [0..<nat (len - 1)]"

text \<open>Test key \<open>i\<close> takes the \<open>STRLEN - 1\<close> numbers from \<open>i * (STRLEN - 1)\<close> on.\<close>

definition testkeys :: "(nat \<Rightarrow> int) \<Rightarrow> int \<Rightarrow> string" where
  "testkeys rnd i = set_random_str (\<lambda>j. rnd (nat i * nat (STRLEN - 1) + j)) STRLEN"

section \<open>The threads\<close>

datatype table_op = Ins int | Look int

definition share :: "int \<Rightarrow> int" where
  "share num_threads = TESTSZ sdiv num_threads"

definition share_end :: "int \<Rightarrow> int \<Rightarrow> int" where
  "share_end num_threads thread_idx =
     (if thread_idx = num_threads - 1 then TESTSZ else (thread_idx + 1) * share num_threads)"

definition other_key :: "int \<Rightarrow> int \<Rightarrow> int" where
  "other_key thread_idx i = (((thread_idx * i) smod 256) * BIG_PRIME) smod TESTSZ"

definition test_htable_run :: "run_mode_t \<Rightarrow> int \<Rightarrow> int \<Rightarrow> table_op list" where
  "test_htable_run mode num_threads thread_idx =
     concat (map (\<lambda>i. [Ins i, (case mode of INSERT \<Rightarrow> Ins (other_key thread_idx i)
                                          | MIX \<Rightarrow> Look (other_key thread_idx i))])
       [thread_idx * share num_threads .. share_end num_threads thread_idx - 1])"

definition all_calls :: "run_mode_t \<Rightarrow> int \<Rightarrow> table_op list" where
  "all_calls mode num_threads = concat (map (test_htable_run mode num_threads) [0..num_threads - 1])"

fun run_calls ::
  "('s \<Rightarrow> string \<Rightarrow> addr run) \<Rightarrow> (addr \<Rightarrow> 's \<Rightarrow> string \<Rightarrow> addr \<Rightarrow> (int \<times> 's) run) \<Rightarrow>
   (int \<Rightarrow> string) \<Rightarrow> (int \<Rightarrow> addr) \<Rightarrow> 's \<Rightarrow> (addr \<times> table_op) list \<Rightarrow> 's run" where
  "run_calls look ins key val s [] = Some (Inr s)"
| "run_calls look ins key val s ((a, Ins i) # cs) =
     run_bind (ins a s (key i) (val i)) (\<lambda>(r, s'). run_calls look ins key val s' cs)"
| "run_calls look ins key val s ((a, Look i) # cs) =
     run_bind (look s (key i)) (\<lambda>v.
     if v \<noteq> NULL \<and> v \<noteq> val i then test_fatal else run_calls look ins key val s cs)"

fun validate ::
  "('s \<Rightarrow> string \<Rightarrow> addr run) \<Rightarrow> (int \<Rightarrow> string) \<Rightarrow> (int \<Rightarrow> addr) \<Rightarrow> 's \<Rightarrow> int list \<Rightarrow> unit run" where
  "validate look key val s [] = Some (Inr ())"
| "validate look key val s (i # is) =
     run_bind (look s (key i)) (\<lambda>p.
     if p \<noteq> NULL \<and> p = val i then validate look key val s is
     else if p = NULL then test_fatal else test_fatal)"

section \<open>The test\<close>

text \<open>\<open>timediff\<close> returns microseconds; the throughput \<open>test_htable\<close> prints divides by them.\<close>

definition timediff :: "timespec \<Rightarrow> timespec \<Rightarrow> int" where
  "timediff start finish =
     (ts_sec finish - ts_sec start) * 1000000 + (ts_nsec finish - ts_nsec start) sdiv 1000"

text \<open>A \<open>double\<close> divided by zero is infinite, which is \<open>None\<close>; an \<open>int\<close> divided by zero stops the process.\<close>

definition throughput :: "int \<Rightarrow> real option" where
  "throughput duration = (if duration = 0 then None else Some (of_int (2 * TESTSZ) / of_int duration))"

definition tuples_each :: "int \<Rightarrow> int res" where
  "tuples_each num_threads =
     (if num_threads = 0 then Inl DivByZero else Inr (2 * TESTSZ sdiv num_threads))"

text \<open>The numbers the test prints: sizes before and after, each thread's tuples and the throughputs.\<close>

record ht_report =
  rp_init_size :: int
  rp_each :: int
  rp_inserts :: "real option"
  rp_lookups :: "real option"
  rp_final_size :: int

text \<open>
  The test with \<open>num_threads\<close> threads; \<open>now\<close> gives the four readings of the clock. The number of tuples
  for each thread is computed once the threads are started; there are none when it is undefined.
\<close>

definition test_htable ::
  "(int \<Rightarrow> string) \<Rightarrow> (int \<Rightarrow> addr) \<Rightarrow> (nat \<Rightarrow> timespec) \<Rightarrow> int \<Rightarrow> (addr \<times> table_op) list \<Rightarrow>
     (addr \<times> table_op) list \<Rightarrow> int \<Rightarrow> (ht_report \<times> node_heap) run" where
  "test_htable key val now num_threads sched1 sched2 resize =
     (let run = run_calls htable_lookup (\<lambda>a. htable_insert a True) key val in
      run_bind (Some (htable_init True (TESTSZ sdiv 100) resize)) (\<lambda>ht.
      run_bind (Some (tuples_each num_threads)) (\<lambda>each.
      run_bind (run (Map.empty, ht) sched1) (\<lambda>s1.
      run_bind (validate htable_lookup key val s1 [0..TESTSZ - 1]) (\<lambda>_.
      run_bind (htable_destroy s1) (\<lambda>H1.
      run_bind (Some (htable_init True (TESTSZ sdiv 100) resize)) (\<lambda>ht2.
      run_bind (run (H1, ht2) sched2) (\<lambda>s2.
      (let sz = htable_size (snd s2) in
       run_bind (htable_destroy s2) (\<lambda>H2.
       Some (Inr (\<lparr>rp_init_size = htable_size ht, rp_each = each,
                   rp_inserts = throughput (timediff (now 0) (now 1)),
                   rp_lookups = throughput (timediff (now 2) (now 3)), rp_final_size = sz\<rparr>, H2))))))))))))"

text \<open>The microseconds are those of the exact difference, short of less than one.\<close>

lemma timediff_close:
  "\<bar>1000 * timediff s e - ((ts_sec e - ts_sec s) * 1000000000 + (ts_nsec e - ts_nsec s))\<bar> < 1000"
proof -
  have "\<bar>1000 * (x sdiv 1000) - x\<bar> < 1000" for x :: int
    by (cases "0 \<le> x") (simp_all add: signed_divide_int_def sgn_if, presburger+)
  from this [of "ts_nsec e - ts_nsec s"] show ?thesis by (simp add: timediff_def algebra_simps)
qed

section \<open>The shares cover the keys\<close>

fun op_idx :: "table_op \<Rightarrow> int" where
  "op_idx (Ins i) = i"
| "op_idx (Look i) = i"

lemma share_bounds:
  assumes "0 < n" and "0 \<le> t" and "t < n"
  shows "0 \<le> t * share n" and "share_end n t \<le> TESTSZ"
proof -
  have sh: "share n = TESTSZ div n" using assms(1) by (simp add: share_def signed_divide_int_def TESTSZ_def sgn_if)
  show "0 \<le> t * share n" using assms by (simp add: sh TESTSZ_def pos_imp_zdiv_nonneg_iff)
  have "(t + 1) * share n \<le> n * share n"
    using assms by (intro mult_right_mono) (auto simp: sh TESTSZ_def pos_imp_zdiv_nonneg_iff)
  also have "n * share n = TESTSZ - TESTSZ mod n" by (simp add: sh minus_mod_eq_mult_div)
  also have "\<dots> \<le> TESTSZ" using assms(1) by simp
  finally show "share_end n t \<le> TESTSZ" by (simp add: share_end_def)
qed

lemma other_key_range:
  assumes "0 \<le> t" and "0 \<le> i"
  shows "0 \<le> other_key t i \<and> other_key t i < TESTSZ"
proof -
  have "0 \<le> (t * i) smod 256" using assms by (simp add: smod_nonneg)
  then show ?thesis
    unfolding other_key_def by (intro smod_nonneg_bound) (auto simp: BIG_PRIME_def TESTSZ_def)
qed

lemma test_htable_run_idx:
  assumes "0 < n" and "0 \<le> t" and "t < n" and "c \<in> set (test_htable_run mode n t)"
  shows "0 \<le> op_idx c \<and> op_idx c < TESTSZ"
proof -
  obtain i where i: "t * share n \<le> i" "i \<le> share_end n t - 1"
    and c: "c = Ins i \<or> c = Ins (other_key t i) \<or> c = Look (other_key t i)"
    using assms(4) by (cases mode) (auto simp: test_htable_run_def)
  have r: "0 \<le> i" "i < TESTSZ" using i share_bounds [OF assms(1-3)] by auto
  with c other_key_range [OF assms(2) r(1)] show ?thesis by auto
qed

text \<open>Every key is inserted by the thread whose share it is in.\<close>

lemma all_keys_inserted:
  assumes "0 < n" and i: "0 \<le> i" "i < TESTSZ"
  shows "Ins i \<in> set (all_calls mode n)"
proof -
  have sh: "share n = TESTSZ div n" using assms(1) by (simp add: share_def signed_divide_int_def TESTSZ_def sgn_if)
  have "\<exists>t. 0 \<le> t \<and> t < n \<and> t * share n \<le> i \<and> i < share_end n t"
  proof (cases "(n - 1) * share n \<le> i")
    case True
    with assms show ?thesis by (intro exI [of _ "n - 1"]) (simp add: share_end_def)
  next
    case False
    then have pos: "0 < share n"
      using assms mult_nonneg_nonpos [of "n - 1" "share n"] by (cases "0 < share n") linarith+
    let ?t = "i div share n"
    have t: "0 \<le> ?t" "?t * share n \<le> i" "i < (?t + 1) * share n"
      using pos i pos_mod_bound [OF pos, of i] pos_mod_sign [OF pos, of i]
        minus_mod_eq_div_mult [of i "share n"]
      by (simp_all add: pos_imp_zdiv_nonneg_iff distrib_right)
    have "?t < n - 1"
    proof (rule ccontr)
      assume "\<not> ?t < n - 1"
      then have "(n - 1) * share n \<le> ?t * share n" using pos by (intro mult_right_mono) auto
      with t(2) False show False by simp
    qed
    with t show ?thesis by (intro exI [of _ ?t]) (simp add: share_end_def)
  qed
  then obtain t where "0 \<le> t" "t < n" "t * share n \<le> i" "i < share_end n t" by blast
  then have "Ins i \<in> set (test_htable_run mode n t)" "t \<in> set [0..n - 1]"
    by (auto simp: test_htable_run_def)
  then show ?thesis unfolding all_calls_def by fastforce
qed

lemma all_calls_idx:
  assumes "0 < n" and "c \<in> set (all_calls mode n)"
  shows "0 \<le> op_idx c \<and> op_idx c < TESTSZ"
  using assms test_htable_run_idx [OF assms(1)] by (auto simp: all_calls_def)

section \<open>Running a schedule on a table\<close>

text \<open>The keys bound in \<open>m\<close>, among those of the indices \<open>I\<close>, are those of \<open>J\<close>, to their values.\<close>

definition bound :: "(int \<Rightarrow> string) \<Rightarrow> (int \<Rightarrow> addr) \<Rightarrow> int set \<Rightarrow> int set \<Rightarrow> (string \<rightharpoonup> addr) \<Rightarrow> bool" where
  "bound key val I J m \<longleftrightarrow> J \<subseteq> I \<and> (\<forall>i\<in>I. m (key i) = (if i \<in> J then Some (val i) else None))"

lemma bound_insert:
  assumes "bound key val I J m" and "inj_on key I" and "i \<in> I"
  shows "bound key val I (insert i J) ([key i \<mapsto> val i] ++ m)"
  using assms by (auto simp: bound_def map_add_def inj_on_def split: option.splits)

definition inserted :: "(addr \<times> table_op) list \<Rightarrow> int set" where
  "inserted cs = {i. Ins i \<in> snd ` set cs}"

context dictionary
begin

text \<open>
  A run of calls on distinct keys never fails, and binds exactly the keys inserted, each to its
  own value.
\<close>

lemma run_calls_ok:
  assumes "rep s m" and "bound key val I J m" and "room (length cs) s"
    and "\<forall>a\<in>fst ` set cs. fresh a s" and "distinct (map fst cs)" and "\<forall>c\<in>snd ` set cs. op_idx c \<in> I"
    and keys: "inj_on key I" "\<And>i. i \<in> I \<Longrightarrow> okkey (key i)"
  shows "\<exists>s' m'. run_calls lookup insert_key key val s cs = Some (Inr s') \<and> rep s' m' \<and>
    bound key val I (J \<union> inserted cs) m'"
  using assms(1-6)
proof (induction cs arbitrary: s m J)
  case Nil
  then show ?case by (auto simp: inserted_def)
next
  case (Cons c cs)
  obtain a op where c: "c = (a, op)" by (cases c)
  show ?case
  proof (cases op)
    case (Ins i)
    have I: "i \<in> I" and r: "room (Suc (length cs)) s" and fr: "fresh a s"
      using Cons.prems(3,4,6) by (auto simp: c Ins)
    obtain r s1 where 1: "insert_key a s (key i) (val i) = Some (Inr (r, s1))"
      "rep s1 ([key i \<mapsto> val i] ++ m)" "room (length cs) s1" "\<forall>b. fresh b s \<longrightarrow> b \<noteq> a \<longrightarrow> fresh b s1"
      using insert_any [OF Cons.prems(1) keys(2) [OF I] r fr, of "val i"] by blast
    have "\<forall>b\<in>fst ` set cs. fresh b s1" using 1(4) Cons.prems(4,5) by (auto simp: c)
    then obtain s' m' where "run_calls lookup insert_key key val s1 cs = Some (Inr s')" "rep s' m'"
      "bound key val I (insert i J \<union> inserted cs) m'"
      using Cons.IH [OF 1(2) bound_insert [OF Cons.prems(2) keys(1) I] 1(3)] Cons.prems(5,6) by (auto simp: c)
    moreover have "insert i J \<union> inserted cs = J \<union> inserted (c # cs)" by (auto simp: inserted_def c Ins)
    ultimately show ?thesis using 1(1) by (auto simp: c Ins)
  next
    case (Look i)
    have I: "i \<in> I" using Cons.prems(6) by (simp add: c Look)
    have "lookup s (key i) = Some (Inr (if i \<in> J then val i else NULL))"
      using lookup_ok [OF Cons.prems(1) keys(2) [OF I]] Cons.prems(2) I by (simp add: bound_def)
    moreover have "inserted (c # cs) = inserted cs" by (auto simp: inserted_def c Look)
    moreover have "room (length cs) s" using Cons.prems(3) by (auto intro: room_less)
    ultimately show ?thesis
      using Cons.IH [OF Cons.prems(1,2)] Cons.prems(4-6) by (auto simp: c Look)
  qed
qed

lemma validate_ok:
  assumes "rep s m" and "bound key val I J m" and "set is \<subseteq> J"
    and "\<And>i. i \<in> I \<Longrightarrow> okkey (key i)" and "\<And>i. i \<in> I \<Longrightarrow> val i \<noteq> NULL"
  shows "validate lookup key val s is = Some (Inr ())"
  using assms(3)
proof (induction "is")
  case (Cons i "is")
  then have i: "i \<in> I" "m (key i) = Some (val i)" using assms(2) by (auto simp: bound_def)
  with lookup_ok [OF assms(1) assms(4)] assms(5) Cons show ?case by simp
qed simp

end

section \<open>The test passes\<close>

text \<open>A schedule of the threads' calls: a permutation of them, with fresh addresses.\<close>

definition schedule_of :: "run_mode_t \<Rightarrow> int \<Rightarrow> (addr \<times> table_op) list \<Rightarrow> bool" where
  "schedule_of mode n cs \<longleftrightarrow>
     mset (map snd cs) = mset (all_calls mode n) \<and> distinct (map fst cs) \<and> NULL \<notin> fst ` set cs"

lemma ascii_testkeys:
  assumes "\<And>i. 0 \<le> rnd i"
  shows "ascii_key (testkeys rnd i)"
proof -
  have "char_of (r smod 26 + 65) \<noteq> NUL \<and> of_char (char_of (r smod 26 + 65) :: char) < (128 :: int)"
    if "0 \<le> r" for r :: int
  proof -
    have "0 \<le> r smod 26" "r smod 26 < 26" using that smod_nonneg_bound [of r 26] by auto
    then have c: "of_char (char_of (r smod 26 + 65) :: char) = r smod 26 + 65"
      "0 < r smod 26 + 65" "r smod 26 + 65 < 128"
      by auto
    have z: "(of_char NUL :: int) = 0" by (simp add: NUL_def)
    have "char_of (r smod 26 + 65) \<noteq> NUL"
    proof
      assume "char_of (r smod 26 + 65) = NUL"
      from arg_cong [OF this, of "of_char :: char \<Rightarrow> int"] c z show False by simp
    qed
    with c show ?thesis by simp
  qed
  then show ?thesis using assms by (auto simp: ascii_key_def testkeys_def set_random_str_def)
qed

lemma length_calls_aux:
  "length (concat (map (\<lambda>i. [f i, g i]) xs)) = 2 * length xs"
  by (induction xs) auto

lemma length_run: "length (test_htable_run mode n t) = 2 * nat (share_end n t - t * share n)"
  by (simp add: test_htable_run_def length_calls_aux)

lemma length_all_calls:
  assumes "0 < n"
  shows "int (length (all_calls mode n)) = 2 * TESTSZ"
proof -
  have sh: "0 \<le> share n" using share_bounds [of n 1] share_bounds [of n 0] assms
    by (simp add: share_def signed_divide_int_def TESTSZ_def sgn_if pos_imp_zdiv_nonneg_iff)
  have part: "int (length (concat (map (test_htable_run mode n) [0..k - 1]))) = 2 * (k * share n)"
    if "0 \<le> k" "k \<le> n - 1" for k
    using that
  proof (induction k rule: int_ge_induct)
    case (step k)
    have "[0..k + 1 - 1] = [0..k - 1] @ [k]" using step(1) by (simp add: upto_rec2)
    moreover have "int (length (test_htable_run mode n k)) = 2 * share n"
      using step(3) sh by (simp add: length_run share_end_def algebra_simps)
    ultimately show ?case using step by (simp add: algebra_simps)
  qed simp
  have "[0..n - 1] = [0..(n - 1) - 1] @ [n - 1]" using assms by (simp add: upto_rec2)
  moreover have "(n - 1) * share n \<le> TESTSZ"
  proof -
    have "(n - 1) * share n \<le> n * share n" using sh by (simp add: mult_right_mono)
    also have "n * share n = TESTSZ - TESTSZ mod n"
      using assms by (simp add: share_def signed_divide_int_def TESTSZ_def sgn_if minus_mod_eq_mult_div)
    also have "\<dots> \<le> TESTSZ" using assms by simp
    finally show ?thesis .
  qed
  moreover have "share_end n (n - 1) = TESTSZ" by (simp add: share_end_def)
  ultimately show ?thesis
    using part [of "n - 1"] assms by (simp add: all_calls_def length_run)
qed

context dictionary
begin

text \<open>One phase: the calls of a schedule on a new table, and the table after them.\<close>

lemma run_schedule_ok:
  assumes n: "0 < n" and sched: "schedule_of mode n cs"
    and keys: "inj_on key {0..<TESTSZ}" "\<And>i. i \<in> {0..<TESTSZ} \<Longrightarrow> okkey (key i)"
    and s: "rep s Map.empty" "room (nat (2 * TESTSZ)) s" "\<And>a. a \<noteq> NULL \<Longrightarrow> fresh a s"
  shows "\<exists>s' m. run_calls lookup insert_key key val s cs = Some (Inr s') \<and> rep s' m \<and>
    bound key val {0..<TESTSZ} {0..<TESTSZ} m"
proof -
  let ?I = "{0..<TESTSZ}"
  have ms: "mset (map snd cs) = mset (all_calls mode n)" using sched by (simp add: schedule_of_def)
  have calls: "snd ` set cs = set (all_calls mode n)" "length cs = length (all_calls mode n)"
    using mset_eq_setD [OF ms] mset_eq_length [OF ms] by simp_all
  have "room (length cs) s" using s(2) length_all_calls [OF n, of mode] calls(2) by (metis nat_int)
  moreover have "bound key val ?I {} Map.empty" by (simp add: bound_def)
  moreover have "\<forall>c\<in>snd ` set cs. op_idx c \<in> ?I" using all_calls_idx [OF n] calls(1) by auto
  moreover have "\<forall>a\<in>fst ` set cs. a \<noteq> NULL" "distinct (map fst cs)"
    using sched unfolding schedule_of_def by metis+
  then have "\<forall>a\<in>fst ` set cs. fresh a s" "distinct (map fst cs)" using s(3) by blast+
  moreover have "{} \<union> inserted cs = ?I"
    using all_keys_inserted [OF n] all_calls_idx [OF n] calls(1)
    by (auto simp: inserted_def) force+
  ultimately show ?thesis
    using run_calls_ok [OF s(1), of key val ?I "{}" cs] keys by fastforce
qed

end

lemma phase_ok:
  assumes n: "0 < n" and sched: "schedule_of mode n cs"
    and keys: "inj_on key {0..<TESTSZ}" "\<And>i. i \<in> {0..<TESTSZ} \<Longrightarrow> ascii_key (key i)"
    and spread: "resize \<noteq> 0 \<Longrightarrow> hash_spread (key ` {0..<TESTSZ})"
  shows "\<exists>ht s' m. htable_init True (TESTSZ sdiv 100) resize = Inr ht \<and>
    run_calls htable_lookup (\<lambda>a. htable_insert a True) key val (Map.empty, ht) cs = Some (Inr s') \<and>
    ht_map s' m \<and> bound key val {0..<TESTSZ} {0..<TESTSZ} m"
proof -
  have "TESTSZ sdiv 100 = 10000" by (simp add: TESTSZ_def signed_divide_int_def)
  then obtain ht where ht: "htable_init True (TESTSZ sdiv 100) resize = Inr ht" "ht_map (Map.empty, ht) Map.empty"
    "allow_resize ht = resize" "ht_size ht \<le> SIZE_LIMIT"
    using htable_init_ok [of 10000 resize] by (auto simp: SIZE_LIMIT_def)
  have fresh: "fresh_node a (Map.empty, ht)" if "a \<noteq> NULL" for a using that by (simp add: fresh_node_def)
  show ?thesis
  proof (cases "resize = 0")
    case True
    then have "ht_capacity (nat (2 * TESTSZ)) (Map.empty, ht)"
      using ht(3) by (simp add: ht_capacity_def TESTSZ_def INT_MAX_def)
    with ht.run_schedule_ok [OF n sched keys ht(2) _ fresh] ht(1) show ?thesis by blast
  next
    case False
    let ?K = "key ` {0..<TESTSZ}"
    have K: "hash_spread ?K" using spread False .
    have "ht_growing ?K (nat (2 * TESTSZ)) (Map.empty, ht)"
      using ht(4) by (simp add: ht_growing_def TESTSZ_def INT_MAX_def)
    with dictionary.run_schedule_ok [OF growing_dictionary [OF K] n sched keys(1) _ ht(2) _ fresh] ht(1)
    show ?thesis by blast
  qed
qed

text \<open>
  Numbers \<open>rand\<close> could return for which the keys have distinct hash codes. Key \<open>i\<close> has \<open>demo_digit i k\<close> for
  the letter of weight \<open>256 ^ k\<close>: the digits of \<open>i\<close> in base 234, each split into its remainder and quotient
  by 26, the quotients written to letters whose weights sum up to 26 modulo \<open>BIG_PRIME\<close>.
\<close>

definition demo_digit :: "int \<Rightarrow> nat \<Rightarrow> int" where
  "demo_digit i k =
     (let q0 = i mod 234; q1 = i div 234 mod 234 in
      if k = 0 then q0 mod 26 else if k = 1 then q1 mod 26 else if k = 2 then i div 54756
      else if k = 14 \<or> k = 29 then q0 div 26 else if k = 19 \<or> k = 32 then 8 - q0 div 26
      else if k = 15 \<or> k = 30 then q1 div 26 else if k = 20 \<or> k = 33 then 8 - q1 div 26 else 0)"

definition demo_rnd :: "nat \<Rightarrow> int" where
  "demo_rnd x = demo_digit (int (x div 49)) (48 - x mod 49)"

definition demo_schedule :: "run_mode_t \<Rightarrow> (addr \<times> table_op) list" where
  "demo_schedule mode =
     zip [1..int (length (all_calls mode 4))] (all_calls mode 4)"

lemma demo_schedule_ok: "schedule_of mode 4 (demo_schedule mode)"
  by (auto simp: schedule_of_def demo_schedule_def NULL_def dest: set_zip_leftD)

lemma demo_digit_range:
  assumes "0 \<le> i"
  shows "0 \<le> demo_digit i k" and "i < TESTSZ \<Longrightarrow> demo_digit i k < 26"
proof -
  define q0 q1 where "q0 = i mod 234" and "q1 = i div 234 mod 234"
  have dig: "demo_digit i k \<in> {q0 mod 26, q1 mod 26, i div 54756, q0 div 26, 8 - q0 div 26, q1 div 26, 8 - q1 div 26, 0}"
    by (simp add: demo_digit_def Let_def q0_def q1_def)
  have "0 \<le> x div 26 \<and> x div 26 \<le> 8" if "0 \<le> x" "x < 234" for x :: int using that by linarith
  then have q: "0 \<le> q0 div 26" "q0 div 26 \<le> 8" "0 \<le> q1 div 26" "q1 div 26 \<le> 8" "0 \<le> i div 54756"
    using assms by (simp_all add: q0_def q1_def pos_imp_zdiv_nonneg_iff)
  then show "0 \<le> demo_digit i k" using dig by auto
  assume "i < TESTSZ"
  then have "i div 54756 < 26" by (simp add: TESTSZ_def)
  then show "demo_digit i k < 26" using dig q pos_mod_bound [of 26 q0] pos_mod_bound [of 26 q1] by auto
qed

lemma demo_rnd_nonneg: "0 \<le> demo_rnd x"
  by (simp add: demo_rnd_def demo_digit_range)

lemma testkeys_demo:
  assumes "0 \<le> i" "i < TESTSZ"
  shows "map of_char (testkeys demo_rnd i) = map (\<lambda>j. demo_digit i (48 - j) + 65) [0..<49]"
proof -
  have "demo_rnd (nat i * 49 + j) = demo_digit i (48 - j)" if "j < 49" for j
    using that assms by (simp add: demo_rnd_def)
  moreover have "demo_digit i k smod 26 + 65 = demo_digit i k + 65" "(demo_digit i k + 65) mod 256 = demo_digit i k + 65" for k
    using demo_digit_range [OF assms(1), of k] assms(2) by (simp_all add: smod_nonneg)
  ultimately show ?thesis
    by (simp add: testkeys_def set_random_str_def STRLEN_def del: upt_rec_numeral)
qed

text \<open>The value of key \<open>i\<close>, up to a constant and modulo \<open>BIG_PRIME\<close>.\<close>

definition demo_value :: "int \<Rightarrow> int" where
  "demo_value i = i mod 234 + 256 * (i div 234 mod 234 + 256 * (i div 54756))"

lemma split_weights:
  "a + 256 * b + 65536 * c + A * d + 256 * A * e + C =
     (a + 26 * d) + 256 * ((b + 26 * e) + 256 * c) + C + (A - 26) * (d + 256 * e)" for A :: int
  by (simp add: algebra_simps)

lemma demo_base256:
  "\<exists>c. \<forall>i. base256 0 (map (\<lambda>j. demo_digit i (48 - j) + 65) [0..<49]) mod BIG_PRIME = (demo_value i + c) mod BIG_PRIME"
proof -
  define A :: int where "A = 256 ^ 14 - 256 ^ 19 + 256 ^ 29 - 256 ^ 32"
  define C :: int where "C = base256 0 (map (\<lambda>j. 65) [0..<49]) + 8 * (256 ^ 19 + 256 ^ 32 + 256 ^ 20 + 256 ^ 33)"
  have l: "[0..<49] = [0, 1, 2, 3, 4, 5, 6, 7, 8, 9, 10, 11, 12, 13, 14, 15, 16, 17, 18, 19, 20, 21, 22, 23, 24,
    25, 26, 27, 28, 29, 30, 31, 32, 33, 34, 35, 36, 37, 38, 39, 40, 41, 42, 43, 44, 45, 46, 47, 48 :: nat]"
    by (simp add: upt_rec)
  have "BIG_PRIME dvd (A - 26)" by (simp add: A_def BIG_PRIME_def)
  then obtain t where t: "A - 26 = BIG_PRIME * t" by (elim dvdE)
  have "base256 0 (map (\<lambda>j. demo_digit i (48 - j) + 65) [0..<49]) mod BIG_PRIME = (demo_value i + C) mod BIG_PRIME" for i
  proof -
    define q0 q1 q2 where "q0 = i mod 234" and "q1 = i div 234 mod 234" and "q2 = i div 54756"
    have "base256 0 (map (\<lambda>j. demo_digit i (48 - j) + 65) [0..<49]) =
        q0 mod 26 + 256 * (q1 mod 26) + 65536 * q2 + A * (q0 div 26) + 256 * A * (q1 div 26) + C"
      unfolding l C_def base256_def demo_digit_def Let_def q0_def [symmetric] q1_def [symmetric] q2_def [symmetric]
      by (simp add: A_def)
    also have "\<dots> = (q0 mod 26 + 26 * (q0 div 26)) + 256 * ((q1 mod 26 + 26 * (q1 div 26)) + 256 * q2) + C +
        (A - 26) * (q0 div 26 + 256 * (q1 div 26))"
      by (rule split_weights)
    also have "\<dots> = demo_value i + C + (A - 26) * (q0 div 26 + 256 * (q1 div 26))"
      by (simp only: mod_mult_div_eq demo_value_def q0_def q1_def q2_def)
    finally have "base256 0 (map (\<lambda>j. demo_digit i (48 - j) + 65) [0..<49]) =
        demo_value i + C + BIG_PRIME * (t * (q0 div 26 + 256 * (q1 div 26)))"
      by (simp only: t mult.assoc)
    then show ?thesis by (simp only: mod_mult_self2)
  qed
  then show ?thesis by blast
qed

lemma digits_range:
  "0 \<le> a \<Longrightarrow> a < 234 \<Longrightarrow> 0 \<le> b \<Longrightarrow> b < 234 \<Longrightarrow> 0 \<le> c \<Longrightarrow> c \<le> 18 \<Longrightarrow>
     0 \<le> a + 256 * (b + 256 * c) \<and> a + 256 * (b + 256 * c) < BIG_PRIME"
  by (auto simp: BIG_PRIME_def)

lemma demo_value_range: "0 \<le> i \<Longrightarrow> i < TESTSZ \<Longrightarrow> 0 \<le> demo_value i \<and> demo_value i < BIG_PRIME"
  unfolding demo_value_def by (rule digits_range) (simp_all add: TESTSZ_def pos_imp_zdiv_nonneg_iff)

lemma low_byte_eq:
  assumes "a + 256 * x = a' + 256 * x'" "0 \<le> a" "a < 256" "0 \<le> a'" "a' < (256 :: int)"
  shows "a = a' \<and> x = x'"
proof -
  have "a = (a + 256 * x) mod 256" "a' = (a' + 256 * x') mod 256" using assms(2-) by simp_all
  with assms(1) have "a = a'" by metis
  with assms(1) show ?thesis by simp
qed

lemma inj_demo_value:
  assumes "demo_value i = demo_value j"
  shows "i = j"
proof -
  have two: "x div 54756 = x div 234 div 234" for x :: int using zdiv_zmult2_eq [of 234 x 234] by simp
  have eq: "i mod 234 + 256 * (i div 234 mod 234 + 256 * (i div 54756)) =
      j mod 234 + 256 * (j div 234 mod 234 + 256 * (j div 54756))"
    using assms by (simp only: demo_value_def)
  have small: "0 \<le> x mod 234" "x mod 234 < 256" for x :: int
    using pos_mod_bound [of 234 x] by (simp, linarith)
  have "i mod 234 = j mod 234" "i div 234 mod 234 + 256 * (i div 54756) = j div 234 mod 234 + 256 * (j div 54756)"
    using low_byte_eq [OF eq small small] by auto
  moreover from low_byte_eq [OF this(2) small small]
  have "i div 234 mod 234 = j div 234 mod 234" "i div 234 div 234 = j div 234 div 234" by (auto simp: two)
  then have "i div 234 = j div 234"
    using mult_div_mod_eq [of 234 "i div 234"] mult_div_mod_eq [of 234 "j div 234"] by linarith
  ultimately show ?thesis using mult_div_mod_eq [of 234 i] mult_div_mod_eq [of 234 j] by linarith
qed

lemma demo_hash_inj:
  assumes i: "i \<in> {0..<TESTSZ}" and j: "j \<in> {0..<TESTSZ}" and "hashcode (testkeys demo_rnd i) = hashcode (testkeys demo_rnd j)"
  shows "i = j"
proof -
  obtain c where c: "\<forall>i. base256 0 (map (\<lambda>j. demo_digit i (48 - j) + 65) [0..<49]) mod BIG_PRIME = (demo_value i + c) mod BIG_PRIME"
    using demo_base256 by blast
  have h: "h mod BIG_PRIME = (demo_value k + c) mod BIG_PRIME"
    if "k \<in> {0..<TESTSZ}" "hashcode (testkeys demo_rnd k) = Inr h" for k h
    using hash_loop_mod [OF ascii_testkeys [of demo_rnd k, OF demo_rnd_nonneg], of 0 h] testkeys_demo [of k] c that
    by (simp add: hashcode_def BIG_PRIME_def del: upt_rec_numeral)
  obtain x where x: "hashcode (testkeys demo_rnd i) = Inr x" using hashcode_ok by blast
  then have "(demo_value i + c) mod BIG_PRIME = (demo_value j + c) mod BIG_PRIME"
    using h [OF i x] h [OF j, of x] assms(3) by metis
  then have "demo_value i mod BIG_PRIME = demo_value j mod BIG_PRIME" by (metis add_diff_cancel_right' mod_diff_left_eq)
  then show ?thesis using demo_value_range [of i] demo_value_range [of j] i j inj_demo_value [of i j] by simp
qed

lemma inj_testkeys_demo: "inj_on (testkeys demo_rnd) {0..<TESTSZ}"
  using demo_hash_inj by (auto simp: inj_on_def)

lemma hash_spread_demo: "hash_spread (testkeys demo_rnd ` {0..<TESTSZ})"
proof -
  let ?S = "\<lambda>h. {k \<in> testkeys demo_rnd ` {0..<TESTSZ}. hashcode k = Inr h}"
  have fin: "finite (?S h)" for h by simp
  have "k = k'" if "k \<in> ?S h" "k' \<in> ?S h" for h k k' using that demo_hash_inj by force
  then have "card (?S h) \<le> Suc 0" for h unfolding card_le_Suc0_iff_eq [OF fin] by blast
  then have "int (card (?S h)) \<le> MAX_COLLISION" for h
    using order_trans [of "int (card (?S h))" 1 MAX_COLLISION] by (simp add: MAX_COLLISION_def)
  then show ?thesis
    unfolding hash_spread_def using fin ascii_testkeys [of demo_rnd, OF demo_rnd_nonneg] by auto
qed

lemma test_htable_no_threads:
  "test_htable key val now 0 sched1 sched2 resize = Some (Inl DivByZero)"
proof -
  have "TESTSZ sdiv 100 = 10000" by (simp add: TESTSZ_def signed_divide_int_def)
  then obtain ht where "htable_init True (TESTSZ sdiv 100) resize = Inr ht"
    using htable_init_ok [of 10000 resize] by (auto simp: SIZE_LIMIT_def)
  then show ?thesis by (simp add: test_htable_def tuples_each_def)
qed

lemma test_htable_ok:
  assumes "0 < n" and "schedule_of INSERT n sched1" and "schedule_of MIX n sched2"
    and "inj_on (testkeys rnd) {0..<TESTSZ}" and "\<And>i. 0 \<le> rnd i"
    and "\<And>i. i \<in> {0..<TESTSZ} \<Longrightarrow> testvals i \<noteq> NULL"
    and "resize \<noteq> 0 \<Longrightarrow> hash_spread (testkeys rnd ` {0..<TESTSZ})"
  shows "\<exists>rp. test_htable (testkeys rnd) testvals now n sched1 sched2 resize = Some (Inr (rp, Map.empty))"
proof -
  note asc = ascii_testkeys [of rnd, OF assms(5)]
  obtain ht H1 ht1 m1 where 1: "htable_init True (TESTSZ sdiv 100) resize = Inr ht"
    "run_calls htable_lookup (\<lambda>a. htable_insert a True) (testkeys rnd) testvals (Map.empty, ht) sched1 =
      Some (Inr (H1, ht1))"
    "ht_map (H1, ht1) m1" "bound (testkeys rnd) testvals {0..<TESTSZ} {0..<TESTSZ} m1"
    using phase_ok [OF assms(1,2,4) asc assms(7)] by force
  obtain ht' H2 ht2 m2 where 2: "htable_init True (TESTSZ sdiv 100) resize = Inr ht'"
    "run_calls htable_lookup (\<lambda>a. htable_insert a True) (testkeys rnd) testvals (Map.empty, ht') sched2 =
      Some (Inr (H2, ht2))" "ht_map (H2, ht2) m2"
    using phase_ok [OF assms(1,3,4) asc assms(7)] by force
  have "validate htable_lookup (testkeys rnd) testvals (H1, ht1) [0..TESTSZ - 1] = Some (Inr ())"
    by (rule ht.validate_ok [OF 1(3,4)]) (use asc assms(6) in auto)
  with 1 2 htable_destroy_ok [OF 1(3)] htable_destroy_ok [OF 2(3)] show ?thesis
    using assms(1) by (simp add: test_htable_def tuples_each_def)
qed

text \<open>
  C5: the test of the table passes on every schedule of the threads' calls, for any number of threads, when
  the test keys are distinct: no call fails, every key inserted is found with its value, and when the
  test ends no node of the table is left allocated. With resizing, this needs that no hash code has more
  than \<open>MAX_COLLISION\<close> of the keys.
\<close>

theorem test_htable_passes:
  assumes "0 < n" and "schedule_of INSERT n sched1" and "schedule_of MIX n sched2"
    and "inj_on (testkeys rnd) {0..<TESTSZ}" and "\<And>i. 0 \<le> rnd i"
    and "\<And>i. i \<in> {0..<TESTSZ} \<Longrightarrow> testvals i \<noteq> NULL"
    and "resize \<noteq> 0 \<Longrightarrow> hash_spread (testkeys rnd ` {0..<TESTSZ})"
  shows "\<exists>rp. test_htable (testkeys rnd) testvals now n sched1 sched2 resize = Some (Inr (rp, Map.empty))"
  using assms by (rule test_htable_ok)

theorem test_htable_passes_witness:
  "\<exists>rp. test_htable (testkeys demo_rnd) (\<lambda>i. 4096 + 4 * i) (\<lambda>_. \<lparr>ts_sec = 0, ts_nsec = 0\<rparr>) 4
       (demo_schedule INSERT) (demo_schedule MIX) 1 = Some (Inr (rp, Map.empty))"
  by (rule test_htable_passes [OF _ demo_schedule_ok demo_schedule_ok inj_testkeys_demo])
    (auto simp: demo_rnd_nonneg hash_spread_demo NULL_def)

end
