(* ===== verification/RWLock_Priority.thy ===== *)
theory RWLock_Priority
  imports RWLock
begin

text \<open>
  \<open>test_rwl_priority\<close> of \<open>threadlab/testrwlock.c\<close>: a lingering reader holds the lock while a writer and
  then eight readers queue up; when the reader leaves, the writer has to come first. The threads
  interleave freely. One step of a thread is one lock operation, one section under \<open>test_m\<close>, or the
  end of a loop that waits for a condition (a waiting loop that goes round once more changes nothing
  and is no step). The lock is described by when it is granted; \<open>prio\<close> says whether a waiting writer
  keeps new readers out, as the comments and the test ask.
\<close>

section \<open>The threads\<close>

text \<open>Thread 0 is \<open>linger_reader\<close>, thread 1 \<open>competing_writer\<close>, threads 2 to 9 are \<open>competing_reader\<close>.\<close>

datatype thread_pc = NotStarted | Calling | Waiting | Holding | InCS | Releasing | Done

datatype main_pc =
    Create_Linger | Await_Linger | Create_Writer | Await_Writer | Create_Reader nat | Check_Nobody
  | Await_All | Let_Linger_Go | Await_Cs | Let_Peers_Go | Join | Passed | Failed

record rwtest =
  mpc :: main_pc
  pcs :: "nat \<Rightarrow> thread_pc"
  reader_in_cs :: int
  who_is_in_cs :: int
  reader_getout :: int
  peers_getout :: int

definition rwtest_init :: rwtest where
  "rwtest_init = \<lparr>mpc = Create_Linger, pcs = (\<lambda>_. NotStarted), reader_in_cs = 0, who_is_in_cs = 0,
     reader_getout = 0, peers_getout = 0\<rparr>"

section \<open>The lock\<close>

definition holds :: "thread_pc \<Rightarrow> bool" where
  "holds p \<longleftrightarrow> p = Holding \<or> p = InCS \<or> p = Releasing"

definition may_acquire :: "bool \<Rightarrow> rwtest \<Rightarrow> nat \<Rightarrow> bool" where
  "may_acquire prio s i \<longleftrightarrow>
     (if i = 1 then \<forall>j<10. \<not> holds (pcs s j)
      else \<not> holds (pcs s 1) \<and> (prio \<longrightarrow> pcs s 1 \<noteq> Waiting))"

definition nwaiters :: "rwtest \<Rightarrow> nat" where
  "nwaiters s = length (filter (\<lambda>i. pcs s i = Waiting) [0..<10])"

section \<open>The steps\<close>

definition set_pc :: "rwtest \<Rightarrow> nat \<Rightarrow> thread_pc \<Rightarrow> rwtest" where
  "set_pc s i p = s\<lparr>pcs := (pcs s)(i := p)\<rparr>"

text \<open>What a thread writes when it has the lock, and the flag it then waits for.\<close>

definition announce :: "nat \<Rightarrow> rwtest \<Rightarrow> rwtest" where
  "announce i s =
     (if i = 0 then s\<lparr>reader_in_cs := 1\<rparr>
      else if i = 1 then s\<lparr>who_is_in_cs := 1\<rparr>
      else s\<lparr>who_is_in_cs := 2\<rparr>)"

definition getout :: "nat \<Rightarrow> rwtest \<Rightarrow> int" where
  "getout i s = (if i = 0 then reader_getout s else peers_getout s)"

inductive thread_step :: "bool \<Rightarrow> nat \<Rightarrow> rwtest \<Rightarrow> rwtest \<Rightarrow> bool" for prio where
  acquire: "pcs s i \<in> {Calling, Waiting} \<Longrightarrow> may_acquire prio s i \<Longrightarrow>
    thread_step prio i s (set_pc s i Holding)"
| wait: "pcs s i = Calling \<Longrightarrow> \<not> may_acquire prio s i \<Longrightarrow> thread_step prio i s (set_pc s i Waiting)"
| enter: "pcs s i = Holding \<Longrightarrow> thread_step prio i s (announce i (set_pc s i InCS))"
| leave: "pcs s i = InCS \<Longrightarrow> getout i s \<noteq> 0 \<Longrightarrow> thread_step prio i s (set_pc s i Releasing)"
| unlock: "pcs s i = Releasing \<Longrightarrow> thread_step prio i s (set_pc s i Done)"

fun main_step :: "rwtest \<Rightarrow> rwtest option" where
  "main_step s =
     (case mpc s of
        Create_Linger \<Rightarrow> Some (set_pc s 0 Calling\<lparr>mpc := Await_Linger\<rparr>)
      | Await_Linger \<Rightarrow> if reader_in_cs s \<noteq> 0 then Some (s\<lparr>mpc := Create_Writer\<rparr>) else None
      | Create_Writer \<Rightarrow> Some (set_pc s 1 Calling\<lparr>mpc := Await_Writer\<rparr>)
      | Await_Writer \<Rightarrow> if nwaiters s = 1 then Some (s\<lparr>mpc := Create_Reader 2\<rparr>) else None
      | Create_Reader i \<Rightarrow>
          Some (set_pc s i Calling\<lparr>mpc := (if i < 9 then Create_Reader (Suc i) else Check_Nobody)\<rparr>)
      | Check_Nobody \<Rightarrow>
          Some (s\<lparr>mpc := (if who_is_in_cs s = 1 \<or> who_is_in_cs s = 2 then Failed else Await_All)\<rparr>)
      | Await_All \<Rightarrow> if nwaiters s = 9 then Some (s\<lparr>mpc := Let_Linger_Go\<rparr>) else None
      | Let_Linger_Go \<Rightarrow> Some (s\<lparr>reader_getout := 1, mpc := Await_Cs\<rparr>)
      | Await_Cs \<Rightarrow>
          if who_is_in_cs s \<noteq> 0
          then Some (s\<lparr>mpc := (if who_is_in_cs s \<noteq> 1 then Failed else Let_Peers_Go)\<rparr>) else None
      | Let_Peers_Go \<Rightarrow> Some (s\<lparr>peers_getout := 1, mpc := Join\<rparr>)
      | Join \<Rightarrow> if \<forall>i<10. pcs s i = Done then Some (s\<lparr>mpc := Passed\<rparr>) else None
      | Passed \<Rightarrow> None
      | Failed \<Rightarrow> None)"

declare main_step.simps [simp del]

inductive rw_step :: "bool \<Rightarrow> rwtest \<Rightarrow> rwtest \<Rightarrow> bool" for prio where
  rw_main: "main_step s = Some t \<Longrightarrow> rw_step prio s t"
| rw_thread: "i < 10 \<Longrightarrow> mpc s \<noteq> Failed \<Longrightarrow> thread_step prio i s t \<Longrightarrow> rw_step prio s t"

inductive rw_reachable :: "bool \<Rightarrow> rwtest \<Rightarrow> bool" for prio where
  rw_start: "rw_reachable prio rwtest_init"
| rw_more: "rw_reachable prio s \<Longrightarrow> rw_step prio s t \<Longrightarrow> rw_reachable prio t"

section \<open>The invariant\<close>

text \<open>How far the main thread and a thread have come.\<close>

fun mrank :: "main_pc \<Rightarrow> nat" where
  "mrank Create_Linger = 0"
| "mrank Await_Linger = 1"
| "mrank Create_Writer = 2"
| "mrank Await_Writer = 3"
| "mrank (Create_Reader i) = 2 + i"
| "mrank Check_Nobody = 12"
| "mrank Await_All = 13"
| "mrank Let_Linger_Go = 14"
| "mrank Await_Cs = 15"
| "mrank Let_Peers_Go = 16"
| "mrank Join = 17"
| "mrank Passed = 18"
| "mrank Failed = 18"

text \<open>
  Who has been created; what the flags say; the lingering reader holds the lock until it is told to
  go, the writer waits for it, and no competing reader gets the lock before the writer is done.
\<close>

definition queued :: "thread_pc \<Rightarrow> bool" where
  "queued p \<longleftrightarrow> p = Calling \<or> p = Waiting"

definition inv_main :: "rwtest \<Rightarrow> bool" where
  "inv_main s \<longleftrightarrow>
     mpc s \<noteq> Failed \<and> (\<forall>i. mpc s = Create_Reader i \<longrightarrow> 2 \<le> i \<and> i \<le> 9) \<and>
     (reader_getout s \<noteq> 0 \<longleftrightarrow> 15 \<le> mrank (mpc s)) \<and> (peers_getout s \<noteq> 0 \<longleftrightarrow> 17 \<le> mrank (mpc s)) \<and>
     (2 \<le> mrank (mpc s) \<longrightarrow> reader_in_cs s \<noteq> 0)"

definition inv_linger :: "rwtest \<Rightarrow> bool" where
  "inv_linger s \<longleftrightarrow>
     (pcs s 0 = NotStarted \<longleftrightarrow> mrank (mpc s) = 0) \<and>
     (reader_in_cs s \<noteq> 0 \<longleftrightarrow> pcs s 0 \<in> {InCS, Releasing, Done}) \<and>
     (pcs s 0 \<in> {Releasing, Done} \<longrightarrow> reader_getout s \<noteq> 0)"

definition inv_writer :: "rwtest \<Rightarrow> bool" where
  "inv_writer s \<longleftrightarrow>
     (pcs s 1 = NotStarted \<longleftrightarrow> mrank (mpc s) \<le> 2) \<and>
     (pcs s 1 \<in> {Releasing, Done} \<longrightarrow> peers_getout s \<noteq> 0) \<and>
     (holds (pcs s 0) \<longrightarrow> pcs s 1 = NotStarted \<or> queued (pcs s 1)) \<and>
     (4 \<le> mrank (mpc s) \<longrightarrow> pcs s 1 \<noteq> Calling) \<and>
     (pcs s 1 \<noteq> Done \<longrightarrow> who_is_in_cs s = (if pcs s 1 = InCS \<or> pcs s 1 = Releasing then 1 else 0)) \<and>
     (16 \<le> mrank (mpc s) \<longrightarrow> pcs s 1 \<in> {InCS, Releasing, Done})"

definition inv_reader :: "rwtest \<Rightarrow> nat \<Rightarrow> bool" where
  "inv_reader s i \<longleftrightarrow>
     (pcs s i = NotStarted \<longleftrightarrow> mrank (mpc s) \<le> 2 + i) \<and>
     (pcs s 1 \<noteq> Done \<longrightarrow> pcs s i = NotStarted \<or> queued (pcs s i)) \<and>
     (pcs s i \<in> {Releasing, Done} \<longrightarrow> peers_getout s \<noteq> 0)"

definition rw_inv :: "rwtest \<Rightarrow> bool" where
  "rw_inv s \<longleftrightarrow> inv_main s \<and> inv_linger s \<and> inv_writer s \<and> (\<forall>i. 2 \<le> i \<and> i < 10 \<longrightarrow> inv_reader s i)"

lemmas rw_inv_defs = inv_main_def inv_linger_def inv_writer_def inv_reader_def holds_def queued_def

lemma rw_inv_init: "rw_inv rwtest_init"
  by (simp add: rw_inv_def rw_inv_defs rwtest_init_def)

lemma set_pc_simps [simp]:
  "mpc (set_pc s i p) = mpc s" "pcs (set_pc s i p) = (pcs s)(i := p)"
  "reader_in_cs (set_pc s i p) = reader_in_cs s" "who_is_in_cs (set_pc s i p) = who_is_in_cs s"
  "reader_getout (set_pc s i p) = reader_getout s" "peers_getout (set_pc s i p) = peers_getout s"
  by (simp_all add: set_pc_def)

lemma announce_simps [simp]:
  "mpc (announce i s) = mpc s" "pcs (announce i s) = pcs s" "reader_getout (announce i s) = reader_getout s"
  "peers_getout (announce i s) = peers_getout s"
  "reader_in_cs (announce i s) = (if i = 0 then 1 else reader_in_cs s)"
  "who_is_in_cs (announce i s) = (if i = 0 then who_is_in_cs s else if i = 1 then 1 else 2)"
  by (simp_all add: announce_def)

text \<open>The step of a thread, for each part of the invariant.\<close>

lemma thread_inv_main: "thread_step prio i s t \<Longrightarrow> inv_main s \<Longrightarrow> inv_main t"
  by (induction rule: thread_step.induct) (simp_all add: inv_main_def)

lemma thread_inv_linger: "thread_step prio i s t \<Longrightarrow> inv_linger s \<Longrightarrow> inv_linger t"
  by (cases "i = 0"; erule thread_step.cases) (simp_all add: inv_linger_def getout_def, auto)

lemma linger_inv_writer:
  "thread_step True 0 s t \<Longrightarrow> inv_main s \<Longrightarrow> inv_linger s \<Longrightarrow> inv_writer s \<Longrightarrow> inv_writer t"
  by (cases "pcs s 1"; erule thread_step.cases)
    (simp_all add: rw_inv_defs may_acquire_def)

lemma writer_inv_writer:
  "thread_step True 1 s t \<Longrightarrow> inv_main s \<Longrightarrow> inv_linger s \<Longrightarrow> inv_writer s \<Longrightarrow> inv_writer t"
  by (cases "pcs s 1"; erule thread_step.cases)
    (simp_all add: rw_inv_defs may_acquire_def getout_def)

lemma reader_inv_writer:
  "thread_step True i s t \<Longrightarrow> 2 \<le> i \<Longrightarrow> inv_writer s \<Longrightarrow> inv_reader s i \<Longrightarrow> inv_writer t"
  by (cases "pcs s 1"; erule thread_step.cases)
    (simp_all add: rw_inv_defs)

lemma reader_acquires_last:
  assumes "may_acquire True s k" and "inv_writer s" and "inv_reader s k" and "2 \<le> k"
    and "pcs s k \<noteq> NotStarted"
  shows "pcs s 1 = Done"
proof -
  have "4 < mrank (mpc s)" using assms(3-5) by (auto simp: inv_reader_def)
  with assms(1,2,4) show ?thesis
    by (cases "pcs s 1") (simp_all add: inv_writer_def may_acquire_def holds_def)
qed

lemma thread_inv_reader:
  assumes "thread_step True i s t" and "inv_writer s" and "inv_reader s k" and "2 \<le> k"
  shows "inv_reader t k"
proof -
  consider "i = k" | "i \<noteq> k" "i = 1" | "i \<noteq> k" "i \<noteq> 1" by blast
  then show ?thesis
  proof cases
    assume "i = k"
    with assms reader_acquires_last [OF _ assms(2-4)] show ?thesis
      by (cases "pcs s k"; elim thread_step.cases)
        (simp_all add: inv_reader_def queued_def getout_def)
  next
    assume "i \<noteq> k" "i = 1"
    with assms show ?thesis
      by (cases "pcs s 1"; elim thread_step.cases) (simp_all add: rw_inv_defs)
  next
    assume "i \<noteq> k" "i \<noteq> 1"
    with assms(1) have "mpc t = mpc s" "pcs t k = pcs s k" "pcs t 1 = pcs s 1" "peers_getout t = peers_getout s"
      by (auto elim!: thread_step.cases)
    then have "inv_reader t k = inv_reader s k" by (simp only: inv_reader_def)
    with assms(3) show ?thesis by simp
  qed
qed

lemma thread_rw_inv:
  assumes "thread_step True i s t" and "rw_inv s" and "i < 10"
  shows "rw_inv t"
proof -
  have i: "inv_main s" "inv_linger s" "inv_writer s" "2 \<le> i \<Longrightarrow> inv_reader s i"
    using assms(2,3) by (simp_all add: rw_inv_def)
  consider "i = 0" | "i = 1" | "2 \<le> i" by linarith
  then have "inv_writer t"
    by cases (use assms(1) i linger_inv_writer writer_inv_writer reader_inv_writer in blast)+
  moreover have "\<forall>k. 2 \<le> k \<and> k < 10 \<longrightarrow> inv_reader t k"
    using thread_inv_reader [OF assms(1) i(3)] assms(2) by (simp add: rw_inv_def)
  ultimately show ?thesis
    using thread_inv_main [OF assms(1) i(1)] thread_inv_linger [OF assms(1) i(2)] by (simp add: rw_inv_def)
qed

lemma nwaiters_pos: "0 < nwaiters s \<longleftrightarrow> (\<exists>i<10. pcs s i = Waiting)"
  by (auto simp: nwaiters_def filter_empty_conv)

text \<open>When the main thread sees one waiting thread, it is the writer.\<close>

lemma one_waiter:
  assumes "rw_inv s" and "mpc s = Await_Writer" and "nwaiters s = 1"
  shows "pcs s 1 = Waiting"
proof -
  obtain i where i: "i < 10" "pcs s i = Waiting" using assms(3) nwaiters_pos [of s] by auto
  have "pcs s 0 \<noteq> Waiting" using assms(1,2) by (auto simp: rw_inv_def inv_main_def inv_linger_def)
  moreover have "pcs s k = NotStarted" if "2 \<le> k" "k < 10" for k
    using assms(1,2) that by (simp add: rw_inv_def inv_reader_def)
  ultimately have "i = 1" using i by (metis One_nat_def Suc_1 less_2_cases not_less thread_pc.distinct(3))
  with i show ?thesis by simp
qed

lemma who_before:
  assumes "rw_inv s"
  shows "mrank (mpc s) \<le> 14 \<Longrightarrow> who_is_in_cs s = 0"
    and "mrank (mpc s) \<le> 16 \<Longrightarrow> who_is_in_cs s = 0 \<or> who_is_in_cs s = 1 \<and> pcs s 1 = InCS"
proof -
  have w: "inv_writer s" "inv_linger s" "inv_main s" using assms by (simp_all add: rw_inv_def)
  show "mrank (mpc s) \<le> 16 \<Longrightarrow> who_is_in_cs s = 0 \<or> who_is_in_cs s = 1 \<and> pcs s 1 = InCS"
    using w by (cases "pcs s 1") (simp_all add: inv_writer_def inv_main_def)
  assume r: "mrank (mpc s) \<le> 14"
  show "who_is_in_cs s = 0"
  proof (cases "mrank (mpc s) \<le> 2")
    case True
    with w show ?thesis by (simp add: inv_writer_def)
  next
    case False
    with r w(2,3) have "pcs s 0 = InCS" by (auto simp: inv_main_def inv_linger_def)
    with r w(1) show ?thesis by (auto simp: inv_writer_def holds_def queued_def)
  qed
qed

lemma main_inv_main:
  assumes "main_step s = Some t" and "rw_inv s"
  shows "inv_main t"
proof -
  have "inv_main s" using assms(2) by (simp add: rw_inv_def)
  with assms(1) who_before [OF assms(2)] show ?thesis
    by (cases "mpc s") (auto simp: main_step.simps inv_main_def split: if_splits)
qed

lemma main_inv_linger:
  assumes "main_step s = Some t" and "rw_inv s"
  shows "inv_linger t"
proof -
  have "inv_main s" "inv_linger s" using assms(2) by (simp_all add: rw_inv_def)
  with assms(1) show ?thesis
    by (cases "mpc s") (auto simp: main_step.simps inv_main_def inv_linger_def split: if_splits)
qed

lemma main_inv_reader:
  assumes "main_step s = Some t" and "rw_inv s" and "2 \<le> k" "k < 10"
  shows "inv_reader t k"
proof -
  have "inv_main s" "inv_reader s k" using assms(2-4) by (simp_all add: rw_inv_def)
  with assms(1,3,4) show ?thesis
    by (cases "mpc s") (auto simp: main_step.simps inv_main_def inv_reader_def queued_def split: if_splits)
qed

lemma main_inv_writer:
  assumes "main_step s = Some t" and "rw_inv s"
  shows "inv_writer t"
proof -
  have "inv_main s" "inv_writer s" using assms(2) by (simp_all add: rw_inv_def)
  with assms(1) one_waiter [OF assms(2)] who_before(2) [OF assms(2)] show ?thesis
    by (cases "mpc s"; cases "pcs s 1";
        clarsimp simp: main_step.simps inv_main_def inv_writer_def queued_def holds_def split: if_splits)
qed

lemma rw_step_inv:
  assumes "rw_step True s t" and "rw_inv s"
  shows "rw_inv t"
  using assms
proof (induction rule: rw_step.induct)
  case (rw_main s t)
  then show ?case
    using main_inv_main main_inv_linger main_inv_writer main_inv_reader by (simp add: rw_inv_def)
next
  case (rw_thread i s t)
  then show ?case by (blast intro: thread_rw_inv)
qed

lemma rw_reachable_inv: "rw_reachable True s \<Longrightarrow> rw_inv s"
  by (induction rule: rw_reachable.induct) (auto intro: rw_inv_init rw_step_inv)

section \<open>Progress\<close>

text \<open>A thread that cannot move is not started, done, kept in its section, or waiting in vain.\<close>

lemma thread_can_step:
  assumes "i < 10" and "mpc s \<noteq> Failed" and "\<not> (\<exists>t. rw_step prio s t)"
  shows "pcs s i = NotStarted \<or> pcs s i = Done \<or> pcs s i = InCS \<and> getout i s = 0 \<or>
    pcs s i = Waiting \<and> \<not> may_acquire prio s i"
proof -
  have "\<not> thread_step prio i s t" for t using assms by (blast intro: rw_thread)
  then show ?thesis
    using thread_step.intros [of s i prio] by (cases "pcs s i") blast+
qed

lemma nwaiters_all:
  assumes "\<And>i. 1 \<le> i \<Longrightarrow> i < 10 \<Longrightarrow> pcs s i = Waiting" and "pcs s 0 \<noteq> Waiting"
  shows "nwaiters s = 9"
proof -
  have "filter (\<lambda>i. pcs s i = Waiting) [0..<10] = filter (\<lambda>i. 1 \<le> i) [0..<10]"
    using assms by (intro filter_cong) (auto simp: Suc_le_eq intro: gr0I)
  also have "\<dots> = [1, 2, 3, 4, 5, 6, 7, 8, 9]" by (simp add: upt_rec)
  finally show ?thesis by (simp add: nwaiters_def)
qed

lemma nwaiters_one:
  assumes "\<And>i. i < 10 \<Longrightarrow> pcs s i = Waiting \<longleftrightarrow> i = 1"
  shows "nwaiters s = 1"
proof -
  have "filter (\<lambda>i. pcs s i = Waiting) [0..<10] = filter (\<lambda>i. i = 1) [0..<10]"
    using assms by (intro filter_cong) auto
  also have "\<dots> = [1]" by (simp add: upt_rec)
  finally show ?thesis by (simp add: nwaiters_def)
qed

text \<open>In a state where no thread can move, the main thread can.\<close>

lemma rw_progress:
  assumes "rw_inv s" and "mpc s \<noteq> Passed"
  shows "\<exists>t. rw_step True s t"
proof (rule ccontr)
  assume stuck: "\<not> (\<exists>t. rw_step True s t)"
  have inv: "inv_main s" "inv_linger s" "inv_writer s" "\<And>i. 2 \<le> i \<Longrightarrow> i < 10 \<Longrightarrow> inv_reader s i"
    using assms(1) by (simp_all add: rw_inv_def)
  have nf: "mpc s \<noteq> Failed" using inv(1) by (simp add: inv_main_def)
  note th = thread_can_step [OF _ nf stuck]
  have main: "main_step s = None" using stuck by (cases "main_step s") (auto intro: rw_main)
  consider "mpc s = Await_Linger" "reader_in_cs s = 0" | "mpc s = Await_Writer" "nwaiters s \<noteq> 1"
    | "mpc s = Await_All" "nwaiters s \<noteq> 9" | "mpc s = Await_Cs" "who_is_in_cs s = 0"
    | "mpc s = Join" "\<not> (\<forall>i<10. pcs s i = Done)"
    using main nf assms(2) by (cases "mpc s") (simp_all add: main_step.simps split: if_splits)
  then show False
  proof cases
    case 1
    then have "pcs s 1 = NotStarted" using inv(3) by (simp add: inv_writer_def)
    with 1 th [of 0] inv(2) show False
      by (auto simp: inv_linger_def may_acquire_def holds_def)
  next
    case 2
    then have "pcs s 0 = InCS" using inv(1,2) by (auto simp: inv_main_def inv_linger_def)
    moreover from this 2 have "pcs s 1 = Waiting"
      using th [of 1] inv(3) by (auto simp: inv_writer_def holds_def queued_def)
    moreover have "pcs s i = NotStarted" if "2 \<le> i" "i < 10" for i
      using inv(4) [OF that] 2 that by (simp add: inv_reader_def)
    ultimately have "pcs s i = Waiting \<longleftrightarrow> i = 1" if "i < 10" for i
      using that by (cases "i = 0"; cases "i = 1") auto
    with 2 nwaiters_one show False by blast
  next
    case 3
    then have l: "pcs s 0 = InCS" using inv(1,2) by (auto simp: inv_main_def inv_linger_def)
    with 3 have w: "pcs s 1 = Waiting" using th [of 1] inv(3) by (auto simp: inv_writer_def holds_def queued_def)
    have "pcs s i = Waiting" if "1 \<le> i" "i < 10" for i
    proof (cases "i = 1")
      case False
      with that have i: "2 \<le> i" "i < 10" by simp_all
      with 3 w th [of i] inv(4) [OF i] show ?thesis by (auto simp: inv_reader_def queued_def)
    qed (use w in simp)
    with 3 l nwaiters_all show False by simp
  next
    case 4
    then have g: "reader_getout s \<noteq> 0" "reader_in_cs s \<noteq> 0" "peers_getout s = 0"
      using inv(1) by (simp_all add: inv_main_def)
    then have l: "pcs s 0 = Done" using th [of 0] inv(2) by (auto simp: inv_linger_def getout_def)
    have w: "pcs s 1 = Waiting" using th [of 1] 4 g inv(3) by (auto simp: inv_writer_def)
    have "\<not> holds (pcs s i)" if "i < 10" for i
      using that l w inv(4) [of i] by (cases "i = 0"; cases "i = 1") (auto simp: inv_reader_def holds_def queued_def)
    then have "may_acquire True s 1" by (simp add: may_acquire_def)
    with w th [of 1] show False by simp
  next
    case 5
    then have g: "reader_getout s \<noteq> 0" "reader_in_cs s \<noteq> 0" "peers_getout s \<noteq> 0"
      using inv(1) by (simp_all add: inv_main_def)
    then have l: "pcs s 0 = Done" using th [of 0] inv(2) by (auto simp: inv_linger_def getout_def)
    have w: "pcs s 1 = Done" using th [of 1] 5 g inv(3) by (auto simp: inv_writer_def getout_def)
    have "pcs s i = Done" if "2 \<le> i" "i < 10" for i
      using th [of i] inv(4) [OF that] that w 5 g by (auto simp: inv_reader_def getout_def may_acquire_def holds_def)
    then have "pcs s i = Done" if "i < 10" for i
      using that l w by (cases "i = 0"; cases "i = 1") auto
    with 5 show False by blast
  qed
qed

section \<open>The test ends\<close>

fun trank :: "thread_pc \<Rightarrow> nat" where
  "trank NotStarted = 0"
| "trank Calling = 1"
| "trank Waiting = 2"
| "trank Holding = 3"
| "trank InCS = 4"
| "trank Releasing = 5"
| "trank Done = 6"

definition to_go :: "rwtest \<Rightarrow> nat" where
  "to_go s = (18 - mrank (mpc s)) + (\<Sum>i<10. 6 - trank (pcs s i))"

lemma trank_le: "trank p \<le> 6"
  by (cases p) simp_all

lemma sum_pcs_less:
  assumes "i < 10" and "trank (pcs s i) < trank p"
  shows "(\<Sum>j<10. 6 - trank (((pcs s)(i := p)) j)) < (\<Sum>j<10. 6 - trank (pcs s j))"
proof (rule sum_strict_mono_ex1)
  show "\<exists>j\<in>{..<10}. 6 - trank (((pcs s)(i := p)) j) < 6 - trank (pcs s j)"
    using assms trank_le [of p] by (intro bexI [of _ i]) auto
qed (use assms in auto)

lemma thread_to_go: "thread_step prio i s t \<Longrightarrow> i < 10 \<Longrightarrow> to_go t < to_go s"
  by (erule thread_step.cases) (auto simp: to_go_def simp del: fun_upd_apply intro!: sum_pcs_less)

lemma main_to_go:
  assumes "main_step s = Some t" and "rw_inv s"
  shows "to_go t < to_go s"
proof -
  have ne: "mpc t \<noteq> Failed" using main_inv_main [OF assms] by (simp add: inv_main_def)
  have "(\<Sum>j<10. 6 - trank (pcs t j)) \<le> (\<Sum>j<10. 6 - trank (pcs s j))"
  proof (rule sum_mono)
    fix j :: nat assume "j \<in> {..<10}"
    have "pcs t j = pcs s j \<or> pcs s j = NotStarted"
      using assms by (cases "mpc s") (auto simp: main_step.simps rw_inv_def inv_main_def inv_linger_def
          inv_writer_def inv_reader_def split: if_splits)
    then show "6 - trank (pcs t j) \<le> 6 - trank (pcs s j)" by auto
  qed
  moreover have "18 - mrank (mpc t) < 18 - mrank (mpc s)"
    using assms ne by (cases "mpc s") (auto simp: main_step.simps rw_inv_def inv_main_def split: if_splits)
  ultimately show ?thesis by (simp add: to_go_def)
qed

lemma rw_step_to_go: "rw_step True s t \<Longrightarrow> rw_inv s \<Longrightarrow> to_go t < to_go s"
  by (erule rw_step.cases) (auto intro: main_to_go thread_to_go)

lemma rw_inv_ends: "rw_inv s \<Longrightarrow> \<exists>t. (rw_step True)\<^sup>*\<^sup>* s t \<and> mpc t = Passed"
proof (induction "to_go s" arbitrary: s rule: less_induct)
  case less
  show ?case
  proof (cases "mpc s = Passed")
    case False
    then obtain u where u: "rw_step True s u" using rw_progress less.prems by blast
    then have "to_go u < to_go s" "rw_inv u" using less.prems rw_step_to_go rw_step_inv by blast+
    then obtain t where "(rw_step True)\<^sup>*\<^sup>* u t" "mpc t = Passed" using less.hyps by blast
    with u show ?thesis by (meson converse_rtranclp_into_rtranclp)
  qed blast
qed

text \<open>
  C8: \<open>test_rwl_priority\<close> with a lock that gives a waiting writer priority over readers: whatever the
  interleaving of the eleven threads, the test never fails, never gets stuck, takes at most \<open>to_go\<close> more
  steps, and ends by passing.
\<close>

theorem rwl_priority_passes:
  assumes "rw_reachable True s"
  shows "mpc s \<noteq> Failed \<and> (mpc s \<noteq> Passed \<longrightarrow> (\<exists>t. rw_step True s t)) \<and>
    (\<forall>t. rw_step True s t \<longrightarrow> to_go t < to_go s) \<and> (\<exists>t. (rw_step True)\<^sup>*\<^sup>* s t \<and> mpc t = Passed)"
proof -
  have inv: "rw_inv s" using assms by (rule rw_reachable_inv)
  then show ?thesis
    using rw_progress [OF inv] rw_step_to_go [OF _ inv] rw_inv_ends [OF inv]
    by (auto simp: rw_inv_def inv_main_def)
qed

theorem rwl_priority_passes_witness:
  "mpc rwtest_init \<noteq> Failed \<and> to_go rwtest_init = 78 \<and>
   (\<exists>t. (rw_step True)\<^sup>*\<^sup>* rwtest_init t \<and> mpc t = Passed)"
  using rwl_priority_passes [OF rw_start] by (simp add: rwtest_init_def to_go_def)

section \<open>A lock without priority\<close>

text \<open>The steps of a thread as a function, and runs of a list of threads; \<open>None\<close> is the main thread.\<close>

definition thread_act :: "bool \<Rightarrow> nat \<Rightarrow> rwtest \<Rightarrow> rwtest option" where
  "thread_act prio i s =
     (case pcs s i of
        NotStarted \<Rightarrow> None
      | Calling \<Rightarrow> Some (set_pc s i (if may_acquire prio s i then Holding else Waiting))
      | Waiting \<Rightarrow> if may_acquire prio s i then Some (set_pc s i Holding) else None
      | Holding \<Rightarrow> Some (announce i (set_pc s i InCS))
      | InCS \<Rightarrow> if getout i s \<noteq> 0 then Some (set_pc s i Releasing) else None
      | Releasing \<Rightarrow> Some (set_pc s i Done)
      | Done \<Rightarrow> None)"

lemma thread_act_step: "thread_act prio i s = Some t \<longleftrightarrow> thread_step prio i s t"
proof
  show "thread_act prio i s = Some t \<Longrightarrow> thread_step prio i s t"
    by (cases "pcs s i") (auto simp: thread_act_def split: if_splits intro: thread_step.intros)
  show "thread_step prio i s t \<Longrightarrow> thread_act prio i s = Some t"
    by (erule thread_step.cases) (auto simp: thread_act_def)
qed

fun rw_run :: "bool \<Rightarrow> nat option list \<Rightarrow> rwtest \<Rightarrow> rwtest option" where
  "rw_run prio [] s = Some s"
| "rw_run prio (None # as) s = (case main_step s of None \<Rightarrow> None | Some t \<Rightarrow> rw_run prio as t)"
| "rw_run prio (Some i # as) s =
     (if i < 10 \<and> mpc s \<noteq> Failed
      then case thread_act prio i s of None \<Rightarrow> None | Some t \<Rightarrow> rw_run prio as t
      else None)"

lemma rw_run_reachable: "rw_run prio as s = Some t \<Longrightarrow> rw_reachable prio s \<Longrightarrow> rw_reachable prio t"
proof (induction prio as s rule: rw_run.induct)
  case (2 prio as s)
  then show ?case by (auto split: option.splits intro: rw_more rw_main)
next
  case (3 prio i as s)
  then obtain u where "thread_step prio i s u" "i < 10" "mpc s \<noteq> Failed" "rw_run prio as u = Some t"
    by (auto split: option.splits if_splits simp: thread_act_step)
  with 3 show ?case by (metis rw_more rw_thread thread_act_step)
qed simp

text \<open>The schedule in which the first competing reader overtakes the waiting writer.\<close>

definition overtaking :: "nat option list" where
  "overtaking = [None, Some 0, Some 0, None, None, Some 1, None, None, Some 2, Some 2] @ replicate 8 None"

lemma overtaking_fails:
  "case rw_run False overtaking rwtest_init of None \<Rightarrow> False | Some t \<Rightarrow> mpc t = Failed"
  by (simp add: overtaking_def rwtest_init_def thread_act_def main_step.simps may_acquire_def holds_def
      nwaiters_def announce_def set_pc_def numeral_eq_Suc)

text \<open>
  C37: the test tells the two kinds of lock apart: with a lock that lets readers pass a waiting writer
  there is an interleaving in which the test fails.
\<close>

theorem rwl_priority_catches: "\<exists>s. rw_reachable False s \<and> mpc s = Failed"
proof -
  obtain t where t: "rw_run False overtaking rwtest_init = Some t" "mpc t = Failed"
    using overtaking_fails by (cases "rw_run False overtaking rwtest_init") auto
  then show ?thesis using rw_run_reachable [OF t(1) rw_start] by blast
qed

end
