(* ===== verification/Tester.thy ===== *)
theory Tester
  imports TestHash RWLock_Priority
begin

text \<open>
  \<open>threadlab/tester.c\<close>: the program that runs the tests of the thread lab. The three tests are an
  argument; the theorem puts in the models of \<open>testhash.c\<close> and \<open>testrwlock.c\<close>.
\<close>

text \<open>\<open>test_htable\<close> depends on the number of threads, a global variable, and on whether to resize.\<close>

record lab_tests =
  t_htable :: "int \<Rightarrow> int \<Rightarrow> unit run"
  t_rwl_basic :: "unit run"
  t_rwl_priority :: "unit run"

fun tester_options :: "(char \<times> string) list \<Rightarrow> int \<times> string \<Rightarrow> (int \<times> string) res" where
  "tester_options [] st = Inr st"
| "tester_options ((c, optarg) # opts) (num_threads, which_test) =
     (if c = CHR ''n'' then tester_options opts (c_atoi optarg, which_test)
      else if c = CHR ''t'' then tester_options opts (num_threads, optarg)
      else Inl (Exit 1))"

definition run_if :: "bool \<Rightarrow> unit run \<Rightarrow> int \<Rightarrow> int run" where
  "run_if b test tested = (if b then run_bind test (\<lambda>_. Some (Inr (tested + 1))) else Some (Inr tested))"

definition tester_main :: "lab_tests \<Rightarrow> (char \<times> string) list \<Rightarrow> int run" where
  "tester_main tests opts =
     run_bind (Some (tester_options opts (4, ''all''))) (\<lambda>(num_threads, which_test).
     run_bind (run_if (which_test = ''all'' \<or> which_test = ''htable'') (t_htable tests num_threads 0) 0) (\<lambda>tested.
     run_bind (run_if (which_test = ''all'' \<or> which_test = ''rwl'')
       (run_bind (t_rwl_basic tests) (\<lambda>_. t_rwl_priority tests)) tested) (\<lambda>tested.
     run_bind (run_if (which_test = ''all'' \<or> which_test = ''resize'') (t_htable tests num_threads 1) tested) (\<lambda>tested.
     if tested = 0 then Some (Inl (Exit 1)) else Some (Inr tested)))))"

text \<open>
  The tests of the lab: the table is tested on the schedules \<open>sched r mode\<close>, and the priority test has
  the outcome \<open>prio_outcome\<close> of the interleaving that happens.
\<close>

definition prio_outcome :: "rwtest \<Rightarrow> unit run" where
  "prio_outcome s = (if mpc s = Passed then Some (Inr ()) else if mpc s = Failed then test_fatal else None)"

definition lab_tests_of ::
  "(nat \<Rightarrow> int) \<Rightarrow> (int \<Rightarrow> addr) \<Rightarrow> (int \<Rightarrow> run_mode_t \<Rightarrow> (addr \<times> table_op) list) \<Rightarrow> 'l rwl_pkg \<Rightarrow> (nat \<Rightarrow> timespec) \<Rightarrow>
     rwtest \<Rightarrow> lab_tests" where
  "lab_tests_of rnd testvals sched pkg now s =
     \<lparr>t_htable = (\<lambda>n r. run_bind (test_htable (testkeys rnd) testvals now n (sched n INSERT) (sched n MIX) r)
                          (\<lambda>_. Some (Inr ()))),
      t_rwl_basic = run_bind (test_rwl_basic pkg now) (\<lambda>_. Some (Inr ())),
      t_rwl_priority = prio_outcome s\<rparr>"





text \<open>
  C25: with \<open>-n 0\<close>, or with an argument of \<open>-n\<close> that is not a number, every selection that includes a test of
  the table divides by zero in a message of \<open>test_htable\<close>, before a single key is inserted. The selection
  of the lock tests does not use the number of threads.
\<close>

theorem tester_no_threads:
  assumes "c_atoi k = 0" and "which \<in> {''all'', ''htable'', ''resize''}"
  shows "tester_main (lab_tests_of rnd testvals sched pkg now s) [(CHR ''n'', k), (CHR ''t'', which)] =
      Some (Inl DivByZero) \<and>
    tester_main (lab_tests_of rnd testvals sched pkg now s) [(CHR ''n'', k), (CHR ''t'', ''rwl'')] =
      tester_main (lab_tests_of rnd testvals sched pkg now s) [(CHR ''t'', ''rwl'')]"
  using assms
  by (auto simp: tester_main_def run_if_def lab_tests_of_def test_htable_no_threads)

theorem tester_no_threads_witness:
  "tester_main (lab_tests_of demo_rnd (\<lambda>i. 4096 + 4 * i) (\<lambda>n. demo_schedule) demo_rwl
      (\<lambda>_. \<lparr>ts_sec = 0, ts_nsec = 0\<rparr>) rwtest_init) [(CHR ''n'', ''four''), (CHR ''t'', ''all'')] =
     Some (Inl DivByZero)"
  by (rule tester_no_threads [THEN conjunct1]) (simp_all add: c_atoi_def digit_def)

end
