(* ===== verification/RKGrep.thy ===== *)
theory RKGrep
  imports C_Prelude
begin

text \<open>
  \<open>rklab/rkgrep.c\<close>: the modular arithmetic of the Rabin-Karp hash on \<open>long long\<close>, and the matching
  functions as shipped, which are stubs. The lemmas show that the arithmetic computes the rolling
  hash the comments of \<open>rkhash_init\<close> and \<open>rkhash_next\<close> prescribe, without overflow.
\<close>

section \<open>Modular arithmetic\<close>

definition PRIME :: int where "PRIME = 961748941"

definition rk_madd :: "int \<Rightarrow> int \<Rightarrow> int res" where
  "rk_madd a b = res_bind (chk_llong (a + b)) (\<lambda>s. Inr (s smod PRIME))"

definition rk_msub :: "int \<Rightarrow> int \<Rightarrow> int res" where
  "rk_msub a b =
     (if a > b then chk_llong (a - b)
      else res_bind (chk_llong (a + PRIME)) (\<lambda>s. chk_llong (s - b)))"

definition rk_mmul :: "int \<Rightarrow> int \<Rightarrow> int res" where
  "rk_mmul a b = res_bind (chk_llong (a * b)) (\<lambda>x. Inr (x smod PRIME))"

section \<open>The functions to be written\<close>

text \<open>
  The matchers return the number of matches and the value of \<open>*first_match_ind\<close>, which the stubs
  leave as it was. A function that ends without \<open>return\<close> returns what its caller finds, \<open>u\<close>.
\<close>

definition naive_substring_match :: "string \<Rightarrow> string \<Rightarrow> int \<Rightarrow> (int \<times> int) res" where
  "naive_substring_match pattern doc first_match_ind = Inr (- 1, first_match_ind)"

definition rkhash_init :: "int \<Rightarrow> string \<Rightarrow> int \<Rightarrow> int \<Rightarrow> (int \<times> int) res" where
  "rkhash_init u charbuf m h = Inr (u, h)"

definition rkhash_next :: "int \<Rightarrow> int \<Rightarrow> int \<Rightarrow> char \<Rightarrow> char \<Rightarrow> int res" where
  "rkhash_next u curr_hash h leftmost rightmost = Inr u"

definition rk_substring_match :: "string \<Rightarrow> string \<Rightarrow> int \<Rightarrow> (int \<times> int) res" where
  "rk_substring_match pattern doc first_match_ind = Inr (0, first_match_ind)"

definition rk_create_doc_bloom :: "int \<Rightarrow> string \<Rightarrow> int \<Rightarrow> 'b option res" where
  "rk_create_doc_bloom m doc bloom_size = Inr None"

definition rk_substring_match_using_bloom ::
  "string \<Rightarrow> string \<Rightarrow> 'b option \<Rightarrow> int \<Rightarrow> (int \<times> int) res" where
  "rk_substring_match_using_bloom pattern doc bf first_match_ind = Inr (0, first_match_ind)"

section \<open>What a matcher promises\<close>

text \<open>
  The arrays hold their terminating NUL; \<open>c_str\<close> is the string up to it, and reading on past the end
  of an array that holds none is undefined.
\<close>

type_synonym matcher = "string \<Rightarrow> string \<Rightarrow> int \<Rightarrow> (int \<times> int) res"

definition c_strlen :: "string \<Rightarrow> int res" where
  "c_strlen s = (if NUL \<in> set s then Inr (int (length (c_str s))) else Inl OutOfBounds)"

definition occurs_at :: "string \<Rightarrow> string \<Rightarrow> nat \<Rightarrow> bool" where
  "occurs_at p d i \<longleftrightarrow> take (length p) (drop i d) = p"

definition positions :: "string \<Rightarrow> string \<Rightarrow> nat list" where
  "positions p d = filter (occurs_at p d) [0..<length d]"

text \<open>
  The comments of the matchers: the number of positions where the pattern occurs is returned, and
  the first of them is stored, when there is one.
\<close>

definition match_spec :: "string \<Rightarrow> string \<Rightarrow> (int \<times> int) res \<Rightarrow> bool" where
  "match_spec pat doc r \<longleftrightarrow>
     (let ps = positions (c_str pat) (c_str doc) in
      \<exists>j. r = Inr (int (length ps), j) \<and> (ps \<noteq> [] \<longrightarrow> j = int (hd ps)))"

definition matcher_ok :: "matcher \<Rightarrow> bool" where
  "matcher_ok f \<longleftrightarrow>
     (\<forall>pat doc u. NUL \<in> set pat \<and> NUL \<in> set doc \<and> c_str pat \<noteq> [] \<longrightarrow> match_spec pat doc (f pat doc u))"

text \<open>A matcher that keeps the promise, by listing the positions.\<close>

definition ref_match :: matcher where
  "ref_match pat doc u =
     (let ps = positions (c_str pat) (c_str doc) in Inr (int (length ps), if ps = [] then u else int (hd ps)))"

lemma ref_match_ok: "matcher_ok ref_match"
  by (auto simp: matcher_ok_def match_spec_def ref_match_def Let_def)

lemma matcher_okD:
  assumes "matcher_ok f" "NUL \<in> set pat" "NUL \<in> set doc" "c_str pat \<noteq> []"
  shows "match_spec pat doc (f pat doc u)"
  using assms by (auto simp: matcher_ok_def)

lemma positions_in:
  assumes "i \<in> set (positions p d)" and "p \<noteq> []"
  shows "occurs_at p d i" "i + length p \<le> length d"
proof -
  show o: "occurs_at p d i" using assms(1) by (simp add: positions_def)
  have "length (take (length p) (drop i d)) = length p" using o by (simp add: occurs_at_def)
  with assms show "i + length p \<le> length d" by (auto simp: positions_def)
qed

lemma occurs_at_split:
  assumes "occurs_at p d i"
  shows "drop i d = p @ drop (i + length p) d"
  using assms append_take_drop_id [of "length p" "drop i d"] by (simp add: occurs_at_def add.commute)

lemma c_str_append_NUL: "NUL \<notin> set s \<Longrightarrow> c_str (s @ NUL # r) = s"
  unfolding c_str_def by (subst takeWhile_append2) auto

lemma c_str_split:
  assumes "NUL \<in> set s"
  obtains r where "s = c_str s @ NUL # r" "NUL \<notin> set (c_str s)"
proof -
  from split_list_first [OF assms] obtain a r where s: "s = a @ NUL # r" "NUL \<notin> set a" by auto
  then have "c_str s = a" by (simp add: c_str_append_NUL)
  with s that show ?thesis by simp
qed

section \<open>The rolling hash\<close>

lemma PRIME_pos [simp]: "0 < PRIME" by (simp add: PRIME_def)

lemma rk_madd_mod:
  assumes "0 \<le> a" "a \<le> PRIME" "0 \<le> b" "b \<le> PRIME"
  shows "rk_madd a b = Inr ((a + b) mod PRIME)"
  using assms by (simp add: rk_madd_def in_llong_def PRIME_def smod_nonneg)

lemma rk_mmul_mod:
  assumes "0 \<le> a" "a \<le> PRIME" "0 \<le> b" "b \<le> PRIME"
  shows "rk_mmul a b = Inr ((a * b) mod PRIME)"
proof -
  have "a * b \<le> PRIME * PRIME" using assms by (intro mult_mono) auto
  then have "in_llong (a * b)"
    using mult_nonneg_nonneg [OF assms(1,3)] by (intro in_llongI) (simp_all add: PRIME_def)
  with assms show ?thesis by (simp add: rk_mmul_def smod_nonneg)
qed

lemma rk_msub_value:
  assumes "0 \<le> a" "a \<le> PRIME" "0 \<le> b" "b \<le> PRIME"
  shows "rk_msub a b = Inr (if a > b then a - b else a + PRIME - b)"
  using assms by (simp add: rk_msub_def in_llong_def PRIME_def)

text \<open>The hash of a window as the comment of \<open>rkhash_init\<close> defines it, and the power \<open>256\<^sup>m\<close>.\<close>

definition rk_hash_spec :: "string \<Rightarrow> int" where
  "rk_hash_spec w = (\<Sum>j<length w. 256 ^ (length w - 1 - j) * schar (w ! j)) mod PRIME"

definition rk_pow :: "nat \<Rightarrow> int" where
  "rk_pow m = 256 ^ m mod PRIME"

text \<open>The update \<open>curr_hash * 256 - leftmost * h + rightmost\<close> of the comment of \<open>rkhash_next\<close>.\<close>

definition rk_update :: "int \<Rightarrow> int \<Rightarrow> char \<Rightarrow> char \<Rightarrow> int res" where
  "rk_update curr_hash h leftmost rightmost =
     res_bind (rk_mmul curr_hash 256) (\<lambda>x.
     res_bind (rk_mmul (schar leftmost) h) (\<lambda>y.
     res_bind (rk_msub x y) (\<lambda>z.
     rk_madd z (schar rightmost))))"

definition window_sum :: "string \<Rightarrow> int" where
  "window_sum w = (\<Sum>j<length w. 256 ^ (length w - 1 - j) * schar (w ! j))"

lemma window_sum_Cons: "window_sum (c # w) = schar c * 256 ^ length w + window_sum w"
  unfolding window_sum_def length_Cons
  by (subst sum.lessThan_Suc_shift) (simp add: mult.commute)

lemma window_sum_snoc: "window_sum (w @ [c]) = 256 * window_sum w + schar c"
proof -
  have "(\<Sum>j<length w. 256 ^ (length w - j) * schar ((w @ [c]) ! j)) =
      (\<Sum>j<length w. 256 * (256 ^ (length w - 1 - j) * schar (w ! j)))"
  proof (rule sum.cong)
    fix j assume "j \<in> {..<length w}"
    then have "length w - j = Suc (length w - 1 - j)" and "j < length w" by auto
    then show "256 ^ (length w - j) * schar ((w @ [c]) ! j) =
        256 * (256 ^ (length w - 1 - j) * schar (w ! j))"
      by (simp only: power_Suc nth_append if_True mult.assoc)
  qed simp
  then show ?thesis by (simp add: window_sum_def sum_distrib_left)
qed

lemma rk_hash_spec_alt: "rk_hash_spec w = window_sum w mod PRIME"
  by (simp add: rk_hash_spec_def window_sum_def)

lemma mod_PRIME_bounds: "0 \<le> x mod PRIME" "x mod PRIME \<le> PRIME"
  by (simp, rule order_less_imp_le, rule pos_mod_bound, simp)

lemma schar_ascii: "of_char c < (128 :: int) \<Longrightarrow> 0 \<le> schar c \<and> schar c \<le> PRIME"
  using of_char_nonneg [of c] by (simp add: schar_def PRIME_def)

text \<open>\<open>msub\<close> is off by \<open>PRIME\<close> for equal arguments, but always congruent to the difference.\<close>

lemma rk_msub_cong:
  assumes "0 \<le> a" "a \<le> PRIME" "0 \<le> b" "b \<le> PRIME"
  obtains z where "rk_msub a b = Inr z" "0 \<le> z" "z \<le> PRIME" "z mod PRIME = (a - b) mod PRIME"
proof -
  have "(a + PRIME - b) mod PRIME = (a - b) mod PRIME"
    using mod_add_self2 [of "a - b" PRIME] by (simp add: algebra_simps)
  with rk_msub_value [OF assms] that show ?thesis
    using assms by (cases "a > b") auto
qed

lemma rk_update_ok:
  assumes "of_char l < (128 :: int)" and "of_char r < (128 :: int)"
  shows "rk_update (rk_hash_spec (l # w)) (rk_pow (length (l # w))) l r = Inr (rk_hash_spec (w @ [r]))"
proof -
  let ?H = "rk_hash_spec (l # w)" and ?h = "rk_pow (length (l # w))"
  note l = schar_ascii [OF assms(1)] and r = schar_ascii [OF assms(2)]
  have H: "0 \<le> ?H" "?H \<le> PRIME" "0 \<le> ?h" "?h \<le> PRIME"
    by (simp_all add: rk_hash_spec_alt rk_pow_def mod_PRIME_bounds)
  have x: "rk_mmul ?H 256 = Inr (?H * 256 mod PRIME)"
    by (rule rk_mmul_mod) (use H in \<open>simp_all add: PRIME_def\<close>)
  have y: "rk_mmul (schar l) ?h = Inr (schar l * ?h mod PRIME)"
    by (rule rk_mmul_mod) (use H l in simp_all)
  obtain z where z: "rk_msub (?H * 256 mod PRIME) (schar l * ?h mod PRIME) = Inr z" "0 \<le> z" "z \<le> PRIME"
    "z mod PRIME = (?H * 256 mod PRIME - schar l * ?h mod PRIME) mod PRIME"
    by (rule rk_msub_cong [OF mod_PRIME_bounds mod_PRIME_bounds])
  have "z mod PRIME = (window_sum (l # w) * 256 - schar l * 256 ^ length (l # w)) mod PRIME"
    unfolding z(4) rk_hash_spec_alt rk_pow_def by (simp only: mod_simps)
  also have "window_sum (l # w) * 256 - schar l * 256 ^ length (l # w) = 256 * window_sum w"
    unfolding window_sum_Cons by (simp add: algebra_simps)
  finally have "(z + schar r) mod PRIME = (256 * window_sum w + schar r) mod PRIME"
    by (metis mod_add_left_eq)
  then have "rk_madd z (schar r) = Inr (rk_hash_spec (w @ [r]))"
    using rk_madd_mod [OF z(2,3)] r by (simp add: rk_hash_spec_alt window_sum_snoc)
  then show ?thesis by (simp only: rk_update_def x y z(1) res_bind.simps)
qed

text \<open>
  C32: on ASCII text, the update of the comment of \<open>rkhash_next\<close>, computed with \<open>mmul\<close>, \<open>msub\<close> and
  \<open>madd\<close>, turns the hash of a window into the hash of the window one character further, reduced and
  without overflow; that \<open>msub\<close> returns \<open>PRIME\<close> for equal arguments does no harm there.
\<close>

theorem rk_update_rolls:
  assumes "of_char l < (128 :: int)" and "of_char r < (128 :: int)"
  shows "rk_update (rk_hash_spec (l # w)) (rk_pow (length (l # w))) l r = Inr (rk_hash_spec (w @ [r]))"
  by (rule rk_update_ok [OF assms])

theorem rk_update_rolls_witness:
  "rk_update (rk_hash_spec ''abr'') (rk_pow 3) (CHR ''a'') (CHR ''a'') = Inr (rk_hash_spec ''bra'')"
  using rk_update_rolls [of "CHR ''a''" "CHR ''a''" "''br''"] by (simp add: numeral_3_eq_3)

text \<open>
  \<open>msub\<close> is not subtraction modulo \<open>PRIME\<close> for equal arguments, as its comment says it is: it
  returns \<open>PRIME\<close> where the difference is 0.
\<close>

theorem rk_msub_equal:
  assumes "0 \<le> a" and "a \<le> PRIME"
  shows "rk_msub a a = Inr PRIME"
  using rk_msub_value [OF assms assms] by simp

theorem rk_msub_equal_witness: "rk_msub 5 5 = Inr PRIME"
  using rk_msub_equal [of 5] by (simp add: PRIME_def)

end
