(* ===== verification/RKGrep_Test.thy ===== *)
theory RKGrep_Test
  imports RKGrep
begin

text \<open>
  The parts of \<open>rklab/rkgrep_test.c\<close> that do not need the reference object file: the random documents,
  and the test of the naive matcher. \<open>rnd i\<close> is what the \<open>i\<close>th call of \<open>rand\<close> returns; functions that
  call it take the number \<open>r\<close> of calls made before. What is measured and printed is left out.
\<close>

section \<open>Random documents\<close>

fun word_loop :: "(nat \<Rightarrow> int) \<Rightarrow> nat \<Rightarrow> nat \<Rightarrow> string \<Rightarrow> int \<Rightarrow> (string \<times> nat) res" where
  "word_loop rnd 0 r buf i = Inr (buf, r)"
| "word_loop rnd (Suc k) r buf i =
     res_bind (put_arr buf i (char_of (97 + rnd r smod 26))) (\<lambda>buf'. word_loop rnd k (Suc r) buf' (i + 1))"

text \<open>The word is written from index \<open>off\<close> of \<open>buf\<close> on.\<close>

definition generate_random_word :: "(nat \<Rightarrow> int) \<Rightarrow> nat \<Rightarrow> string \<Rightarrow> int \<Rightarrow> int \<Rightarrow> (string \<times> nat) res" where
  "generate_random_word rnd r buf off len =
     res_bind (word_loop rnd (nat len) r buf off) (\<lambda>(buf', r').
     res_bind (put_arr buf' (off + len) NUL) (\<lambda>buf''. Inr (buf'', r')))"

definition word_length :: "(nat \<Rightarrow> int) \<Rightarrow> nat \<Rightarrow> int \<Rightarrow> int \<Rightarrow> int" where
  "word_length rnd r len i =
     (let word_len = rnd r smod 5 + 5 in
      if word_len > len - i then len - i else if word_len = len - i - 1 then word_len + 1 else word_len)"

lemma word_length_bounds:
  assumes "i < len"
  shows "0 < word_length rnd r len i" and "i + word_length rnd r len i \<le> len"
proof -
  have "\<bar>rnd r smod 5\<bar> < 5" by (simp add: signed_modulo_int_def abs_mult)
  with assms show "0 < word_length rnd r len i" "i + word_length rnd r len i \<le> len"
    by (auto simp: word_length_def Let_def)
qed

function document_loop :: "(nat \<Rightarrow> int) \<Rightarrow> int \<Rightarrow> int \<Rightarrow> nat \<Rightarrow> string \<Rightarrow> string res" where
  "document_loop rnd len i r buf =
     (if i < len
      then (let word_len = word_length rnd r len i in
            case generate_random_word rnd (Suc r) buf i word_len of
              Inl e \<Rightarrow> Inl e
            | Inr (buf1, r1) \<Rightarrow>
                if i + word_len = len then Inr buf1
                else case put_arr buf1 (i + word_len) (CHR '' '') of
                       Inl e \<Rightarrow> Inl e
                     | Inr buf2 \<Rightarrow> document_loop rnd len (i + word_len) r1 buf2)
      else Inr buf)"
  by pat_completeness auto
termination
  by (relation "measure (\<lambda>(rnd, len, i, r, buf). nat (len - i))") (auto simp: word_length_bounds)

declare document_loop.simps [simp del]

text \<open>\<open>buf\<close> is the array \<open>malloc\<close> returns, of \<open>len + 1\<close> bytes.\<close>

definition generate_random_document :: "(nat \<Rightarrow> int) \<Rightarrow> string \<Rightarrow> int \<Rightarrow> string res" where
  "generate_random_document rnd buf len =
     res_bind (document_loop rnd len 0 0 buf) (\<lambda>buf'. put_arr buf' len NUL)"

definition lowercase :: "char \<Rightarrow> bool" where
  "lowercase c \<longleftrightarrow> 97 \<le> (of_char c :: int) \<and> (of_char c :: int) \<le> 122"

lemma lowercase_rand:
  fixes rnd :: "nat \<Rightarrow> int"
  assumes "0 \<le> rnd r"
  shows "lowercase (char_of (97 + rnd r smod 26))"
proof -
  have "rnd r smod 26 = rnd r mod 26" using assms by (simp add: smod_nonneg)
  moreover from this have "(of_char (char_of (97 + rnd r smod 26) :: char) :: int) = 97 + rnd r mod 26"
    by (simp only: of_char_of) simp
  ultimately show ?thesis by (simp add: lowercase_def)
qed

lemma word_loop_value:
  assumes "0 \<le> i" and "nat i + k \<le> length buf" and "\<forall>j. 0 \<le> rnd j"
  shows "\<exists>w. word_loop rnd k r buf i = Inr (take (nat i) buf @ w @ drop (nat i + k) buf, r + k) \<and>
    length w = k \<and> list_all lowercase w"
  using assms(1,2)
proof (induction k arbitrary: i r buf)
  case (Suc k)
  let ?c = "char_of (97 + rnd r smod 26)" and ?b = "buf[nat i := char_of (97 + rnd r smod 26)]"
  have "0 \<le> i + 1" "nat (i + 1) + k \<le> length ?b" using Suc.prems by simp_all
  from Suc.IH [OF this, of "Suc r"]
  obtain w where w: "word_loop rnd k (Suc r) ?b (i + 1) =
      Inr (take (nat (i + 1)) ?b @ w @ drop (nat (i + 1) + k) ?b, Suc r + k)" "length w = k" "list_all lowercase w"
    by blast
  have "take (nat (i + 1)) ?b = take (nat i) buf @ [?c]" "drop (nat (i + 1) + k) ?b = drop (nat i + Suc k) buf"
    using Suc.prems by (simp_all add: nat_add_distrib take_Suc_conv_app_nth)
  with w Suc.prems lowercase_rand [of rnd r] assms(3) show ?case
    by (intro exI [of _ "?c # w"]) simp
qed simp

lemma generate_random_word_value:
  assumes "0 \<le> off" and "0 \<le> len" and "off + len < int (length buf)" and "\<forall>j. 0 \<le> rnd j"
  shows "\<exists>w. generate_random_word rnd r buf off len =
      Inr (take (nat off) buf @ w @ NUL # drop (nat (off + len) + 1) buf, r + nat len) \<and>
    length w = nat len \<and> list_all lowercase w"
proof -
  let ?o = "nat off" and ?n = "nat len"
  have lt: "?o + ?n < length buf" using assms by simp
  obtain w where w: "word_loop rnd ?n r buf off = Inr (take ?o buf @ w @ drop (?o + ?n) buf, r + ?n)"
    "length w = ?n" "list_all lowercase w"
    using word_loop_value [OF assms(1) less_imp_le [OF lt] assms(4)] by blast
  have d: "drop (?o + ?n) buf = buf ! (?o + ?n) # drop (Suc (?o + ?n)) buf" using lt by (rule Cons_nth_drop_Suc [symmetric])
  have "put_arr (take ?o buf @ w @ drop (?o + ?n) buf) (off + len) NUL =
      Inr (take ?o buf @ w @ NUL # drop (Suc (?o + ?n)) buf)"
    using assms w(2) lt by (simp add: d nat_add_distrib list_update_append min_def)
  with w assms(1,2) show ?thesis
    by (intro exI [of _ w]) (simp add: generate_random_word_def nat_add_distrib)
qed

lemma put_arr_append: "int (length xs) = i \<Longrightarrow> put_arr (xs @ y # ys) i v = Inr (xs @ v # ys)"
  by (auto simp: put_arr_def)

lemma put_arr_append1: "q < length xs \<Longrightarrow> put_arr (xs @ ys) (int q) v = Inr (xs[q := v] @ ys)"
  by (simp add: put_arr_def list_update_append)

lemma document_loop_value:
  assumes "\<forall>j. 0 \<le> rnd j" and "0 \<le> i" and "i < len" and "int (length buf) = len + 1"
    and "list_all lowercase (take (nat i) buf)"
  shows "\<exists>doc. document_loop rnd len i r buf = Inr (doc @ [NUL]) \<and> int (length doc) = len \<and>
    list_all lowercase doc"
  using assms(2-)
proof (induction "nat (len - i)" arbitrary: i r buf rule: less_induct)
  case less
  let ?w = "word_length rnd r len i" and ?rest = "drop (nat (i + word_length rnd r len i) + 1) buf"
  note wb = word_length_bounds [OF less.prems(2), of rnd r]
  have "off + n < int (length buf)" if "off + n \<le> len" for off n using that less.prems(3) by simp
  then obtain w where w: "generate_random_word rnd (Suc r) buf i ?w =
      Inr (take (nat i) buf @ w @ NUL # ?rest, Suc r + nat ?w)" "length w = nat ?w" "list_all lowercase w"
    using generate_random_word_value [OF less.prems(1) less_imp_le [OF wb(1)] _ assms(1)] wb(2) by blast
  let ?doc = "take (nat i) buf @ w"
  have len: "int (length ?doc) = i + ?w" using less.prems w(2) wb by simp
  have low: "list_all lowercase ?doc" using less.prems(4) w(3) by simp
  show ?case
  proof (cases "i + ?w = len")
    case True
    then have "?rest = []" using less.prems(3) by simp
    with True w(1) less.prems(2) len low show ?thesis
      by (intro exI [of _ ?doc]) (simp add: document_loop.simps [of rnd len i] Let_def)
  next
    case False
    let ?b = "?doc @ CHR '' '' # ?rest"
    have lb: "int (length ?b) = len + 1" using less.prems(1-3) w(2) wb False by simp
    have "put_arr (take (nat i) buf @ w @ NUL # ?rest) (i + ?w) (CHR '' '') = Inr ?b"
      using put_arr_append [OF len] by simp
    then have step: "document_loop rnd len i r buf = document_loop rnd len (i + ?w) (Suc r + nat ?w) ?b"
      using w(1) less.prems(2) False by (subst document_loop.simps) (simp add: Let_def)
    have "take (nat (i + ?w)) ?b = ?doc" by (metis append_eq_conv_conj len nat_int)
    then have "list_all lowercase (take (nat (i + ?w)) ?b)" using low by metis
    moreover have "nat (len - (i + ?w)) < nat (len - i)" "0 \<le> i + ?w" "i + ?w < len"
      using wb False less.prems(1,2) by simp_all
    ultimately show ?thesis unfolding step using less.hyps lb by blast
  qed
qed

lemma random_document_ok:
  assumes "\<forall>j. 0 \<le> rnd j" and "0 \<le> len" and "int (length buf) = len + 1"
  shows "\<exists>doc. generate_random_document rnd buf len = Inr (doc @ [NUL]) \<and> int (length doc) = len \<and>
    list_all lowercase doc \<and> CHR '' '' \<notin> set doc"
proof -
  have no_blank: "CHR '' '' \<notin> set doc" if "list_all lowercase doc" for doc
    using that by (auto simp: list_all_iff lowercase_def)
  show ?thesis
  proof (cases "len = 0")
    case True
    with assms(3) obtain c where "buf = [c]" by (cases buf) auto
    with True show ?thesis by (simp add: generate_random_document_def document_loop.simps)
  next
    case False
    then obtain doc where "document_loop rnd len 0 0 buf = Inr (doc @ [NUL])" "int (length doc) = len"
      "list_all lowercase doc"
      using document_loop_value [OF assms(1), of 0 len buf] assms(2,3) by auto
    then show ?thesis
      using no_blank by (auto simp: generate_random_document_def put_arr_def nat_eq_iff)
  qed
qed

text \<open>
  \<open>generate_random_document\<close> fills the array exactly: the document has \<open>len\<close> characters and its NUL,
  nothing is written outside, for all values of \<open>rand\<close>. All of its characters are lower-case letters, so
  it is one single word and not, as the comment says, a sequence of words: the blank after a word is
  overwritten by the next one.
\<close>

theorem random_document_one_word:
  assumes "\<forall>j. 0 \<le> rnd j" and "0 \<le> len" and "int (length buf) = len + 1"
  shows "\<exists>doc. generate_random_document rnd buf len = Inr (doc @ [NUL]) \<and> int (length doc) = len \<and>
    list_all lowercase doc \<and> CHR '' '' \<notin> set doc"
  by (rule random_document_ok [OF assms])

theorem random_document_one_word_witness:
  "\<exists>doc. generate_random_document (\<lambda>j. int j) (replicate 101 NUL) 100 = Inr (doc @ [NUL]) \<and>
    int (length doc) = 100 \<and> list_all lowercase doc \<and> CHR '' '' \<notin> set doc"
  by (rule random_document_one_word) simp_all

section \<open>The test of the naive matcher\<close>

text \<open>\<open>panic_cond\<close> of \<open>panic_cond.h\<close> ends the program by \<open>abort\<close>, as a failed assertion does.\<close>

definition rk_panic_cond :: "bool \<Rightarrow> unit res" where
  "rk_panic_cond b = c_assert b"

text \<open>\<open>strncpy\<close> from index \<open>pos\<close> of \<open>doc\<close>: up to a NUL, filled up with NUL.\<close>

definition c_strncpy :: "string \<Rightarrow> int \<Rightarrow> int \<Rightarrow> string res" where
  "c_strncpy doc pos n =
     (let src = drop (nat pos) doc; s = take (nat n) (c_str src) in
      if nat n \<le> length src \<or> NUL \<in> set src then Inr (s @ replicate (nat n - length s) NUL)
      else Inl OutOfBounds)"

definition make_pattern :: "(nat \<Rightarrow> int) \<Rightarrow> nat \<Rightarrow> string \<Rightarrow> int \<Rightarrow> int \<Rightarrow> string res" where
  "make_pattern rnd r doc pos pattern_len =
     (if pos \<ge> 0 then res_bind (c_strncpy doc pos pattern_len) (\<lambda>s. Inr (s @ [NUL]))
      else
        res_bind (generate_random_word rnd r (replicate (nat (pattern_len + 1)) NUL) 0 pattern_len) (\<lambda>(p, _).
        put_arr p (pattern_len - 1) (CHR ''!'')))"

text \<open>\<open>match\<close> is the function called, with the filter given if there is one; \<open>u\<close> is in \<open>first_match_ind\<close>.\<close>

definition test_match_at_pos ::
  "matcher \<Rightarrow> (nat \<Rightarrow> int) \<Rightarrow> nat \<Rightarrow> int \<Rightarrow> string \<Rightarrow> int \<Rightarrow> int \<Rightarrow> int \<Rightarrow> unit res" where
  "test_match_at_pos match rnd r u doc pos expected_n_matches pattern_len =
     res_bind (make_pattern rnd r doc pos pattern_len) (\<lambda>p.
     res_bind (match p doc u) (\<lambda>(n_matches, first_match_ind).
     res_bind (rk_panic_cond (expected_n_matches \<ge> 0 \<longrightarrow> n_matches = expected_n_matches)) (\<lambda>_.
     rk_panic_cond (expected_n_matches \<noteq> 0 \<longrightarrow> first_match_ind = pos))))"

fun worst_case_loop :: "matcher \<Rightarrow> int \<Rightarrow> (nat \<Rightarrow> int) \<Rightarrow> int \<Rightarrow> int \<Rightarrow> nat \<Rightarrow> nat \<Rightarrow> string \<Rightarrow> unit res" where
  "worst_case_loop match u rnd m n 0 r doc = Inr ()"
| "worst_case_loop match u rnd m n (Suc k) r doc =
     (if n - m = 0 then Inl DivByZero
      else
        (let pos = rnd r smod (n - m) in
         res_bind (put_arr doc (pos + m - 1) (CHR ''b'')) (\<lambda>doc1.
         res_bind (test_match_at_pos match rnd (Suc r) u doc1 pos 1 m) (\<lambda>_.
         res_bind (put_arr doc1 (pos + m - 1) (CHR ''a'')) (\<lambda>doc2.
         worst_case_loop match u rnd m n k (Suc r) doc2)))))"

text \<open>\<open>m\<close> and \<open>n\<close> are \<open>test_pattern_len\<close> and \<open>test_document_len\<close>.\<close>

definition test_naive :: "matcher \<Rightarrow> int \<Rightarrow> (nat \<Rightarrow> int) \<Rightarrow> int \<Rightarrow> int \<Rightarrow> unit res" where
  "test_naive match u rnd m n =
     (let doc = ''abracadabra'' @ [NUL] in
      res_bind (test_match_at_pos match rnd 0 u doc 0 2 3) (\<lambda>_.
      res_bind (test_match_at_pos match rnd 0 u doc 6 1 3) (\<lambda>_.
      res_bind (match (''aaa'' @ [NUL]) doc u) (\<lambda>(n_matches, pos).
      res_bind (rk_panic_cond (n_matches = 0)) (\<lambda>_.
      worst_case_loop match u rnd m n 100 0 (replicate (nat n) (CHR ''a'') @ [NUL]))))))"

lemma test_match_ok:
  assumes "matcher_ok match" and "0 \<le> pos" and "make_pattern rnd r doc pos m = Inr p"
    and "NUL \<in> set p" "NUL \<in> set doc" "c_str p \<noteq> []"
    and "positions (c_str p) (c_str doc) = nat pos # ps" and "e = int (Suc (length ps))"
  shows "test_match_at_pos match rnd r u doc pos e m = Inr ()"
proof -
  have "match p doc u = Inr (e, pos)"
    using matcher_okD [OF assms(1,4-6), of u] assms(2,7,8) by (auto simp: match_spec_def Let_def)
  with assms(3) show ?thesis by (simp add: test_match_at_pos_def rk_panic_cond_def)
qed

text \<open>The pattern taken from the worst-case document occurs there only once.\<close>

lemma worst_case_positions:
  assumes "0 < m" and "k + m \<le> n"
  shows "positions (replicate (m - 1) (CHR ''a'') @ [CHR ''b''])
      ((replicate n (CHR ''a''))[k + m - 1 := CHR ''b'']) = [k]"
proof -
  let ?p = "replicate (m - 1) (CHR ''a'') @ [CHR ''b'']" and ?d = "(replicate n (CHR ''a''))[k + m - 1 := CHR ''b'']"
  have "occurs_at ?p ?d i \<longleftrightarrow> i = k" if "i < n" for i
  proof
    assume o: "occurs_at ?p ?d i"
    have le: "i + m \<le> n"
      using arg_cong [OF o [unfolded occurs_at_def], of length] assms(1) that by simp
    have "?d ! (i + (m - 1)) = ?p ! (m - 1)"
      using occurs_at_split [OF o] nth_drop [of i ?d "m - 1"] le assms(1) by (simp add: nth_append)
    then show "i = k" using assms le by (auto simp: nth_append nth_list_update split: if_splits)
  next
    assume "i = k"
    moreover have "take m (drop k ?d) = ?p"
      using assms by (intro nth_equalityI) (auto simp: nth_append nth_list_update)
    ultimately show "occurs_at ?p ?d i" using assms(1) by (simp add: occurs_at_def)
  qed
  then have "positions ?p ?d = filter (\<lambda>i. i = k) [0..<n]"
    by (auto simp: positions_def intro!: filter_cong)
  also have "\<dots> = [k]"
  proof -
    have "[0..<n] = [0..<k] @ k # [Suc k..<n]" using assms upt_add_eq_append [of 0 k "n - k"] by (simp add: upt_rec)
    then show ?thesis by (simp add: filter_empty_conv)
  qed
  finally show ?thesis .
qed

lemma worst_case_pattern:
  assumes "0 < m" and "k + m \<le> n"
  shows "make_pattern rnd r ((replicate n (CHR ''a''))[k + m - 1 := CHR ''b''] @ [NUL]) (int k) (int m) =
    Inr ((replicate (m - 1) (CHR ''a'') @ [CHR ''b'']) @ [NUL])"
proof -
  let ?d = "(replicate n (CHR ''a''))[k + m - 1 := CHR ''b'']"
  have "NUL \<notin> set (drop k ?d)"
    using set_drop_subset [of k ?d] set_update_subset_insert [of "replicate n (CHR ''a'')"]
    by (fastforce simp: NUL_def)
  then have c: "c_str (drop k (?d @ [NUL])) = drop k ?d" using assms by (simp add: c_str_append_NUL)
  have "take m (drop k ?d) = replicate (m - 1) (CHR ''a'') @ [CHR ''b'']"
    using assms by (intro nth_equalityI) (auto simp: nth_append nth_list_update)
  with c assms show ?thesis by (simp add: make_pattern_def c_strncpy_def Let_def)
qed

lemma worst_case_loop_ok:
  assumes "matcher_ok match" and "0 < m" and "m < n" and "\<forall>j. 0 \<le> rnd j"
  shows "worst_case_loop match u rnd (int m) (int n) c r (replicate n (CHR ''a'') @ [NUL]) = Inr ()"
proof (induction c arbitrary: r)
  case (Suc c)
  let ?a = "replicate n (CHR ''a'')"
  define k where "k = nat (rnd r smod (int n - int m))"
  have s: "rnd r smod (int n - int m) = rnd r mod (int n - int m)" using assms(3,4) by (simp add: smod_nonneg)
  then have k: "rnd r smod (int n - int m) = int k" using assms(3) by (simp add: k_def)
  have "rnd r mod (int n - int m) < int n - int m" using assms(3) by simp
  then have km: "k + m \<le> n" using s k by simp
  let ?d = "?a[k + m - 1 := CHR ''b'']"
  have i: "int k + int m - 1 = int (k + m - 1)" using assms(2) by simp
  have put: "put_arr (?a @ [NUL]) (int k + int m - 1) (CHR ''b'') = Inr (?d @ [NUL])"
    unfolding i using assms(2) km by (intro put_arr_append1) simp
  have put2: "put_arr (?d @ [NUL]) (int k + int m - 1) (CHR ''a'') = Inr (?a @ [NUL])"
    unfolding i using assms(2) km by (subst put_arr_append1) (simp_all add: list_update_same_conv)
  have nul: "NUL \<notin> set ?d" "NUL \<notin> set (replicate (m - 1) (CHR ''a'') @ [CHR ''b''])"
    using set_update_subset_insert [of ?a] by (fastforce simp: NUL_def)+
  note cs = c_str_append_NUL [OF nul(1), of "[]"] c_str_append_NUL [OF nul(2), of "[]"]
  have "test_match_at_pos match rnd (Suc r) u (?d @ [NUL]) (int k) 1 (int m) = Inr ()"
  proof (rule test_match_ok [OF assms(1) _ worst_case_pattern [OF assms(2) km]])
    show "positions (c_str ((replicate (m - 1) (CHR ''a'') @ [CHR ''b'']) @ [NUL])) (c_str (?d @ [NUL])) = nat (int k) # []"
      unfolding cs worst_case_positions [OF assms(2) km] by simp
    show "c_str ((replicate (m - 1) (CHR ''a'') @ [CHR ''b'']) @ [NUL]) \<noteq> []" unfolding cs by simp
  qed simp_all
  with put put2 Suc.IH assms(3) show ?case by (simp add: k Let_def)
qed simp

lemma test_naive_ok:
  assumes "0 < m" and "m < n" and "\<forall>j. 0 \<le> rnd j"
  shows "(matcher_ok match \<longrightarrow> test_naive match u rnd (int m) (int n) = Inr ()) \<and>
    test_naive naive_substring_match u rnd (int m) (int n) = Inl AssertFail"
proof -
  let ?doc = "''abracadabra'' @ [NUL]"
  have pat: "make_pattern rnd 0 ?doc 0 3 = Inr (''abr'' @ [NUL])" "make_pattern rnd 0 ?doc 6 3 = Inr (''dab'' @ [NUL])"
    by (simp_all add: make_pattern_def c_strncpy_def c_str_def NUL_def Let_def)
  have pos: "positions ''abr'' ''abracadabra'' = [0, 7]" "positions ''dab'' ''abracadabra'' = [6]"
    "positions ''aaa'' ''abracadabra'' = []"
    by (simp_all add: positions_def occurs_at_def upt_rec)
  have cs: "c_str ?doc = ''abracadabra''" "c_str (''abr'' @ [NUL]) = ''abr''" "c_str (''dab'' @ [NUL]) = ''dab''"
    "c_str (''aaa'' @ [NUL]) = ''aaa''"
    by (rule c_str_append_NUL, simp add: NUL_def)+
  have stub: "test_naive naive_substring_match u rnd (int m) (int n) = Inl AssertFail"
    unfolding test_naive_def Let_def test_match_at_pos_def pat
    by (simp add: naive_substring_match_def rk_panic_cond_def)
  have "test_naive match u rnd (int m) (int n) = Inr ()" if ok: "matcher_ok match"
  proof -
    have "test_match_at_pos match rnd 0 u ?doc 0 2 3 = Inr ()"
      by (rule test_match_ok [OF ok _ pat(1), where ps = "[7]"]) (simp_all only: cs pos, simp_all)
    moreover have "test_match_at_pos match rnd 0 u ?doc 6 1 3 = Inr ()"
      by (rule test_match_ok [OF ok _ pat(2), where ps = "[]"]) (simp_all only: cs pos, simp_all)
    moreover obtain j where "match (''aaa'' @ [NUL]) ?doc u = Inr (0, j)"
      using matcher_okD [OF ok, of "''aaa'' @ [NUL]" ?doc u] unfolding match_spec_def cs pos Let_def by auto
    ultimately show ?thesis
      unfolding test_naive_def Let_def using worst_case_loop_ok [OF ok assms, of u 100 0] by (simp add: rk_panic_cond_def)
  qed
  with stub show ?thesis by blast
qed

text \<open>
  The test of the naive matcher accepts every correct matcher: with a function that keeps the
  promise of \<open>rkgrep.c\<close>, for pattern and document lengths with \<open>0 < m < n\<close>, it passes for all values of
  \<open>rand\<close>; and it rejects the shipped stub.
\<close>

theorem test_naive_verdict:
  assumes "0 < m" and "m < n" and "\<forall>j. 0 \<le> rnd j"
  shows "(matcher_ok match \<longrightarrow> test_naive match u rnd (int m) (int n) = Inr ()) \<and>
    test_naive naive_substring_match u rnd (int m) (int n) = Inl AssertFail"
  by (rule test_naive_ok [OF assms])

theorem test_naive_verdict_witness:
  "test_naive ref_match 0 (\<lambda>j. int j) 800 100000 = Inr () \<and>
   test_naive naive_substring_match 0 (\<lambda>j. int j) 800 100000 = Inl AssertFail"
  using test_naive_verdict [of 800 100000 "\<lambda>j. int j" ref_match 0] ref_match_ok by simp

end
