(* ===== verification/Bloom.thy ===== *)
theory Bloom
  imports C_Alloc
begin

text \<open>
  \<open>rklab/bloom.c\<close>: the hash functions of the Bloom filter, its creation and the test of one bit of
  its bitmap; \<open>bloom_add\<close> and \<open>bloom_query\<close> are stubs. The lemmas show that the hash functions do not
  overflow, that a new filter is empty, and exactly which bits \<open>bloom_bit_at_pos\<close> looks at.
\<close>

section \<open>The hash functions\<close>

definition H1PRIME :: int where "H1PRIME = 4189793"

definition H2PRIME :: int where "H2PRIME = 3296731"

definition BLOOM_HASH_NUM :: int where "BLOOM_HASH_NUM = 10"

text \<open>The sum is a \<open>long long\<close>; only \<open>i*i\<close> is computed as an \<open>int\<close>, and the result is converted to one.\<close>

definition hash_i :: "int \<Rightarrow> int \<Rightarrow> int res" where
  "hash_i i x =
     res_bind (chk_llong (i * (x smod H2PRIME))) (\<lambda>p.
     res_bind (chk_llong (x smod H1PRIME + p)) (\<lambda>s.
     res_bind (chk_llong (s + 1)) (\<lambda>s1.
     res_bind (chk_int (i * i)) (\<lambda>sq.
     res_bind (chk_llong (s1 + sq)) (\<lambda>v.
     Inr (signed_take_bit 31 v))))))"

section \<open>The filter\<close>

record bloom_filter =
  buf :: "byte list"
  bsz :: int

text \<open>\<open>mal_bf\<close> and \<open>mal_buf n\<close> tell whether \<open>malloc\<close> serves the structure and a buffer of \<open>n\<close> bytes.\<close>

definition bloom_init :: "bool \<Rightarrow> (size_t \<Rightarrow> bool) \<Rightarrow> int \<Rightarrow> bloom_filter res" where
  "bloom_init mal_bf mal_buf n =
     res_bind (c_assert (n smod 8 = 0)) (\<lambda>_.
     if \<not> mal_bf then Inl NullDeref
     else
       (let sz = word_of_int (drop_bit 3 n) :: size_t in
        if \<not> mal_buf sz then Inl (Exit 1)
        else Inr \<lparr>buf = replicate (unat sz) 0, bsz = n\<rparr>))"

definition bloom_add :: "bloom_filter \<Rightarrow> int \<Rightarrow> bloom_filter" where
  "bloom_add bf elm = bf"

definition bloom_query :: "bloom_filter \<Rightarrow> int \<Rightarrow> bool" where
  "bloom_query f elm = False"

text \<open>\<open>free\<close> on the set of live blocks; \<open>bloom_free\<close> gets the addresses of the structure and its buffer.\<close>

definition bloom_free :: "addr \<Rightarrow> addr \<Rightarrow> addr set \<Rightarrow> addr set res" where
  "bloom_free bf bf_buf live = res_bind (c_free bf_buf live) (c_free bf)"

definition c_shl :: "int \<Rightarrow> int \<Rightarrow> int res" where
  "c_shl a k = (if 0 \<le> k \<and> k < 32 then chk_int (push_bit (nat k) a) else Inl BadShift)"

definition c_shr :: "int \<Rightarrow> int \<Rightarrow> int res" where
  "c_shr a k = (if 0 \<le> k \<and> k < 32 then Inr (drop_bit (nat k) a) else Inl BadShift)"

definition bloom_bit_at_pos :: "bloom_filter \<Rightarrow> int \<Rightarrow> bool res" where
  "bloom_bit_at_pos bf pos =
     res_bind (c_assert (pos < bsz bf)) (\<lambda>_.
     (let which_byte = pos sdiv 8; which_bit = pos smod 8 in
      res_bind (get_arr (buf bf) which_byte) (\<lambda>b.
      res_bind (c_shl (sint b) which_bit) (\<lambda>x.
      res_bind (c_shr x (7 - which_bit)) (\<lambda>y.
      Inr (y \<noteq> 0))))))"

section \<open>The hash functions are positive and do not overflow\<close>

lemma hash_sum_fits:
  assumes "0 \<le> a" "a < H1PRIME" "0 \<le> p" "p \<le> 9 * H2PRIME" "0 \<le> q" "q \<le> 81"
  shows "in_llong p" "in_llong (a + p)" "in_llong (a + p + 1)" "in_int q" "in_llong (a + p + 1 + q)"
    and "signed_take_bit 31 (a + p + 1 + q) = a + p + 1 + q"
proof -
  show "signed_take_bit 31 (a + p + 1 + q) = a + p + 1 + q"
    by (rule signed_take_bit_int_eq_self) (use assms in \<open>simp_all add: H1PRIME_def H2PRIME_def\<close>)
qed (use assms in \<open>simp_all add: in_llong_def in_int_iff H1PRIME_def H2PRIME_def\<close>)

text \<open>
  For every Rabin-Karp hash (a non-negative value) the ten hash functions of the filter are
  computed without overflow and without truncation, and are positive.
\<close>

theorem hash_i_value:
  assumes "0 \<le> i" and "i < BLOOM_HASH_NUM" and "0 \<le> x"
  shows "hash_i i x = Inr (x mod H1PRIME + i * (x mod H2PRIME) + 1 + i * i) \<and>
    0 < x mod H1PRIME + i * (x mod H2PRIME) + 1 + i * i"
proof -
  let ?a = "x mod H1PRIME" and ?b = "x mod H2PRIME"
  have a: "0 \<le> ?a" "?a < H1PRIME" and b: "0 \<le> ?b" "?b < H2PRIME"
    by (simp_all add: H1PRIME_def H2PRIME_def)
  have le: "i \<le> 9" using assms(2) by (simp add: BLOOM_HASH_NUM_def)
  have i: "0 \<le> i * ?b" "i * ?b \<le> 9 * H2PRIME" "0 \<le> i * i" "i * i \<le> 81"
    using assms b le mult_mono [of i 9 i 9] by (auto intro!: mult_mono mult_nonneg_nonneg)
  have "x smod H1PRIME = ?a" "x smod H2PRIME = ?b"
    using assms by (simp_all add: smod_nonneg H1PRIME_def H2PRIME_def)
  moreover have "0 < ?a + i * ?b + 1 + i * i" using a(1) i by linarith
  ultimately show ?thesis using hash_sum_fits [OF a i] by (simp add: hash_i_def)
qed

theorem hash_i_value_witness: "hash_i 9 961748940 = Inr 23888396"
  using hash_i_value [of 9 961748940] by (simp add: H1PRIME_def H2PRIME_def BLOOM_HASH_NUM_def)

section \<open>The bit a position stands for\<close>

text \<open>Position \<open>p\<close> is bit \<open>p mod 8\<close> from the left of byte \<open>p div 8\<close>.\<close>

definition bloom_bit :: "bloom_filter \<Rightarrow> int \<Rightarrow> bool" where
  "bloom_bit bf p = bit (buf bf ! nat (p div 8)) (nat (7 - p mod 8))"

text \<open>Some bit of a byte from bit \<open>n\<close> up is set when the byte is at least \<open>2\<^sup>n\<close>.\<close>

lemma byte_ge_iff: "2 ^ n \<le> uint b \<longleftrightarrow> (\<exists>m. n \<le> m \<and> m < 8 \<and> bit b m)" for b :: byte
proof -
  have "2 ^ n \<le> uint b \<longleftrightarrow> drop_bit n (uint b) \<noteq> 0"
  proof -
    have "drop_bit n (uint b) \<noteq> 0 \<longleftrightarrow> 1 \<le> uint b div 2 ^ n"
      unfolding drop_bit_eq_div using pos_imp_zdiv_nonneg_iff [of "2 ^ n" "uint b"] by auto
    then show ?thesis by (simp add: int_one_le_iff_zero_less pos_imp_zdiv_pos_iff)
  qed
  also have "\<dots> \<longleftrightarrow> (\<exists>j. bit (uint b) (n + j))"
    by (auto simp: bit_eq_iff bit_drop_bit_eq add.commute)
  also have "\<dots> \<longleftrightarrow> (\<exists>m. n \<le> m \<and> m < 8 \<and> bit b m)"
    by (auto simp: bit_uint_iff le_iff_add)
  finally show ?thesis .
qed

text \<open>The two shifts of \<open>bloom_bit_at_pos\<close> keep every bit from \<open>7 - 2k\<close> up, since nothing is cut off.\<close>

lemma shifts_int:
  fixes s u k :: int
  assumes "s = (if u < 128 then u else u - 256)" "0 \<le> u" "u < 256" and "0 \<le> k" "k < 8"
  shows "res_bind (c_shl s k) (\<lambda>x. res_bind (c_shr x (7 - k)) (\<lambda>y. Inr (y \<noteq> 0))) =
    Inr (2 ^ nat (7 - 2 * k) \<le> u)"
proof -
  have "k \<in> {0, 1, 2, 3, 4, 5, 6, 7}" using assms by auto
  moreover have "in_int (push_bit (nat k) s)" using assms calculation
    by (auto simp: push_bit_eq_mult in_int_iff)
  ultimately show ?thesis
    using assms by (auto simp: c_shl_def c_shr_def push_bit_eq_mult drop_bit_eq_div)
qed

lemma shifts_value:
  fixes b :: byte
  assumes "0 \<le> k" and "k < 8"
  shows "res_bind (c_shl (sint b) k) (\<lambda>x. res_bind (c_shr x (7 - k)) (\<lambda>y. Inr (y \<noteq> 0))) =
    Inr (2 ^ nat (7 - 2 * k) \<le> uint b)"
proof (rule shifts_int)
  show "sint b = (if uint b < 128 then uint b else uint b - 256)"
    using uint_lt2p [of b] mod_pos_pos_trivial [of "uint b - 128" 256] mod_add_self2 [of "uint b - 128" 256]
    by (auto simp: add.commute [of _ 128] sint_uint signed_take_bit_eq_take_bit_shift take_bit_eq_mod)
qed (use uint_lt2p [of b] assms in simp_all)

lemma bloom_bit_at_pos_value:
  assumes "0 \<le> pos" and "pos < bsz bf" and "8 * int (length (buf bf)) = bsz bf"
  shows "bloom_bit_at_pos bf pos =
    Inr (2 ^ nat (7 - 2 * (pos mod 8)) \<le> uint (buf bf ! nat (pos div 8)))"
proof -
  have "pos sdiv 8 = pos div 8" "pos smod 8 = pos mod 8"
    using assms(1) by (simp_all add: smod_nonneg signed_divide_int_def sgn_if)
  moreover have "get_arr (buf bf) (pos div 8) = Inr (buf bf ! nat (pos div 8))"
    using assms by (intro get_arr_ok) (auto simp: pos_imp_zdiv_nonneg_iff div_less_iff_less_mult)
  ultimately show ?thesis
    using assms(2) shifts_value [of "pos mod 8" "buf bf ! nat (pos div 8)"]
    by (simp add: bloom_bit_at_pos_def Let_def)
qed

lemma bloom_bit_at_pos_bits:
  assumes "0 \<le> pos" and "pos < bsz bf" and "8 * int (length (buf bf)) = bsz bf"
  shows "bloom_bit_at_pos bf pos =
    Inr (\<exists>q. q div 8 = pos div 8 \<and> q mod 8 \<le> 2 * (pos mod 8) \<and> bloom_bit bf q)"
proof -
  let ?b = "buf bf ! nat (pos div 8)" and ?k = "pos mod 8"
  have "(\<exists>m. nat (7 - 2 * ?k) \<le> m \<and> m < 8 \<and> bit ?b m) \<longleftrightarrow>
      (\<exists>q. q div 8 = pos div 8 \<and> q mod 8 \<le> 2 * ?k \<and> bloom_bit bf q)" (is "?l \<longleftrightarrow> ?r")
  proof
    assume ?l
    then obtain m where m: "nat (7 - 2 * ?k) \<le> m" "m < 8" "bit ?b m" by blast
    let ?q = "8 * (pos div 8) + (7 - int m)"
    have q: "?q div 8 = pos div 8" "?q mod 8 = 7 - int m" using m(2) by auto
    moreover have "7 - int m \<le> 2 * ?k" using m(1) by simp
    ultimately have "?q div 8 = pos div 8 \<and> ?q mod 8 \<le> 2 * ?k \<and> bloom_bit bf ?q"
      using m(3) by (simp only: bloom_bit_def q) simp
    then show ?r ..
  next
    assume ?r
    then obtain q where q: "q div 8 = pos div 8" "q mod 8 \<le> 2 * ?k" "bloom_bit bf q" by blast
    then have "nat (7 - 2 * ?k) \<le> nat (7 - q mod 8)" "nat (7 - q mod 8) < 8" "bit ?b (nat (7 - q mod 8))"
      by (auto simp: bloom_bit_def)
    then show ?l by blast
  qed
  then show ?thesis using bloom_bit_at_pos_value [OF assms] by (simp add: byte_ge_iff)
qed

text \<open>
  \<open>bloom_bit_at_pos\<close> at bit \<open>k\<close> of a byte is true exactly when one of the bits 0 to \<open>2k\<close> of that
  byte is set. So it never misses a bit that is set, but the two shifts do not isolate the bit, as the
  comment says they do: they cut nothing off, because the byte is promoted to \<open>int\<close>.
\<close>

theorem bloom_bit_at_pos_exact:
  assumes "0 \<le> pos" and "pos < bsz bf" and "8 * int (length (buf bf)) = bsz bf"
  shows "bloom_bit_at_pos bf pos =
    Inr (\<exists>q. q div 8 = pos div 8 \<and> q mod 8 \<le> 2 * (pos mod 8) \<and> bloom_bit bf q)"
  by (rule bloom_bit_at_pos_bits [OF assms])

text \<open>A filter of 8 bits whose only bit set is the left-most one: every position reads as set.\<close>

definition demo_filter :: bloom_filter where "demo_filter = \<lparr>buf = [128], bsz = 8\<rparr>"

lemma demo_filter_bit0: "bloom_bit demo_filter 0"
  by (simp add: bloom_bit_def demo_filter_def bit_iff_odd_drop_bit)

theorem bloom_bit_at_pos_exact_witness:
  "bloom_bit_at_pos demo_filter 5 = Inr True \<and> \<not> bloom_bit demo_filter 5"
proof -
  have "bloom_bit_at_pos demo_filter 5 =
      Inr (\<exists>q. q div 8 = 5 div 8 \<and> q mod 8 \<le> 2 * (5 mod 8) \<and> bloom_bit demo_filter q)"
    by (rule bloom_bit_at_pos_exact) (simp_all add: demo_filter_def)
  moreover have "\<exists>q. q div 8 = 5 div 8 \<and> q mod 8 \<le> 2 * (5 mod 8) \<and> bloom_bit demo_filter q"
    using demo_filter_bit0 by (intro exI [of _ 0]) simp
  ultimately show ?thesis by (simp add: bloom_bit_def demo_filter_def bit_iff_odd_drop_bit)
qed

lemma bloom_init_value:
  assumes "0 \<le> n" and "in_int n"
  shows "bloom_init True mal n =
      (if n mod 8 \<noteq> 0 then Inl AssertFail
       else if \<not> mal (word_of_int (n div 8)) then Inl (Exit 1)
       else Inr \<lparr>buf = replicate (nat (n div 8)) 0, bsz = n\<rparr>)"
proof -
  have n: "0 \<le> n div 8" "n div 8 < 2 ^ 64"
    using assms by (auto simp: in_int_iff pos_imp_zdiv_nonneg_iff)
  then have "unat (word_of_int (n div 8) :: size_t) = nat (n div 8)"
    using uint64_of_int [of "n div 8"] by (metis nat_uint_eq)
  then show ?thesis
    using assms(1) by (simp add: bloom_init_def smod_nonneg drop_bit_eq_div)
qed

text \<open>
  \<open>bloom_init\<close> of a non-negative multiple of 8 gives, when memory is available, a filter of
  exactly that many bits with every position reading as not set; for any other size the assertion
  fails, and with no memory for the bitmap the program exits with status 1.
\<close>

theorem bloom_init_empty:
  assumes "0 \<le> n" and "in_int n"
  shows "bloom_init True mal n =
      (if n mod 8 \<noteq> 0 then Inl AssertFail
       else if \<not> mal (word_of_int (n div 8)) then Inl (Exit 1)
       else Inr \<lparr>buf = replicate (nat (n div 8)) 0, bsz = n\<rparr>) \<and>
    (\<forall>bf pos. bloom_init True mal n = Inr bf \<and> 0 \<le> pos \<and> pos < n \<longrightarrow> bloom_bit_at_pos bf pos = Inr False)"
proof -
  have n: "0 \<le> n div 8" using assms by (simp add: pos_imp_zdiv_nonneg_iff)
  note init = bloom_init_value [OF assms, of mal]
  have "bloom_bit_at_pos bf pos = Inr False"
    if "bloom_init True mal n = Inr bf" "0 \<le> pos" "pos < n" for bf pos
  proof -
    have bf: "bf = \<lparr>buf = replicate (nat (n div 8)) 0, bsz = n\<rparr>" "n mod 8 = 0"
      using that(1) by (auto simp: init split: if_splits)
    moreover have "8 * (n div 8) = n" using bf(2) by presburger
    moreover have "pos div 8 < n div 8" using that(3) bf(2) by presburger
    then have "nat (pos div 8) < nat (n div 8)" using that(2) by (simp add: pos_imp_zdiv_nonneg_iff)
    ultimately show ?thesis
      using that(2,3) n by (subst bloom_bit_at_pos_value) auto
  qed
  with init show ?thesis by blast
qed

theorem bloom_init_empty_witness:
  "bloom_init True (\<lambda>_. True) 80 = Inr \<lparr>buf = replicate 10 0, bsz = 80\<rparr> \<and>
   bloom_bit_at_pos \<lparr>buf = replicate 10 0, bsz = 80\<rparr> 79 = Inr False"
  using bloom_init_empty [of 80 "\<lambda>_. True"] by (simp add: in_int_iff)

end
