(* ===== verification/RKGrep_Main.thy ===== *)
theory RKGrep_Main
  imports RKGrep Bloom
begin

text \<open>
  \<open>rklab/rkgrep_main.c\<close>: the program that searches a file for several patterns and prints the line of
  the first match of each. It is modelled with the matchers as an argument (\<open>rk_pkg\<close>), since those of
  \<open>rkgrep.c\<close> are to be written. What a run prints is its value; reads past the end of an array and
  uses of \<open>NULL\<close> are errors.
\<close>

section \<open>Reading the file\<close>

text \<open>What the operating system answers for a file that can be opened.\<close>

record ascii_file =
  fstat_ok :: bool
  st_size :: int
  read_n :: int
  file_data :: string

text \<open>
  The loop that checks for ASCII goes on after it has freed the array and set \<open>doc\<close> to \<open>NULL\<close>.
\<close>

fun check_ascii :: "nat \<Rightarrow> int \<Rightarrow> string option \<Rightarrow> string option res" where
  "check_ascii 0 i doc = Inr doc"
| "check_ascii (Suc k) i doc =
     (case doc of
        None \<Rightarrow> Inl NullDeref
      | Some b \<Rightarrow>
          res_bind (get_arr b i) (\<lambda>c. check_ascii k (i + 1) (if schar c \<le> 0 then None else doc)))"

text \<open>
  \<open>mal\<close> tells whether \<open>malloc\<close> succeeds, and \<open>junk\<close> is the last byte of the array it returns, which
  \<open>read\<close> does not fill. The result of \<open>read\<close>, stored in an \<open>int\<close>, is one: Linux transfers at most
  2147479552 bytes in a call.
\<close>

definition read_ascii_file :: "ascii_file option \<Rightarrow> bool \<Rightarrow> char \<Rightarrow> string option res" where
  "read_ascii_file fo mal junk =
     (case fo of
        None \<Rightarrow> Inl (Exit 1)
      | Some f \<Rightarrow>
          if \<not> fstat_ok f then Inl (Exit 1)
          else if \<not> mal then Inl (Exit 1)
          else
            res_bind
              (if read_n f < 0 then Inr None
               else if read_n f \<noteq> st_size f then Inr None
               else check_ascii (nat (st_size f)) 0 (Some (file_data f @ [junk])))
              (\<lambda>doc. case doc of
                 None \<Rightarrow> Inl NullDeref
               | Some b \<Rightarrow> Inr (Some b)))"

section \<open>Printing a match\<close>

definition NEWLINE :: char where "NEWLINE = CHR 0x0A"

definition NORMALCOLOR :: string where "NORMALCOLOR = CHR 0x1B # ''[0m''"

definition REDCOLOR :: string where "REDCOLOR = CHR 0x1B # ''[31m''"

function find_start :: "string \<Rightarrow> int \<Rightarrow> int res" where
  "find_start doc s =
     (if s > 0
      then case get_arr doc (s - 1) of
             Inl e \<Rightarrow> Inl e
           | Inr c \<Rightarrow> if c \<noteq> NEWLINE then find_start doc (s - 1) else Inr s
      else Inr s)"
  by pat_completeness auto
termination
  by (relation "measure (\<lambda>(doc, s). nat s)") auto

declare find_start.simps [simp del]

fun print_range :: "nat \<Rightarrow> int \<Rightarrow> string \<Rightarrow> string res" where
  "print_range 0 j doc = Inr []"
| "print_range (Suc k) j doc =
     res_bind (get_arr doc j) (\<lambda>c. res_bind (print_range k (j + 1) doc) (\<lambda>out. Inr (c # out)))"

text \<open>The two loops over \<open>i\<close>: while the document agrees with the pattern, then to the end of the line.\<close>

function print_same :: "string \<Rightarrow> string \<Rightarrow> int \<Rightarrow> int \<Rightarrow> string \<Rightarrow> (string \<times> int) res" where
  "print_same pattern doc pos i out =
     (if \<not> in_int (i + pos) then Inl SignedOverflow
      else if \<not> (0 \<le> i + pos \<and> i + pos < int (length doc)) then Inl OutOfBounds
      else if \<not> (0 \<le> i \<and> i < int (length pattern)) then Inl OutOfBounds
      else if doc ! nat (i + pos) = pattern ! nat i
      then print_same pattern doc pos (i + 1) (out @ [doc ! nat (i + pos)])
      else Inr (out, i))"
  by pat_completeness auto
termination
  by (relation "measure (\<lambda>(pattern, doc, pos, i, out). nat (int (length pattern) - i))") auto

declare print_same.simps [simp del]

function print_rest :: "string \<Rightarrow> int \<Rightarrow> int \<Rightarrow> string \<Rightarrow> string res" where
  "print_rest doc pos i out =
     (if \<not> in_int (i + pos) then Inl SignedOverflow
      else if \<not> (0 \<le> i + pos \<and> i + pos < int (length doc)) then Inl OutOfBounds
      else if doc ! nat (i + pos) \<noteq> NEWLINE \<and> doc ! nat (i + pos) \<noteq> NUL
      then print_rest doc pos (i + 1) (out @ [doc ! nat (i + pos)])
      else Inr out)"
  by pat_completeness auto
termination
  by (relation "measure (\<lambda>(doc, pos, i, out). nat (int (length doc) - (i + pos)))") auto

declare print_rest.simps [simp del]

definition print_matched_sentence :: "int \<Rightarrow> string \<Rightarrow> string \<Rightarrow> string res" where
  "print_matched_sentence pos pattern doc =
     (if pos < 0 then Inr []
      else
        res_bind (find_start doc pos) (\<lambda>start_sentence.
        res_bind (print_range (nat (pos - start_sentence)) start_sentence doc) (\<lambda>before.
        res_bind (print_same pattern doc pos 0 []) (\<lambda>(same, i).
        res_bind (print_rest doc pos i []) (\<lambda>rest.
        Inr (before @ REDCOLOR @ same @ NORMALCOLOR @ rest @ [NEWLINE]))))))"

section \<open>Splitting the patterns\<close>

text \<open>
  The calls of \<open>strtok_r\<close> on the argument \<open>s\<close>, an array that ends where the list does: the arrays the
  tokens start at, and the memory of \<open>s\<close> after the last call, with the delimiters after the tokens
  overwritten by NUL.
\<close>

function strtok_all :: "string \<Rightarrow> string list \<times> string" where
  "strtok_all s =
     (let delims = takeWhile (\<lambda>c. c = CHR ''|'') s;
          s1 = dropWhile (\<lambda>c. c = CHR ''|'') s;
          tok = takeWhile (\<lambda>c. c \<noteq> CHR ''|'') s1;
          rest = dropWhile (\<lambda>c. c \<noteq> CHR ''|'') s1
      in if s1 = [] then ([], delims @ [NUL])
         else case rest of
                [] \<Rightarrow> ([tok @ [NUL]], delims @ tok @ [NUL])
              | _ # r \<Rightarrow>
                  (let (toks, memory) = strtok_all r
                   in ((tok @ NUL # memory) # toks, delims @ tok @ NUL # memory)))"
  by pat_completeness auto
termination
proof (relation "measure length")
  fix s d s1 tok rest :: string and c r
  assume "s1 = dropWhile (\<lambda>c. c = CHR ''|'') s" "rest = dropWhile (\<lambda>c. c \<noteq> CHR ''|'') s1" "rest = c # r"
  then have "length (c # r) \<le> length s" by (metis length_dropWhile_le order_trans)
  then show "(r, s) \<in> measure length" by simp
qed auto

declare strtok_all.simps [simp del]

section \<open>The program\<close>

datatype algo_type = Naive | RK | Bloom | RKBloom | AllAlgos

text \<open>The functions of \<open>rkgrep.h\<close> the program calls.\<close>

record rk_pkg =
  p_naive :: matcher
  p_rk :: matcher
  p_create_bloom :: "int \<Rightarrow> string \<Rightarrow> int \<Rightarrow> bloom_filter option res"
  p_using_bloom :: "string \<Rightarrow> string \<Rightarrow> bloom_filter option \<Rightarrow> int \<Rightarrow> (int \<times> int) res"

text \<open>What is printed: a line with its match, and the note that there are more matches.\<close>

datatype rk_out = Sentence string | OnlyOne int string

definition which_algo :: "string \<Rightarrow> algo_type res" where
  "which_algo optarg =
     (if optarg = ''naive'' then Inr Naive
      else if optarg = ''rk'' then Inr RK
      else if optarg = ''rkbloom'' then Inr RKBloom
      else Inl (Exit 1))"

fun rk_options :: "(char \<times> string) list \<Rightarrow> algo_type \<Rightarrow> algo_type res" where
  "rk_options [] a = Inr a"
| "rk_options ((c, optarg) # opts) a =
     (if c = CHR ''a'' then res_bind (which_algo optarg) (rk_options opts) else Inl (Exit 1))"

text \<open>
  The loop over the patterns, with \<open>match\<close> the matcher of the algorithm. \<open>first_match_ind\<close> is a variable
  of the loop body that is not initialised: \<open>u i\<close> is its value in round \<open>i\<close>.
\<close>

fun match_loop :: "matcher \<Rightarrow> (nat \<Rightarrow> int) \<Rightarrow> nat \<Rightarrow> string \<Rightarrow> string list \<Rightarrow> rk_out list res" where
  "match_loop match u i doc [] = Inr []"
| "match_loop match u i doc (pat # pats) =
     res_bind (match pat doc (u i)) (\<lambda>(n_matches, first_match_ind).
     res_bind (print_matched_sentence first_match_ind pat doc) (\<lambda>s.
     res_bind (match_loop match u (Suc i) doc pats) (\<lambda>out.
     Inr (Sentence s # (if n_matches > 1 then [OnlyOne n_matches (c_str pat)] else []) @ out))))"

fun same_lengths :: "int \<Rightarrow> string list \<Rightarrow> unit res" where
  "same_lengths m [] = Inr ()"
| "same_lengths m (pat # pats) =
     res_bind (c_strlen pat) (\<lambda>n. res_bind (c_assert (m = n)) (\<lambda>_. same_lengths m pats))"

definition run_algo ::
  "rk_pkg \<Rightarrow> (nat \<Rightarrow> int) \<Rightarrow> algo_type \<Rightarrow> string list \<Rightarrow> string \<Rightarrow> rk_out list res" where
  "run_algo pkg u algo patterns doc =
     (case algo of
        Naive \<Rightarrow> match_loop (p_naive pkg) u 0 doc patterns
      | RK \<Rightarrow> match_loop (p_rk pkg) u 0 doc patterns
      | RKBloom \<Rightarrow>
          res_bind (c_strlen (hd patterns)) (\<lambda>m.
          res_bind (same_lengths m (tl patterns)) (\<lambda>_.
          res_bind (c_strlen doc) (\<lambda>n.
          res_bind (p_create_bloom pkg m doc (int_of_size (word_of_int (n * 8)))) (\<lambda>bf.
          match_loop (\<lambda>pat doc. p_using_bloom pkg pat doc bf) u 0 doc patterns))))
      | _ \<Rightarrow> Inl (Exit 1))"

definition MAX_PATTERNS :: nat where "MAX_PATTERNS = 1000"

text \<open>
  \<open>args\<close> are the arguments after the options; \<open>fs\<close> opens a file. A missing file name is \<open>NULL\<close>, which
  \<open>open\<close> refuses. The assertion fails once a pattern fills the last place of the array.
\<close>

definition rkgrep_main ::
  "rk_pkg \<Rightarrow> (string \<Rightarrow> ascii_file option) \<Rightarrow> bool \<Rightarrow> char \<Rightarrow> (nat \<Rightarrow> int) \<Rightarrow> (char \<times> string) list \<Rightarrow>
     string list \<Rightarrow> rk_out list res" where
  "rkgrep_main pkg fs mal junk u opts args =
     res_bind (rk_options opts RK) (\<lambda>algo.
     case args of
       [] \<Rightarrow> Inl (Exit 1)
     | arg # files \<Rightarrow>
         (let patterns = fst (strtok_all arg) in
          res_bind (c_assert (length patterns < MAX_PATTERNS)) (\<lambda>_.
          if patterns = [] then Inl (Exit 1)
          else
            res_bind (read_ascii_file (case files of [] \<Rightarrow> None | f # _ \<Rightarrow> fs f) mal junk) (\<lambda>doc.
            case doc of
              None \<Rightarrow> Inl (Exit 1)
            | Some d \<Rightarrow> run_algo pkg u algo patterns d))))"

section \<open>What reading the file gives\<close>

definition ascii_text :: "string \<Rightarrow> bool" where
  "ascii_text s \<longleftrightarrow> (\<forall>c\<in>set s. 0 < schar c)"

lemma check_ascii_ok:
  assumes "0 \<le> i" and "nat i + k \<le> length b" and "ascii_text (take k (drop (nat i) b))"
  shows "check_ascii k i (Some b) = Inr (Some b)"
  using assms
proof (induction k arbitrary: i)
  case (Suc k)
  have i: "nat i < length b" "nat (i + 1) = Suc (nat i)" using Suc.prems by simp_all
  then have d: "drop (nat i) b = b ! nat i # drop (nat (i + 1)) b" by (simp add: Cons_nth_drop_Suc)
  with Suc.prems(3) have "0 < schar (b ! nat i)" "ascii_text (take k (drop (nat (i + 1)) b))"
    by (simp_all add: ascii_text_def)
  with Suc i show ?case by simp
qed simp

lemma check_ascii_bad:
  assumes "0 \<le> i" and "nat i + k \<le> length b" and "\<not> ascii_text (take k (drop (nat i) b))"
  shows "check_ascii k i (Some b) \<in> {Inl NullDeref, Inr None}"
  using assms
proof (induction k arbitrary: i)
  case (Suc k)
  have i: "nat i < length b" "nat (i + 1) = Suc (nat i)" using Suc.prems by simp_all
  then have d: "drop (nat i) b = b ! nat i # drop (nat (i + 1)) b" by (simp add: Cons_nth_drop_Suc)
  show ?case
  proof (cases "schar (b ! nat i) \<le> 0")
    case True
    with Suc.prems(1) i show ?thesis by (cases k) auto
  next
    case False
    with Suc.prems(3) d have "\<not> ascii_text (take k (drop (nat (i + 1)) b))" by (simp add: ascii_text_def)
    with Suc.IH [of "i + 1"] Suc.prems(1,2) i False show ?thesis by simp
  qed
qed (simp add: ascii_text_def)

text \<open>
  C34: for a file that can be opened and whose size is known, \<open>read_ascii_file\<close> returns the contents
  followed by one byte that nobody has set, when all of it was read and is ASCII; in every other case
  it dereferences \<open>NULL\<close>, because the test before the terminating NUL is stored is the wrong way
  round. So it never returns \<open>NULL\<close>, and the array it returns has no terminator.
\<close>

theorem read_ascii_file_result:
  assumes "fstat_ok f" and "0 \<le> st_size f" and "read_n f = st_size f \<longrightarrow> int (length (file_data f)) = st_size f"
  shows "read_ascii_file (Some f) True junk =
    (if read_n f = st_size f \<and> ascii_text (file_data f) then Inr (Some (file_data f @ [junk]))
     else Inl NullDeref)"
proof (cases "read_n f = st_size f")
  case True
  then have len: "nat (st_size f) = length (file_data f)" using assms(3) by simp
  show ?thesis
  proof (cases "ascii_text (file_data f)")
    case True
    with len have "check_ascii (nat (st_size f)) 0 (Some (file_data f @ [junk])) = Inr (Some (file_data f @ [junk]))"
      by (intro check_ascii_ok) simp_all
    with True \<open>read_n f = st_size f\<close> assms show ?thesis by (simp add: read_ascii_file_def)
  next
    case False
    with len have "check_ascii (nat (st_size f)) 0 (Some (file_data f @ [junk])) \<in> {Inl NullDeref, Inr None}"
      by (intro check_ascii_bad) simp_all
    with False \<open>read_n f = st_size f\<close> assms show ?thesis by (auto simp: read_ascii_file_def)
  qed
qed (use assms in \<open>simp add: read_ascii_file_def\<close>)

definition plain_file :: "string \<Rightarrow> ascii_file" where
  "plain_file s = \<lparr>fstat_ok = True, st_size = int (length s), read_n = int (length s), file_data = s\<rparr>"

theorem read_ascii_file_result_witness:
  "read_ascii_file (Some (plain_file ''ab'')) True (CHR ''z'') = Inr (Some ''abz'') \<and>
   read_ascii_file (Some (plain_file [CHR ''a'', CHR 0xE9])) True NUL = Inl NullDeref"
  using read_ascii_file_result [of "plain_file ''ab''" "CHR ''z''"]
    read_ascii_file_result [of "plain_file [CHR ''a'', CHR 0xE9]" NUL]
  by (simp add: plain_file_def ascii_text_def schar_def)

section \<open>What is printed for a match\<close>

text \<open>The part of the line before position \<open>k\<close>, and the line of the match as it is printed.\<close>

definition line_before :: "string \<Rightarrow> nat \<Rightarrow> string" where
  "line_before d k = rev (takeWhile (\<lambda>c. c \<noteq> NEWLINE) (rev (take k d)))"

definition matched_line :: "string \<Rightarrow> string \<Rightarrow> nat \<Rightarrow> string" where
  "matched_line p d k =
     line_before d k @ REDCOLOR @ p @ NORMALCOLOR @
     takeWhile (\<lambda>c. c \<noteq> NEWLINE) (drop (k + length p) d) @ [NEWLINE]"

lemma line_before_Suc:
  "k < length d \<Longrightarrow>
    line_before d (Suc k) = (if d ! k = NEWLINE then [] else line_before d k @ [d ! k])"
  by (simp add: line_before_def take_Suc_conv_app_nth)

lemma length_line_before: "k \<le> length d \<Longrightarrow> length (line_before d k) \<le> k"
  unfolding line_before_def by (metis length_rev length_take length_takeWhile_le min.absorb2)

lemma find_start_line:
  "k \<le> length d \<Longrightarrow> find_start d (int k) = Inr (int k - int (length (line_before d k)))"
proof (induction k)
  case 0
  show ?case by (simp add: find_start.simps line_before_def)
next
  case (Suc k)
  have "get_arr d (int k) = Inr (d ! k)" using Suc.prems by simp
  with Suc show ?case by (subst find_start.simps) (simp add: line_before_Suc)
qed

lemma print_range_take:
  "0 \<le> j \<Longrightarrow> nat j + n \<le> length d \<Longrightarrow> print_range n j d = Inr (take n (drop (nat j) d))"
proof (induction n arbitrary: j)
  case (Suc n)
  then have "nat j < length d" "nat (j + 1) = Suc (nat j)" by simp_all
  with Suc show ?case by (simp add: take_Suc_conv_app_nth Cons_nth_drop_Suc [symmetric])
qed simp

lemma line_before_take:
  assumes "k \<le> length d"
  shows "take (length (line_before d k)) (drop (k - length (line_before d k)) d) = line_before d k"
proof -
  let ?r = "rev (take k d)" and ?n = "length (line_before d k)"
  have "line_before d k = rev (take ?n ?r)"
    unfolding line_before_def by (metis length_rev takeWhile_eq_take)
  then have "line_before d k = drop (k - ?n) (take k d)"
    using assms rev_take [of ?n ?r] by simp
  moreover have "?n \<le> k" using assms by (rule length_line_before)
  ultimately show ?thesis by (simp add: drop_take)
qed

lemma print_same_pattern:
  assumes "drop k doc = p @ c # s" and "c \<noteq> e" and "int (length doc) \<le> INT_MAX" and "j \<le> length p"
  shows "print_same (p @ e # r) doc (int k) (int j) out = Inr (out @ drop j p, int (length p))"
  using assms(4)
proof (induction "length p - j" arbitrary: j out)
  case 0
  have "doc ! (k + length p) = c" "k + length p < length doc"
    using assms(1) nth_drop [of k doc "length p"] length_drop [of k doc] by (auto simp: nth_append)
  moreover have "j = length p" using 0 by simp
  ultimately show ?case
    using assms(2,3) by (subst print_same.simps) (simp add: in_int_iff INT_MAX_def nat_add_distrib nth_append add.commute)
next
  case (Suc m)
  then have j: "j < length p" by simp
  have dj: "doc ! (k + j) = p ! j" "k + j < length doc"
    using assms(1) nth_drop [of k doc j] length_drop [of k doc] j by (auto simp: nth_append)
  have "print_same (p @ e # r) doc (int k) (int j) out =
      print_same (p @ e # r) doc (int k) (int (Suc j)) (out @ [p ! j])"
    using assms(3) j dj
    by (subst print_same.simps) (simp add: in_int_iff INT_MAX_def nat_add_distrib nth_append add.commute)
  also have "\<dots> = Inr ((out @ [p ! j]) @ drop (Suc j) p, int (length p))"
    using Suc.hyps(1) [of "Suc j"] Suc.hyps(2) j by simp
  finally show ?case using j by (simp add: Cons_nth_drop_Suc)
qed

lemma print_rest_line:
  assumes "drop m doc = s @ c # s'" and "c = NEWLINE \<or> c = NUL" and "\<forall>x\<in>set s. x \<noteq> NEWLINE \<and> x \<noteq> NUL"
    and "int (length doc) \<le> INT_MAX" and "0 \<le> i + pos" and "m = nat (i + pos)"
  shows "print_rest doc pos i out = Inr (out @ s)"
  using assms
proof (induction s arbitrary: m i out)
  case Nil
  then have "doc ! m = c" "m < length doc"
    using nth_drop [of m doc 0] length_drop [of m doc] by auto
  with Nil.prems show ?case
    by (subst print_rest.simps) (auto simp: in_int_iff INT_MAX_def)
next
  case (Cons x s)
  have m: "doc ! m = x" "m < length doc"
    using Cons.prems(1) nth_drop [of m doc 0] length_drop [of m doc] by auto
  have "drop (Suc m) doc = s @ c # s'" using Cons.prems(1) by (metis append_Cons drop_Suc list.sel(3) tl_drop)
  then have "print_rest doc pos (i + 1) (out @ [x]) = Inr ((out @ [x]) @ s)"
    using Cons.prems by (intro Cons.IH [of "Suc m"]) auto
  moreover have "i + pos < int (length doc)" using Cons.prems(5,6) m(2) by simp
  then have "print_rest doc pos i out = print_rest doc pos (i + 1) (out @ [x])"
    using Cons.prems m by (subst print_rest.simps) (simp add: in_int_iff INT_MAX_def)
  ultimately show ?case by simp
qed

lemma split_line:
  assumes "NUL \<notin> set s"
  obtains c s' where "s @ NUL # r = takeWhile (\<lambda>c. c \<noteq> NEWLINE) s @ c # s'" "c = NEWLINE \<or> c = NUL"
    "\<forall>x\<in>set (takeWhile (\<lambda>c. c \<noteq> NEWLINE) s). x \<noteq> NEWLINE \<and> x \<noteq> NUL"
proof -
  let ?t = "takeWhile (\<lambda>c. c \<noteq> NEWLINE) s" and ?d = "dropWhile (\<lambda>c. c \<noteq> NEWLINE) s"
  have t: "\<forall>x\<in>set ?t. x \<noteq> NEWLINE \<and> x \<noteq> NUL" using assms by (auto dest: set_takeWhileD)
  show ?thesis
  proof (cases ?d)
    case Nil
    then have "s = ?t" by (metis append_Nil2 takeWhile_dropWhile_id)
    then have "s @ NUL # r = ?t @ NUL # r" by simp
    with t that show ?thesis by blast
  next
    case (Cons c s')
    then have "c = NEWLINE" by (metis (full_types) dropWhile_eq_Cons_conv)
    moreover have "s @ NUL # r = ?t @ c # (s' @ NUL # r)"
      using Cons by (metis append.assoc append_Cons takeWhile_dropWhile_id)
    ultimately show ?thesis using t that by blast
  qed
qed

lemma print_matched_line:
  assumes "NUL \<notin> set d" and "NUL \<notin> set p" and "occurs_at p d k" and "k + length p < length d"
    and "int (length (d @ NUL # r')) \<le> INT_MAX"
  shows "print_matched_sentence (int k) (p @ NUL # r) (d @ NUL # r') = Inr (matched_line p d k)"
proof -
  let ?doc = "d @ NUL # r'" and ?n = "length (line_before d k)" and ?m = "k + length p"
  have k: "k \<le> length d" using assms(4) by simp
  then have lb: "line_before ?doc k = line_before d k" by (simp add: line_before_def)
  have start: "find_start ?doc (int k) = Inr (int k - int ?n)"
    using find_start_line [of k ?doc] k by (simp add: lb)
  have n: "?n \<le> k" using k by (rule length_line_before)
  have before: "print_range ?n (int k - int ?n) ?doc = Inr (line_before d k)"
    using print_range_take [of "int k - int ?n" ?n ?doc] line_before_take [of k ?doc] n k
    by (simp add: lb nat_diff_distrib)
  have dm: "drop ?m d = d ! ?m # drop (Suc ?m) d" using assms(4) by (simp add: Cons_nth_drop_Suc)
  have "drop k ?doc = p @ d ! ?m # (drop (Suc ?m) d @ NUL # r')"
    using occurs_at_split [OF assms(3)] k dm by simp
  moreover have "d ! ?m \<noteq> NUL" using assms(1,4) by (metis nth_mem)
  ultimately have same: "print_same (p @ NUL # r) ?doc (int k) 0 [] = Inr (p, int (length p))"
    using print_same_pattern [of k ?doc p "d ! ?m" _ NUL 0 r "[]"] assms(5) by simp
  have "NUL \<notin> set (drop ?m d)" using assms(1) by (meson in_set_dropD)
  then obtain c s' where c: "drop ?m d @ NUL # r' = takeWhile (\<lambda>c. c \<noteq> NEWLINE) (drop ?m d) @ c # s'"
    "c = NEWLINE \<or> c = NUL"
    "\<forall>x\<in>set (takeWhile (\<lambda>c. c \<noteq> NEWLINE) (drop ?m d)). x \<noteq> NEWLINE \<and> x \<noteq> NUL"
    by (rule split_line)
  have dr: "drop ?m ?doc = drop ?m d @ NUL # r'" using assms(4) by simp
  have "print_rest ?doc (int k) (int (length p)) [] = Inr ([] @ takeWhile (\<lambda>c. c \<noteq> NEWLINE) (drop ?m d))"
    by (rule print_rest_line [OF dr [unfolded c(1)] c(2,3) assms(5)]) (simp_all add: nat_add_distrib)
  with start before same show ?thesis by (simp add: print_matched_sentence_def matched_line_def)
qed

text \<open>
  When the pattern occurs at position \<open>k\<close> and ends with the document, \<open>print_matched_sentence\<close>
  reads past the end of the document: both strings have their NUL there, so the loop that compares
  them does not stop.
\<close>

theorem print_matched_suffix:
  assumes "NUL \<notin> set d" and "occurs_at p d k" and "k + length p = length d"
    and "int (length d) < INT_MAX"
  shows "print_matched_sentence (int k) (p @ NUL # r) (d @ [NUL]) = Inl OutOfBounds"
proof -
  let ?doc = "d @ [NUL]" and ?P = "p @ NUL # r" and ?n = "length (line_before d k)"
  have k: "k \<le> length d" using assms(3) by simp
  then have lb: "line_before ?doc k = line_before d k" by (simp add: line_before_def)
  have start: "find_start ?doc (int k) = Inr (int k - int ?n)"
    using find_start_line [of k ?doc] k by (simp add: lb)
  have before: "print_range ?n (int k - int ?n) ?doc = Inr (line_before d k)"
    using print_range_take [of "int k - int ?n" ?n ?doc] line_before_take [of k ?doc]
      length_line_before [OF k] k
    by (simp add: lb nat_diff_distrib)
  have past: "print_same ?P ?doc (int k) (int (Suc (length p))) out = Inl OutOfBounds" for out
    using assms(3,4) by (subst print_same.simps) (simp add: in_int_iff INT_MAX_def)
  have "print_same ?P ?doc (int k) (int j) out = Inl OutOfBounds" if "j \<le> length p" for j out
    using that
  proof (induction "length p - j" arbitrary: j out)
    case 0
    then have "j = length p" by simp
    with past assms(3,4) show ?case
      by (subst print_same.simps) (simp add: in_int_iff INT_MAX_def nat_add_distrib nth_append add.commute)
  next
    case (Suc m)
    then have j: "j < length p" by simp
    have "d ! (k + j) = p ! j"
      using occurs_at_split [OF assms(2)] nth_drop [of k d j] k j by (simp add: nth_append)
    then have "print_same ?P ?doc (int k) (int j) out = print_same ?P ?doc (int k) (int (Suc j)) (out @ [p ! j])"
      using j assms(3,4) by (subst print_same.simps)
        (simp add: in_int_iff INT_MAX_def nat_add_distrib nth_append add.commute)
    then show ?case using Suc.hyps(1) [of "Suc j"] Suc.hyps(2) j by simp
  qed
  from this [of 0 "[]"] start before show ?thesis by (simp add: print_matched_sentence_def)
qed

theorem print_matched_suffix_witness:
  "print_matched_sentence 3 (''bc'' @ [NUL]) (''abcbc'' @ [NUL]) = Inl OutOfBounds"
  using print_matched_suffix [of "''abcbc''" "''bc''" 3 "[]"]
  by (simp add: occurs_at_def NUL_def INT_MAX_def)

section \<open>Splitting undoes joining\<close>

fun join_bar :: "string list \<Rightarrow> string" where
  "join_bar [] = []"
| "join_bar [t] = t"
| "join_bar (t # u # ts) = t @ CHR ''|'' # join_bar (u # ts)"

definition is_token :: "string \<Rightarrow> bool" where
  "is_token t \<longleftrightarrow> t \<noteq> [] \<and> CHR ''|'' \<notin> set t \<and> NUL \<notin> set t"

lemma strtok_all_token:
  assumes "is_token t"
  shows "strtok_all t = ([t @ [NUL]], t @ [NUL])"
    and "strtok_all (t @ CHR ''|'' # s) =
      (let (toks, memory) = strtok_all s in ((t @ NUL # memory) # toks, t @ NUL # memory))"
proof -
  obtain c t' where t: "t = c # t'" "c \<noteq> CHR ''|''" using assms by (cases t) (auto simp: is_token_def)
  have none: "takeWhile (\<lambda>c. c = CHR ''|'') (t @ s) = []" "dropWhile (\<lambda>c. c = CHR ''|'') (t @ s) = t @ s" for s
    using t by simp_all
  have all: "\<And>c. c \<in> set t \<Longrightarrow> c \<noteq> CHR ''|''" using assms by (auto simp: is_token_def)
  then have whole: "takeWhile (\<lambda>c. c \<noteq> CHR ''|'') t = t" "dropWhile (\<lambda>c. c \<noteq> CHR ''|'') t = []"
    by (simp_all add: takeWhile_eq_all_conv dropWhile_eq_Nil_conv)
  show "strtok_all t = ([t @ [NUL]], t @ [NUL])"
    using assms none [of "[]"] by (subst strtok_all.simps)
      (simp add: Let_def whole is_token_def del: dropWhile_eq_Nil_conv)
  show "strtok_all (t @ CHR ''|'' # s) =
      (let (toks, memory) = strtok_all s in ((t @ NUL # memory) # toks, t @ NUL # memory))"
    using t by (subst strtok_all.simps, simp only: none)
      (simp add: Let_def takeWhile_append2 dropWhile_append2 all)
qed

lemma strtok_all_join:
  assumes "list_all is_token ts"
  shows "list_all2 (\<lambda>t a. \<exists>r. a = t @ NUL # r) ts (fst (strtok_all (join_bar ts)))"
  using assms
proof (induction ts rule: join_bar.induct)
  case 1
  show ?case by (subst strtok_all.simps) simp
next
  case (2 t)
  then show ?case by (simp add: strtok_all_token(1))
next
  case (3 t u ts)
  then show ?case
    by (cases "strtok_all (join_bar (u # ts))") (auto simp: strtok_all_token(2))
qed

section \<open>The whole program\<close>

text \<open>
  What the comments of \<open>rkgrep.c\<close> promise of the functions to be written: the two matchers, and the
  matcher that goes through a filter made for the length of the pattern.
\<close>

definition rk_pkg_ok :: "rk_pkg \<Rightarrow> bool" where
  "rk_pkg_ok pkg \<longleftrightarrow>
     matcher_ok (p_naive pkg) \<and> matcher_ok (p_rk pkg) \<and>
     (\<forall>m doc n. NUL \<in> set doc \<and> 0 < m \<and> m \<le> int (length (c_str doc)) \<and> 0 < n \<and> n mod 8 = 0 \<longrightarrow>
        (\<exists>bf. p_create_bloom pkg m doc n = Inr bf \<and>
           (\<forall>pat u. NUL \<in> set pat \<and> int (length (c_str pat)) = m \<longrightarrow>
              match_spec pat doc (p_using_bloom pkg pat doc bf u))))"

text \<open>The output for one pattern: its first line, and a note when it occurs more than once.\<close>

definition report :: "string \<Rightarrow> string \<Rightarrow> rk_out list" where
  "report d p =
     (let ps = positions p d in
      Sentence (matched_line p d (hd ps)) # (if length ps > 1 then [OnlyOne (int (length ps)) p] else []))"

definition found_inside :: "string \<Rightarrow> string \<Rightarrow> bool" where
  "found_inside d p \<longleftrightarrow> positions p d \<noteq> [] \<and> hd (positions p d) + length p < length d"

lemma match_loop_report:
  assumes "list_all2 (\<lambda>t a. \<exists>r. a = t @ NUL # r) toks pats" and "list_all is_token toks"
    and "list_all (found_inside d) toks" and "NUL \<notin> set d" and "int (length d) < INT_MAX"
    and "\<And>pat u. pat \<in> set pats \<Longrightarrow> match_spec pat (d @ [NUL]) (match pat (d @ [NUL]) u)"
  shows "match_loop match u i (d @ [NUL]) pats = Inr (concat (map (report d) toks))"
  using assms(1,2,3,6)
proof (induction toks pats arbitrary: i rule: list_all2_induct)
  case (Cons t ts a as)
  then obtain r where a: "a = t @ NUL # r" by blast
  have t: "NUL \<notin> set t" "t \<noteq> []" using Cons.prems(1) by (simp_all add: is_token_def)
  let ?ps = "positions t d"
  have cs: "c_str a = t" "c_str (d @ [NUL]) = d" using a t assms(4) by (simp_all add: c_str_append_NUL)
  have ps: "?ps \<noteq> []" "hd ?ps + length t < length d"
    using Cons.prems(2) by (simp_all add: found_inside_def)
  then have m: "match a (d @ [NUL]) (u i) = Inr (int (length ?ps), int (hd ?ps))"
    using Cons.prems(3) [of a "u i"] by (auto simp: match_spec_def Let_def cs)
  have "occurs_at t d (hd ?ps)" using ps(1) t(2) by (intro positions_in) auto
  then have p: "print_matched_sentence (int (hd ?ps)) a (d @ [NUL]) = Inr (matched_line t d (hd ?ps))"
    unfolding a using ps(2) assms(4,5) t(1) by (intro print_matched_line) simp_all
  have "match_loop match u (Suc i) (d @ [NUL]) as = Inr (concat (map (report d) ts))"
    using Cons by simp
  with m p show ?case by (simp add: report_def [of d t] Let_def cs(1))
qed simp

lemma same_lengths_ok:
  assumes "list_all2 (\<lambda>t a. \<exists>r. a = t @ NUL # r) toks pats" and "list_all is_token toks"
    and "list_all (\<lambda>t. int (length t) = m) toks"
  shows "same_lengths m pats = Inr ()"
  using assms
proof (induction toks pats rule: list_all2_induct)
  case (Cons t ts a as)
  then obtain r where "a = t @ NUL # r" by blast
  with Cons show ?case by (simp add: c_strlen_def c_str_append_NUL is_token_def)
qed simp

text \<open>Every array of the patterns holds one of the tokens.\<close>

lemma token_array:
  assumes "list_all2 (\<lambda>t a. \<exists>r. a = t @ NUL # r) toks pats" and "list_all is_token toks" and "a \<in> set pats"
  shows "NUL \<in> set a" "c_str a \<in> set toks" "c_str a \<noteq> []"
proof -
  obtain i where i: "i < length pats" "a = pats ! i" using assms(3) by (auto simp: in_set_conv_nth)
  with assms(1) have n: "i < length toks" "\<exists>r. a = toks ! i @ NUL # r" by (auto simp: list_all2_conv_all_nth)
  then have "toks ! i \<in> set toks" "is_token (toks ! i)" using assms(2) by (simp_all add: list_all_length)
  with n show "NUL \<in> set a" "c_str a \<in> set toks" "c_str a \<noteq> []"
    by (auto simp: c_str_append_NUL is_token_def)
qed

lemma rk_pkg_okD:
  assumes "rk_pkg_ok pkg" and "NUL \<notin> set d" and "0 < m" and "m \<le> length d"
  obtains bf where "p_create_bloom pkg (int m) (d @ [NUL]) (int (length d) * 8) = Inr bf"
    "\<And>pat u. NUL \<in> set pat \<Longrightarrow> length (c_str pat) = m \<Longrightarrow>
       match_spec pat (d @ [NUL]) (p_using_bloom pkg pat (d @ [NUL]) bf u)"
proof -
  have "NUL \<in> set (d @ [NUL]) \<and> 0 < int m \<and> int m \<le> int (length (c_str (d @ [NUL]))) \<and>
      0 < int (length d) * 8 \<and> int (length d) * 8 mod 8 = 0"
    using assms(2-4) by (cases "d = []") (simp_all add: c_str_append_NUL)
  from assms(1) [unfolded rk_pkg_ok_def, THEN conjunct2, THEN conjunct2, THEN spec, THEN spec, THEN spec,
      THEN mp, OF this]
  obtain bf where "p_create_bloom pkg (int m) (d @ [NUL]) (int (length d) * 8) = Inr bf"
    "\<forall>pat u. NUL \<in> set pat \<and> int (length (c_str pat)) = int m \<longrightarrow>
       match_spec pat (d @ [NUL]) (p_using_bloom pkg pat (d @ [NUL]) bf u)"
    by blast
  with that show ?thesis by simp
qed

lemma run_algo_report:
  assumes pkg: "rk_pkg_ok pkg" and algo: "algo \<in> {Naive, RK, RKBloom}"
    and arr: "list_all2 (\<lambda>t a. \<exists>r. a = t @ NUL # r) toks pats"
    and toks: "toks \<noteq> []" "list_all is_token toks" "list_all (found_inside d) toks"
    and len: "algo = RKBloom \<longrightarrow> list_all (\<lambda>t. length t = length (hd toks)) toks"
    and d: "NUL \<notin> set d" "8 * int (length d) < INT_MAX"
  shows "run_algo pkg u algo pats (d @ [NUL]) = Inr (concat (map (report d) toks))"
proof -
  note pats = token_array [OF arr toks(2)]
  have loop: "match_loop f u 0 (d @ [NUL]) pats = Inr (concat (map (report d) toks))"
    if "\<And>pat u. pat \<in> set pats \<Longrightarrow> match_spec pat (d @ [NUL]) (f pat (d @ [NUL]) u)" for f
    using that d by (intro match_loop_report [OF arr toks(2,3)]) simp_all
  have ok: "match_loop f u 0 (d @ [NUL]) pats = Inr (concat (map (report d) toks))" if "matcher_ok f" for f
    using pats by (intro loop matcher_okD [OF that]) simp_all
  show ?thesis
  proof (cases "algo = RKBloom")
    case False
    with algo pkg ok show ?thesis by (auto simp: run_algo_def rk_pkg_ok_def)
  next
    case True
    obtain t ts a as where c: "toks = t # ts" "pats = a # as"
      using arr toks(1) by (cases toks; cases pats) auto
    have a: "c_strlen a = Inr (int (length t))"
      using arr toks(2) by (auto simp: c c_strlen_def is_token_def c_str_append_NUL)
    have eq: "length x = length t" if "x \<in> set toks" for x
      using len True that by (auto simp: c list_all_iff)
    have same: "same_lengths (int (length t)) as = Inr ()"
    proof (rule same_lengths_ok)
      show "list_all (\<lambda>x. int (length x) = int (length t)) ts"
        unfolding list_all_iff by (intro ballI arg_cong [of _ _ int] eq) (simp add: c)
    qed (use arr toks(2) in \<open>simp_all add: c\<close>)
    have "0 < length t" "length t \<le> length d"
      using toks(2,3) by (auto simp: c is_token_def found_inside_def)
    then obtain bf where bf: "p_create_bloom pkg (int (length t)) (d @ [NUL]) (int (length d) * 8) = Inr bf"
      "\<And>pat u. NUL \<in> set pat \<Longrightarrow> length (c_str pat) = length t \<Longrightarrow>
         match_spec pat (d @ [NUL]) (p_using_bloom pkg pat (d @ [NUL]) bf u)"
      using rk_pkg_okD [OF pkg d(1)] by blast
    have "match_loop (\<lambda>pat doc. p_using_bloom pkg pat doc bf) u 0 (d @ [NUL]) pats =
        Inr (concat (map (report d) toks))"
      by (intro loop bf(2) pats(1) eq pats(2))
    moreover have n: "uint (word_of_int (int (length d) * 8) :: size_t) = int (length d) * 8"
      by (rule uint64_of_int) (use d(2) in \<open>simp_all add: INT_MAX_def\<close>)
    have "int_of_size (word_of_int (int (length d) * 8)) = int (length d) * 8"
      using int_of_size_small [of "word_of_int (int (length d) * 8)", unfolded n] d(2) by (simp only: INT_MAX_def)
    ultimately show ?thesis
      using a same bf(1) d(1) by (simp add: True run_algo_def c c_strlen_def c_str_append_NUL)
  qed
qed

text \<open>
  The arguments and the file are read, and the algorithm runs on the contents of the file and the byte
  that \<open>malloc\<close> left after them, whatever it is.
\<close>

lemma rkgrep_main_reads:
  assumes "rk_options opts RK = Inr algo" and "toks \<noteq> []" and "list_all is_token toks"
    and "length toks < MAX_PATTERNS" and "fs name = Some (plain_file d)" and "ascii_text d"
  shows "rkgrep_main pkg fs True junk u opts [join_bar toks, name] =
    run_algo pkg u algo (fst (strtok_all (join_bar toks))) (d @ [junk])"
proof -
  have len: "length (fst (strtok_all (join_bar toks))) = length toks"
    using list_all2_lengthD [OF strtok_all_join [OF assms(3)]] by simp
  then have "fst (strtok_all (join_bar toks)) \<noteq> []" using assms(2) by auto
  moreover have "read_ascii_file (fs name) True junk = Inr (Some (d @ [junk]))"
    using check_ascii_ok [of 0 "length d" "d @ [junk]"] assms(5,6)
    by (simp add: read_ascii_file_def plain_file_def)
  ultimately show ?thesis using assms(1,4) len by (simp add: rkgrep_main_def)
qed

text \<open>Without a NUL after the contents, the \<open>strlen\<close> that sizes the filter runs past the array.\<close>

lemma run_algo_unterminated:
  assumes arr: "list_all2 (\<lambda>t a. \<exists>r. a = t @ NUL # r) toks pats" and "list_all is_token toks"
    and "list_all (\<lambda>t. length t = length (hd toks)) toks" and "toks \<noteq> []" and doc: "NUL \<notin> set doc"
  shows "run_algo pkg u RKBloom pats doc = Inl OutOfBounds"
proof -
  obtain t ts a as where c: "toks = t # ts" "pats = a # as"
    using arr assms(4) by (cases toks; cases pats) auto
  have a: "c_strlen a = Inr (int (length t))"
    using arr assms(2) by (auto simp: c c_strlen_def is_token_def c_str_append_NUL)
  moreover have "same_lengths (int (length t)) as = Inr ()"
    by (rule same_lengths_ok [of ts]) (use arr assms(2,3) in \<open>simp_all add: c\<close>)
  ultimately show ?thesis using doc by (simp add: c run_algo_def c_strlen_def)
qed

text \<open>
  C7: \<open>rkgrep\<close> on a file of ASCII text, linked with functions that keep the promises of \<open>rkgrep.c\<close>,
  for patterns joined by bars that each occur in the file and end before its end (and have one length
  for the Bloom filter). The algorithm is given the contents of the file and the byte \<open>junk\<close> that
  \<open>malloc\<close> left after them. If that byte is NUL, the program prints for each pattern, in order, the line
  of its first occurrence with the match in red, and how often it occurs if that is more than once. If
  it is any other byte, the document has no terminator, which the functions are not promised to
  cope with; with the Bloom filter the program itself then reads past the end of the array.
\<close>

theorem rkgrep_prints_matches:
  assumes "rk_pkg_ok pkg" and "rk_options opts RK = Inr algo" and "algo \<in> {Naive, RK, RKBloom}"
    and "toks \<noteq> []" and "list_all is_token toks" and "length toks < MAX_PATTERNS"
    and "fs name = Some (plain_file d)" and "ascii_text d" and "8 * int (length d) < INT_MAX"
    and "list_all (found_inside d) toks"
    and "algo = RKBloom \<longrightarrow> list_all (\<lambda>t. length t = length (hd toks)) toks"
  shows "rkgrep_main pkg fs True junk u opts [join_bar toks, name] =
      run_algo pkg u algo (fst (strtok_all (join_bar toks))) (d @ [junk]) \<and>
    (if junk = NUL
     then rkgrep_main pkg fs True junk u opts [join_bar toks, name] = Inr (concat (map (report d) toks))
     else NUL \<notin> set (d @ [junk]) \<and>
       (algo = RKBloom \<longrightarrow> rkgrep_main pkg fs True junk u opts [join_bar toks, name] = Inl OutOfBounds))"
proof -
  note arr = strtok_all_join [OF assms(5)]
  have d: "NUL \<notin> set d" using assms(8) by (auto simp: ascii_text_def NUL_def schar_def)
  have "rkgrep_main pkg fs True junk u opts [join_bar toks, name] =
      run_algo pkg u algo (fst (strtok_all (join_bar toks))) (d @ [junk])"
    using assms(2,4-8) by (rule rkgrep_main_reads)
  moreover have "run_algo pkg u algo (fst (strtok_all (join_bar toks))) (d @ [NUL]) =
      Inr (concat (map (report d) toks))"
    by (rule run_algo_report [OF assms(1,3) arr assms(4,5,10,11) d assms(9)])
  moreover have "run_algo pkg u RKBloom (fst (strtok_all (join_bar toks))) (d @ [junk]) = Inl OutOfBounds"
    if "junk \<noteq> NUL" "algo = RKBloom"
    by (rule run_algo_unterminated [OF arr assms(5) _ assms(4)]) (use assms(11) d that in simp_all)
  ultimately show ?thesis using d by auto
qed

text \<open>A package made of the reference matcher, on a file of two lines.\<close>

definition demo_rk_pkg :: rk_pkg where
  "demo_rk_pkg = \<lparr>p_naive = ref_match, p_rk = ref_match, p_create_bloom = (\<lambda>m doc n. Inr None),
     p_using_bloom = (\<lambda>pat doc bf. ref_match pat doc)\<rparr>"

lemma demo_rk_pkg_ok: "rk_pkg_ok demo_rk_pkg"
  by (simp add: rk_pkg_ok_def demo_rk_pkg_def ref_match_ok) (simp add: match_spec_def ref_match_def Let_def)

definition demo_doc :: string where
  "demo_doc = ''ab cd'' @ NEWLINE # ''xcd ef'' @ [NEWLINE]"

lemma demo_positions: "positions ''cd'' demo_doc = [3, 7]" "positions ''ef'' demo_doc = [10]"
  by (simp_all add: positions_def occurs_at_def demo_doc_def NEWLINE_def upt_rec)

theorem rkgrep_prints_matches_witness:
  "rkgrep_main demo_rk_pkg (\<lambda>_. Some (plain_file demo_doc)) True NUL (\<lambda>_. 0) [(CHR ''a'', ''rkbloom'')]
     [''cd|ef'', ''file''] =
   Inr [Sentence (matched_line ''cd'' demo_doc 3), OnlyOne 2 ''cd'', Sentence (matched_line ''ef'' demo_doc 10)]"
proof -
  have "rkgrep_main demo_rk_pkg (\<lambda>_. Some (plain_file demo_doc)) True NUL (\<lambda>_. 0) [(CHR ''a'', ''rkbloom'')]
      [join_bar [''cd'', ''ef''], ''file''] = Inr (concat (map (report demo_doc) [''cd'', ''ef'']))"
    by (rule rkgrep_prints_matches [OF demo_rk_pkg_ok, of _ RKBloom, where junk = NUL, THEN conjunct2,
          unfolded if_P [OF refl]])
      (simp_all add: which_algo_def is_token_def NUL_def MAX_PATTERNS_def found_inside_def demo_positions,
        simp_all add: demo_doc_def NEWLINE_def ascii_text_def schar_def INT_MAX_def)
  then show ?thesis by (simp add: report_def demo_positions)
qed

end
