(* ===== verification/RKGrep_Suite.thy ===== *)
theory RKGrep_Suite
  imports RKGrep_Test RKGrep_Main
begin

text \<open>
  The rest of \<open>rklab/rkgrep_test.c\<close>: the tests of the Rabin-Karp hash, of the Bloom filter and of the
  matcher that uses one, and the main program. They compare the functions to be written with a
  reference in \<open>rkgrep_harness.o\<close>, which is there as an object file only: its functions are arguments, as
  are the functions to be written. Times and messages are left out, and so is \<open>bloom_free\<close> on the
  filters a test is done with. The theorems show that the tests accept every implementation that does
  what the comments of \<open>rkgrep.c\<close> and \<open>bloom.c\<close> ask for, and what they do not notice.
\<close>

section \<open>The test of the Rabin-Karp hash\<close>

record rk_hash_pkg =
  hk_init :: "string \<Rightarrow> int \<Rightarrow> int \<Rightarrow> (int \<times> int) res"
  hk_next :: "int \<Rightarrow> int \<Rightarrow> char \<Rightarrow> char \<Rightarrow> int res"

fun next_loop ::
  "rk_hash_pkg \<Rightarrow> rk_hash_pkg \<Rightarrow> int \<Rightarrow> string \<Rightarrow> int \<Rightarrow> nat \<Rightarrow> int \<Rightarrow> int \<Rightarrow> int \<Rightarrow> unit res" where
  "next_loop S R pattern_len doc h 0 i hash hash1 = Inr ()"
| "next_loop S R pattern_len doc h (Suc k) i hash hash1 =
     res_bind (get_arr doc (i - pattern_len)) (\<lambda>prev.
     res_bind (get_arr doc i) (\<lambda>new.
     res_bind (hk_next S hash h prev new) (\<lambda>hash'.
     res_bind (hk_next R hash1 h prev new) (\<lambda>hash1'.
     res_bind (rk_panic_cond (hash' = hash1')) (\<lambda>_.
     next_loop S R pattern_len doc h k (i + 1) hash' hash1')))))"

text \<open>Both calls of the functions that initialise the hash get the address of \<open>h\<close>; \<open>u\<close> is in \<open>h\<close> before.\<close>

definition test_rkhash :: "rk_hash_pkg \<Rightarrow> rk_hash_pkg \<Rightarrow> int \<Rightarrow> int \<Rightarrow> string \<Rightarrow> unit res" where
  "test_rkhash S R u pattern_len doc =
     res_bind (hk_init S doc pattern_len u) (\<lambda>(hash, h).
     res_bind (hk_init R doc pattern_len h) (\<lambda>(hash1, h').
     res_bind (rk_panic_cond (hash = hash1)) (\<lambda>_.
     res_bind (c_strlen doc) (\<lambda>dlen.
     next_loop S R pattern_len doc h' (nat (dlen - pattern_len)) pattern_len hash hash1))))"

definition test_rk ::
  "rk_hash_pkg \<Rightarrow> rk_hash_pkg \<Rightarrow> matcher \<Rightarrow> int \<Rightarrow> (nat \<Rightarrow> int) \<Rightarrow> int \<Rightarrow> int \<Rightarrow> unit res" where
  "test_rk S R match u rnd m n =
     (let doc = ''abracadabra'' @ [NUL] in
      res_bind (test_rkhash S R u 3 doc) (\<lambda>_.
      res_bind (match (''aaa'' @ [NUL]) doc u) (\<lambda>(n_matches, pos).
      res_bind (rk_panic_cond (n_matches = 0)) (\<lambda>_.
      worst_case_loop match u rnd m n 100 0 (replicate (nat n) (CHR ''a'') @ [NUL])))))"

section \<open>The test of the Bloom filter\<close>

type_synonym bloom_adder = "bloom_filter \<Rightarrow> int \<Rightarrow> bloom_filter res"

definition test_bloom_bsz_large :: int where "test_bloom_bsz_large = 8000"

definition test_bloom_bsz_small :: int where "test_bloom_bsz_small = 80"

fun compare_bits :: "bloom_filter \<Rightarrow> bloom_filter \<Rightarrow> nat \<Rightarrow> int \<Rightarrow> unit res" where
  "compare_bits bf bf1 0 i = Inr ()"
| "compare_bits bf bf1 (Suc k) i =
     res_bind (bloom_bit_at_pos bf i) (\<lambda>b.
     res_bind (bloom_bit_at_pos bf1 i) (\<lambda>b1.
     res_bind (rk_panic_cond (b = b1)) (\<lambda>_. compare_bits bf bf1 k (i + 1))))"

text \<open>The numbers that are added have up to 62 bits, from two calls of \<open>rand\<close>.\<close>

definition big_number :: "(nat \<Rightarrow> int) \<Rightarrow> nat \<Rightarrow> int res" where
  "big_number rnd r = res_bind (chk_llong (push_bit 31 (rnd r))) (\<lambda>x. Inr (x OR rnd (Suc r)))"

fun add_numbers ::
  "bloom_adder \<Rightarrow> bloom_adder \<Rightarrow> (nat \<Rightarrow> int) \<Rightarrow> nat \<Rightarrow> nat \<Rightarrow> bloom_filter \<Rightarrow> bloom_filter \<Rightarrow> int list \<Rightarrow>
     (bloom_filter \<times> bloom_filter \<times> int list) res" where
  "add_numbers add add1 rnd 0 r bf bf1 test_numbers = Inr (bf, bf1, test_numbers)"
| "add_numbers add add1 rnd (Suc k) r bf bf1 test_numbers =
     res_bind (big_number rnd r) (\<lambda>x.
     res_bind (add bf x) (\<lambda>bf'.
     res_bind (add1 bf1 x) (\<lambda>bf1'.
     add_numbers add add1 rnd k (r + 2) bf' bf1' (test_numbers @ [x]))))"

fun query_all :: "(bloom_filter \<Rightarrow> int \<Rightarrow> bool res) \<Rightarrow> bloom_filter \<Rightarrow> int list \<Rightarrow> unit res" where
  "query_all query bf [] = Inr ()"
| "query_all query bf (x # xs) =
     res_bind (query bf x) (\<lambda>b. res_bind (rk_panic_cond b) (\<lambda>_. query_all query bf xs))"

text \<open>\<open>add\<close> and \<open>query\<close> are to be written, \<open>init1\<close> and \<open>add1\<close> are the reference; memory is available.\<close>

definition test_bloom ::
  "bloom_adder \<Rightarrow> (bloom_filter \<Rightarrow> int \<Rightarrow> bool res) \<Rightarrow> (int \<Rightarrow> bloom_filter res) \<Rightarrow> bloom_adder \<Rightarrow>
     (nat \<Rightarrow> int) \<Rightarrow> unit res" where
  "test_bloom add query init1 add1 rnd =
     res_bind (bloom_init True (\<lambda>_. True) test_bloom_bsz_small) (\<lambda>bf.
     res_bind (init1 test_bloom_bsz_small) (\<lambda>bf1.
     (let x = rnd 0 smod 100 in
      res_bind (add bf x) (\<lambda>bf.
      res_bind (add1 bf1 x) (\<lambda>bf1.
      res_bind (compare_bits bf bf1 (nat test_bloom_bsz_small) 0) (\<lambda>_.
      res_bind (query bf x) (\<lambda>b.
      res_bind (rk_panic_cond b) (\<lambda>_.
      res_bind (bloom_init True (\<lambda>_. True) test_bloom_bsz_large) (\<lambda>bf.
      res_bind (init1 test_bloom_bsz_large) (\<lambda>bf1.
      res_bind (add_numbers add add1 rnd (nat (test_bloom_bsz_large sdiv 10)) 1 bf bf1 []) (\<lambda>(bf, bf1, test_numbers).
      res_bind (query_all query bf test_numbers) (\<lambda>_.
      compare_bits bf bf1 (nat test_bloom_bsz_large) 0))))))))))))"

section \<open>The test of the matcher with a filter\<close>

type_synonym bloom_creator = "int \<Rightarrow> string \<Rightarrow> int \<Rightarrow> bloom_filter option res"

fun compare_filters :: "bloom_filter option \<Rightarrow> bloom_filter option \<Rightarrow> nat \<Rightarrow> unit res" where
  "compare_filters (Some bf) (Some bf1) k = compare_bits bf bf1 k 0"
| "compare_filters bf bf1 k = (if k = 0 then Inr () else Inl NullDeref)"

fun bloom_match_loop :: "matcher \<Rightarrow> int \<Rightarrow> (nat \<Rightarrow> int) \<Rightarrow> int \<Rightarrow> int \<Rightarrow> nat \<Rightarrow> nat \<Rightarrow> string \<Rightarrow> unit res" where
  "bloom_match_loop match u rnd m n 0 r doc = Inr ()"
| "bloom_match_loop match u rnd m n (Suc k) r doc =
     (if rnd r smod 10 \<ge> 1
      then res_bind (test_match_at_pos match rnd (Suc r) u doc (- 1) 0 m) (\<lambda>_.
           bloom_match_loop match u rnd m n k (Suc r + nat m) doc)
      else if n - m = 0 then Inl DivByZero
      else res_bind (test_match_at_pos match rnd (r + 2) u doc (rnd (Suc r) smod (n - m)) 1 m) (\<lambda>_.
           bloom_match_loop match u rnd m n k (r + 2) doc))"

text \<open>
  With no filter, \<open>test_match_at_pos\<close> calls the function it is given, which is \<open>NULL\<close> here. \<open>new\<close> is the array
  \<open>malloc\<close> returns for the document; \<open>rnd2\<close> are the values of \<open>rand\<close> after the document is made.
\<close>

definition test_rk_bloom ::
  "bloom_creator \<Rightarrow> bloom_creator \<Rightarrow> (string \<Rightarrow> string \<Rightarrow> bloom_filter option \<Rightarrow> int \<Rightarrow> (int \<times> int) res) \<Rightarrow> int \<Rightarrow>
     (nat \<Rightarrow> int) \<Rightarrow> (nat \<Rightarrow> int) \<Rightarrow> string \<Rightarrow> int \<Rightarrow> int \<Rightarrow> unit res" where
  "test_rk_bloom create create1 match u rnd rnd2 new m n =
     (let doc = ''123 456 789'' @ [NUL]; pattern = ''456'' @ [NUL] in
      res_bind (create 3 doc test_bloom_bsz_small) (\<lambda>bf.
      res_bind (create1 3 doc test_bloom_bsz_small) (\<lambda>bf1.
      res_bind (compare_filters bf bf1 (nat test_bloom_bsz_small)) (\<lambda>_.
      res_bind (match pattern doc bf u) (\<lambda>(n_matches, pos).
      res_bind (rk_panic_cond (pos = 4)) (\<lambda>_.
      res_bind (generate_random_document rnd new n) (\<lambda>doc.
      res_bind (chk_int (n * 10)) (\<lambda>bloom_size.
      res_bind (create m doc bloom_size) (\<lambda>bf.
      res_bind (create1 m doc bloom_size) (\<lambda>bf1.
      res_bind (compare_filters bf bf1 (nat bloom_size)) (\<lambda>_.
      bloom_match_loop (\<lambda>p d. if bf = None then (\<lambda>_. Inl NullDeref) else match p d bf) u rnd2 m n 100 0 doc)))))))))))"

section \<open>The main program\<close>

definition which_test :: "string \<Rightarrow> algo_type res" where
  "which_test optarg =
     (if optarg = ''naive'' then Inr Naive
      else if optarg = ''rk'' then Inr RK
      else if optarg = ''bloom'' then Inr Bloom
      else if optarg = ''rkbloom'' then Inr RKBloom
      else Inl (Exit 1))"

text \<open>The state is \<open>which_test\<close>, \<open>test_pattern_len\<close> and \<open>test_document_len\<close>; the seed only fixes what \<open>rand\<close> returns.\<close>

fun suite_options :: "(char \<times> string) list \<Rightarrow> algo_type \<times> int \<times> int \<Rightarrow> (algo_type \<times> int \<times> int) res" where
  "suite_options [] st = Inr st"
| "suite_options ((c, optarg) # opts) (a, m, n) =
     (if c = CHR ''a'' then res_bind (which_test optarg) (\<lambda>a'. suite_options opts (a', m, n))
      else if c = CHR ''m'' then suite_options opts (a, c_atoi optarg, n)
      else if c = CHR ''n'' then suite_options opts (a, m, c_atoi optarg)
      else if c = CHR ''s'' \<or> c = CHR ''r'' then suite_options opts (a, m, n)
      else Inl (Exit 1))"

text \<open>The functions to be written, and those of the reference.\<close>

record rk_solution =
  s_pkg :: rk_pkg
  s_hash :: rk_hash_pkg
  s_add :: bloom_adder
  s_query :: "bloom_filter \<Rightarrow> int \<Rightarrow> bool res"

record rk_reference =
  r_hash :: rk_hash_pkg
  r_init :: "int \<Rightarrow> bloom_filter res"
  r_add :: bloom_adder
  r_create :: bloom_creator

definition test_if :: "bool \<Rightarrow> unit res \<Rightarrow> unit res" where
  "test_if b test = (if b then test else Inr ())"

text \<open>\<open>rnd t\<close> are the values of \<open>rand\<close> from the start of test \<open>t\<close> on.\<close>

definition suite_main ::
  "rk_solution \<Rightarrow> rk_reference \<Rightarrow> int \<Rightarrow> (algo_type \<Rightarrow> nat \<Rightarrow> int) \<Rightarrow> (nat \<Rightarrow> int) \<Rightarrow> (int \<Rightarrow> string) \<Rightarrow>
     (char \<times> string) list \<Rightarrow> unit res" where
  "suite_main S R u rnd rnd2 new opts =
     res_bind (suite_options opts (AllAlgos, 800, 100000)) (\<lambda>(which, m, n).
     res_bind (test_if (which = Naive \<or> which = AllAlgos) (test_naive (p_naive (s_pkg S)) u (rnd Naive) m n)) (\<lambda>_.
     res_bind (test_if (which = RK \<or> which = AllAlgos)
       (test_rk (s_hash S) (r_hash R) (p_rk (s_pkg S)) u (rnd RK) m n)) (\<lambda>_.
     res_bind (test_if (which = Bloom \<or> which = AllAlgos)
       (test_bloom (s_add S) (s_query S) (r_init R) (r_add R) (rnd Bloom))) (\<lambda>_.
     test_if (which = RKBloom \<or> which = AllAlgos)
       (test_rk_bloom (p_create_bloom (s_pkg S)) (r_create R) (p_using_bloom (s_pkg S)) u (rnd RKBloom) rnd2
         (new (n + 1)) m n)))))"

section \<open>What the test of the hash sees\<close>

text \<open>What the comments of \<open>rkhash_init\<close> and \<open>rkhash_next\<close> promise, on ASCII text.\<close>

definition ascii :: "char \<Rightarrow> bool" where
  "ascii c \<longleftrightarrow> of_char c < (128 :: int)"

definition hash_pkg_ok :: "rk_hash_pkg \<Rightarrow> bool" where
  "hash_pkg_ok S \<longleftrightarrow>
     (\<forall>doc m u. 0 < m \<and> m \<le> length doc \<and> list_all ascii (take m doc) \<longrightarrow>
        hk_init S doc (int m) u = Inr (rk_hash_spec (take m doc), rk_pow m)) \<and>
     (\<forall>l w r. ascii l \<and> ascii r \<longrightarrow>
        hk_next S (rk_hash_spec (l # w)) (rk_pow (length (l # w))) l r = Inr (rk_hash_spec (w @ [r])))"

lemma hash_pkg_initD:
  assumes "hash_pkg_ok S" "0 < m" "m \<le> length doc" "list_all ascii (take m doc)"
  shows "hk_init S doc (int m) u = Inr (rk_hash_spec (take m doc), rk_pow m)"
  using assms by (simp add: hash_pkg_ok_def)

lemma next_window:
  assumes "0 < m" and "j + m < length d"
  shows "take m (drop j d) = d ! j # take (m - 1) (drop (Suc j) d)"
    and "take m (drop (Suc j) d) = take (m - 1) (drop (Suc j) d) @ [d ! (j + m)]"
proof -
  obtain m' where m: "m = Suc m'" using assms(1) by (cases m) auto
  have "drop j d = d ! j # drop (Suc j) d" using assms(2) by (simp add: Cons_nth_drop_Suc)
  then show "take m (drop j d) = d ! j # take (m - 1) (drop (Suc j) d)" by (simp add: m)
  show "take m (drop (Suc j) d) = take (m - 1) (drop (Suc j) d) @ [d ! (j + m)]"
    using assms(2) by (simp add: m take_Suc_conv_app_nth)
qed

lemma hash_next_window:
  assumes "hash_pkg_ok P" "0 < m" "j + m < length doc" "ascii (doc ! j)" "ascii (doc ! (j + m))"
  shows "hk_next P (rk_hash_spec (take m (drop j doc))) (rk_pow m) (doc ! j) (doc ! (j + m)) =
    Inr (rk_hash_spec (take m (drop (Suc j) doc)))"
proof -
  note w = next_window [OF assms(2,3)]
  have "length (doc ! j # take (m - 1) (drop (Suc j) doc)) = m" using assms(2,3) by simp
  then show ?thesis using assms(1,4,5) unfolding w hash_pkg_ok_def by metis
qed

lemma next_loop_ok:
  assumes "hash_pkg_ok S" "hash_pkg_ok R" and m: "0 < m" and asc: "list_all ascii (take (j + m + k) doc)"
    and "j + m + k \<le> length doc"
  shows "next_loop S R (int m) doc (rk_pow m) k (int (j + m)) (rk_hash_spec (take m (drop j doc)))
    (rk_hash_spec (take m (drop j doc))) = Inr ()"
  using assms(4,5)
proof (induction k arbitrary: j)
  case (Suc k)
  have lt: "j + m < length doc" using Suc.prems by simp
  have step: "hk_next P (rk_hash_spec (take m (drop j doc))) (rk_pow m) (doc ! j) (doc ! (j + m)) =
      Inr (rk_hash_spec (take m (drop (Suc j) doc)))" if "hash_pkg_ok P" for P
    using Suc.prems by (intro hash_next_window [OF that m lt]) (simp_all add: list_all_length)
  have "next_loop S R (int m) doc (rk_pow m) k (int (Suc j + m)) (rk_hash_spec (take m (drop (Suc j) doc)))
    (rk_hash_spec (take m (drop (Suc j) doc))) = Inr ()"
    using Suc.prems by (intro Suc.IH) simp_all
  moreover have "get_arr doc (int (j + m) - int m) = Inr (doc ! j)" "get_arr doc (int (j + m)) = Inr (doc ! (j + m))"
    using lt by (simp_all add: get_arr_def nat_add_distrib)
  ultimately show ?case
    using step [OF assms(1)] step [OF assms(2)] by (simp add: rk_panic_cond_def add.commute)
qed simp

lemma test_rkhash_ok:
  assumes "hash_pkg_ok S" "hash_pkg_ok R" and "0 < m" and "m \<le> length d" and "NUL \<notin> set d" and "list_all ascii d"
  shows "test_rkhash S R u (int m) (d @ [NUL]) = Inr ()"
proof -
  have "hk_init P (d @ [NUL]) (int m) v = Inr (rk_hash_spec (take m d), rk_pow m)" if "hash_pkg_ok P" for P v
    using hash_pkg_initD [OF that assms(3), of "d @ [NUL]" v] assms(4,6) by (simp add: list_all_length)
  moreover have "c_strlen (d @ [NUL]) = Inr (int (length d))"
    using assms(5) by (simp add: c_strlen_def c_str_append_NUL)
  moreover have "nat (int (length d) - int m) = length d - m" by simp
  ultimately show ?thesis
    using next_loop_ok [OF assms(1-3), of 0 "length d - m" "d @ [NUL]"] assms
    by (simp add: test_rkhash_def rk_panic_cond_def)
qed

text \<open>A pair of functions as the comments ask for: the update is the one verified in \<open>RKGrep\<close>.\<close>

definition ref_hash :: rk_hash_pkg where
  "ref_hash = \<lparr>hk_init = (\<lambda>doc m h. Inr (rk_hash_spec (take (nat m) doc), rk_pow (nat m))), hk_next = rk_update\<rparr>"

lemma ref_hash_ok: "hash_pkg_ok ref_hash"
proof -
  have "rk_update (rk_hash_spec (l # w)) (rk_pow (Suc (length w))) l r = Inr (rk_hash_spec (w @ [r]))"
    if "ascii l" "ascii r" for l w r
    using rk_update_ok [of l r w] that by (simp add: ascii_def)
  then show ?thesis by (simp add: hash_pkg_ok_def ref_hash_def)
qed

text \<open>
  C40: the test of the hash functions does not see what \<open>rkhash_init\<close> stores in \<open>*h\<close>: both calls store into
  the same variable \<open>h\<close>, so that the value is overwritten by that of the reference, and \<open>h1\<close> is unused. Two
  packages that differ only in what they store there get the same verdict.
\<close>

theorem test_rkhash_ignores_h:
  assumes "\<And>doc m v w. hk_init R doc m v = hk_init R doc m w"
    and "\<And>doc m v. map_sum id fst (hk_init S' doc m v) = map_sum id fst (hk_init S doc m v)"
    and "hk_next S' = hk_next S"
  shows "test_rkhash S' R u m doc = test_rkhash S R u m doc"
proof -
  have nl: "next_loop S' R m doc h k i x y = next_loop S R m doc h k i x y" for h k i x y
    by (induction k arbitrary: i x y) (simp_all add: assms(3))
  have "(\<exists>e. hk_init S' doc m u = Inl e \<and> hk_init S doc m u = Inl e) \<or>
      (\<exists>x h h'. hk_init S' doc m u = Inr (x, h') \<and> hk_init S doc m u = Inr (x, h))"
    using assms(2) [of doc m u] by (cases "hk_init S' doc m u"; cases "hk_init S doc m u") auto
  moreover obtain r where "\<And>v. hk_init R doc m v = r" using assms(1) by metis
  ultimately show ?thesis by (elim disjE exE conjE) (simp_all only: test_rkhash_def nl res_bind.simps prod.case)
qed

theorem test_rkhash_ignores_h_witness:
  "test_rkhash (ref_hash\<lparr>hk_init := \<lambda>doc m h. Inr (rk_hash_spec (take (nat m) doc), 0)\<rparr>) ref_hash 0 3
     (''abracadabra'' @ [NUL]) = Inr ()"
proof -
  have "test_rkhash ref_hash ref_hash 0 (int 3) (''abracadabra'' @ [NUL]) = Inr ()"
    by (rule test_rkhash_ok [OF ref_hash_ok ref_hash_ok]) (simp_all add: NUL_def ascii_def)
  then show ?thesis
    by (subst test_rkhash_ignores_h [where S = ref_hash]) (simp_all add: ref_hash_def)
qed

lemma test_rk_ok:
  assumes "hash_pkg_ok S" "hash_pkg_ok R" and "matcher_ok match" and "0 < m" "m < n" "\<forall>j. 0 \<le> rnd j"
  shows "test_rk S R match u rnd (int m) (int n) = Inr ()"
proof -
  let ?doc = "''abracadabra'' @ [NUL]"
  have "test_rkhash S R u (int 3) ?doc = Inr ()"
    by (rule test_rkhash_ok [OF assms(1,2)]) (simp_all add: NUL_def ascii_def)
  moreover have "positions ''aaa'' ''abracadabra'' = []" by (simp add: positions_def occurs_at_def upt_rec)
  moreover have "c_str ?doc = ''abracadabra''" "c_str (''aaa'' @ [NUL]) = ''aaa''"
    by (rule c_str_append_NUL, simp add: NUL_def)+
  ultimately obtain j where "match (''aaa'' @ [NUL]) ?doc u = Inr (0, j)" "test_rkhash S R u 3 ?doc = Inr ()"
    using matcher_okD [OF assms(3), of "''aaa'' @ [NUL]" ?doc u] unfolding match_spec_def Let_def by auto
  then show ?thesis
    unfolding test_rk_def Let_def using worst_case_loop_ok [OF assms(3-6), of u 100 0]
    by (simp add: rk_panic_cond_def)
qed

section \<open>What the comparison of the filters sees\<close>

definition wf_filter :: "int \<Rightarrow> bloom_filter \<Rightarrow> bool" where
  "wf_filter n bf \<longleftrightarrow> bsz bf = n \<and> 8 * int (length (buf bf)) = n"

definition bit_read :: "bloom_filter \<Rightarrow> int \<Rightarrow> bool" where
  "bit_read bf p \<longleftrightarrow> 2 ^ nat (7 - 2 * (p mod 8)) \<le> uint (buf bf ! nat (p div 8))"

lemma all_from_Suc:
  "(\<forall>p::int. i \<le> p \<and> p < i + int (Suc k) \<longrightarrow> P p) \<longleftrightarrow> P i \<and> (\<forall>p. i + 1 \<le> p \<and> p < i + 1 + int k \<longrightarrow> P p)"
proof -
  have "i \<le> p \<and> p < i + int (Suc k) \<longleftrightarrow> p = i \<or> (i + 1 \<le> p \<and> p < i + 1 + int k)" for p by auto
  then show ?thesis by (simp only: imp_disjL all_conj_distrib) simp
qed

lemma compare_bits_value:
  assumes "wf_filter n bf" "wf_filter n bf1" and "0 \<le> i" "i + int k \<le> n"
  shows "compare_bits bf bf1 k i =
    (if \<forall>p. i \<le> p \<and> p < i + int k \<longrightarrow> bit_read bf p = bit_read bf1 p then Inr () else Inl AssertFail)"
  using assms(3,4)
proof (induction k arbitrary: i)
  case (Suc k)
  have rd: "bloom_bit_at_pos f i = Inr (bit_read f i)" if "wf_filter n f" for f
    using that Suc.prems unfolding wf_filter_def bit_read_def by (intro bloom_bit_at_pos_value) auto
  show ?case
    unfolding all_from_Suc using Suc.IH [of "i + 1"] Suc.prems rd [OF assms(1)] rd [OF assms(2)]
    by (auto simp: rk_panic_cond_def c_assert_def)
qed simp

text \<open>The comparison of a byte only sees which of the bounds 1, 2, 8, 32 and 128 it reaches.\<close>

definition same_class :: "byte \<Rightarrow> byte \<Rightarrow> bool" where
  "same_class b c \<longleftrightarrow> (\<forall>t\<in>{1, 2, 8, 32, 128}. t \<le> uint b \<longleftrightarrow> t \<le> uint c)"

lemma byte_reads:
  "(\<forall>k::int. 0 \<le> k \<and> k < 8 \<longrightarrow> (2 ^ nat (7 - 2 * k) \<le> uint b) = (2 ^ nat (7 - 2 * k) \<le> uint c)) \<longleftrightarrow> same_class b c"
proof -
  have "{k::int. 0 \<le> k \<and> k < 8} = {0, 1, 2, 3, 4, 5, 6, 7}" by auto
  then have "(\<forall>k::int. 0 \<le> k \<and> k < 8 \<longrightarrow> P k) \<longleftrightarrow> (\<forall>k\<in>{0, 1, 2, 3, 4, 5, 6, 7}. P k)" for P by blast
  then show ?thesis by (auto simp: same_class_def)
qed

text \<open>
  C39: the comparison of two filters, position by position, accepts exactly the filters whose bytes reach the
  same of the bounds 1, 2, 8, 32 and 128. So it depends on the highest bit set in each byte only, and
  a filter with wrong bits to the right of that one passes.
\<close>

theorem compare_bits_exact:
  assumes "wf_filter n bf" and "wf_filter n bf1"
  shows "compare_bits bf bf1 (nat n) 0 =
    (if \<forall>j<length (buf bf). same_class (buf bf ! j) (buf bf1 ! j) then Inr () else Inl AssertFail)"
proof -
  have n: "0 \<le> n" "n = 8 * int (length (buf bf))" using assms(1) by (auto simp: wf_filter_def)
  have "(\<forall>p. 0 \<le> p \<and> p < n \<longrightarrow> bit_read bf p = bit_read bf1 p) \<longleftrightarrow>
      (\<forall>j<length (buf bf). same_class (buf bf ! j) (buf bf1 ! j))" (is "?l \<longleftrightarrow> ?r")
  proof
    assume ?l
    show ?r
    proof (intro allI impI, unfold byte_reads [symmetric], intro allI impI)
      fix j and k :: int
      assume "j < length (buf bf)" and k: "0 \<le> k \<and> k < 8"
      then have "0 \<le> 8 * int j + k \<and> 8 * int j + k < n" using n by linarith
      with \<open>?l\<close> have "bit_read bf (8 * int j + k) = bit_read bf1 (8 * int j + k)" by blast
      moreover have "(8 * int j + k) div 8 = int j" "(8 * int j + k) mod 8 = k" using k by auto
      ultimately show "(2 ^ nat (7 - 2 * k) \<le> uint (buf bf ! j)) = (2 ^ nat (7 - 2 * k) \<le> uint (buf bf1 ! j))"
        by (simp add: bit_read_def)
    qed
  next
    assume ?r
    show ?l
    proof (intro allI impI)
      fix p assume p: "0 \<le> p \<and> p < n"
      then have "nat (p div 8) < length (buf bf)" using n(2) by linarith
      moreover have "0 \<le> p mod 8 \<and> p mod 8 < 8" by simp
      ultimately show "bit_read bf p = bit_read bf1 p"
        using \<open>?r\<close> unfolding byte_reads [symmetric] bit_read_def by blast
    qed
  qed
  then show ?thesis using compare_bits_value [OF assms, of 0 "nat n"] n(1) by simp
qed

theorem compare_bits_exact_witness:
  "compare_bits \<lparr>buf = [128], bsz = 8\<rparr> \<lparr>buf = [200], bsz = 8\<rparr> 8 0 = Inr ()"
  using compare_bits_exact [of 8 "\<lparr>buf = [128], bsz = 8\<rparr>" "\<lparr>buf = [200], bsz = 8\<rparr>"]
  by (simp add: wf_filter_def same_class_def)

section \<open>What the filter has to do\<close>

text \<open>
  The comments of \<open>bloom.c\<close>: the positions of an element are its hash values modulo the size of the filter,
  \<open>bloom_add\<close> sets them, and \<open>bloom_query\<close> tells whether all of them are set. \<open>bloom_spec n xs\<close> describes a
  filter of \<open>n\<close> bits that holds the elements \<open>xs\<close>.
\<close>

definition hash_positions :: "int \<Rightarrow> int \<Rightarrow> int set" where
  "hash_positions n x = {v mod n | i v. 0 \<le> i \<and> i < BLOOM_HASH_NUM \<and> hash_i i x = Inr v}"

definition bloom_spec :: "int \<Rightarrow> int list \<Rightarrow> bloom_filter \<Rightarrow> bool" where
  "bloom_spec n xs bf \<longleftrightarrow> wf_filter n bf \<and>
     (\<forall>q. 0 \<le> q \<and> q < n \<longrightarrow> (bloom_bit bf q \<longleftrightarrow> (\<exists>x\<in>set xs. q \<in> hash_positions n x)))"

definition rk_value :: "int \<Rightarrow> bool" where
  "rk_value x \<longleftrightarrow> 0 \<le> x \<and> in_llong x"

lemma rk_valueI: "0 \<le> x \<Longrightarrow> x < 2 ^ 63 \<Longrightarrow> rk_value x"
  by (auto simp: rk_value_def in_llong_def)

definition init_ok :: "(int \<Rightarrow> bloom_filter res) \<Rightarrow> bool" where
  "init_ok init \<longleftrightarrow> (\<forall>n. 0 < n \<and> n mod 8 = 0 \<and> in_int n \<longrightarrow> (\<exists>bf. init n = Inr bf \<and> bloom_spec n [] bf))"

definition add_ok :: "bloom_adder \<Rightarrow> bool" where
  "add_ok add \<longleftrightarrow>
     (\<forall>n xs bf x. 0 < n \<and> rk_value x \<and> bloom_spec n xs bf \<longrightarrow> (\<exists>bf'. add bf x = Inr bf' \<and> bloom_spec n (x # xs) bf'))"

definition query_ok :: "(bloom_filter \<Rightarrow> int \<Rightarrow> bool res) \<Rightarrow> bool" where
  "query_ok query \<longleftrightarrow>
     (\<forall>n bf x. 0 < n \<and> wf_filter n bf \<and> rk_value x \<longrightarrow> query bf x = Inr (\<forall>p\<in>hash_positions n x. bloom_bit bf p))"

lemma hash_positions_range: "0 < n \<Longrightarrow> p \<in> hash_positions n x \<Longrightarrow> 0 \<le> p \<and> p < n"
  by (auto simp: hash_positions_def)

text \<open>The description leaves no choice: two filters that hold the same elements are the same.\<close>

lemma bloom_spec_unique:
  assumes "bloom_spec n xs bf" "bloom_spec n ys bf1" "set xs = set ys"
  shows "bf = bf1"
proof -
  have len: "length (buf bf) = length (buf bf1)" "bsz bf = bsz bf1" "8 * int (length (buf bf)) = n"
    using assms(1,2) by (auto simp: bloom_spec_def wf_filter_def)
  have "buf bf ! i = buf bf1 ! i" if i: "i < length (buf bf)" for i
  proof (rule bit_word_eqI)
    fix k assume "k < LENGTH(8)"
    then have k: "k < 8" by simp
    let ?q = "8 * int i + (7 - int k)"
    have q: "?q div 8 = int i" "?q mod 8 = 7 - int k" using k by auto
    have "0 \<le> ?q \<and> ?q < n" using i k len(3) by linarith
    then have "bloom_bit bf ?q = bloom_bit bf1 ?q" using assms unfolding bloom_spec_def by blast
    then show "bit (buf bf ! i) k = bit (buf bf1 ! i) k" unfolding bloom_bit_def q by simp
  qed
  with len have "buf bf = buf bf1" by (intro nth_equalityI) auto
  with len(2) show ?thesis by simp
qed

lemma add_okD:
  assumes "add_ok add" "add_ok add1" "0 < n" "rk_value x" "bloom_spec n xs bf"
  obtains bf' where "add bf x = Inr bf'" "add1 bf x = Inr bf'" "bloom_spec n (x # xs) bf'"
  using assms bloom_spec_unique unfolding add_ok_def by metis

lemma init_okD:
  assumes "init_ok init" "init_ok init1" "0 < n" "n mod 8 = 0" "in_int n"
  obtains bf where "init n = Inr bf" "init1 n = Inr bf" "bloom_spec n [] bf"
  using assms bloom_spec_unique unfolding init_ok_def by metis

lemma compare_same:
  assumes "bloom_spec n xs bf"
  shows "compare_bits bf bf (nat n) 0 = Inr ()"
  using compare_bits_value [of n bf bf 0 "nat n"] assms by (auto simp: bloom_spec_def wf_filter_def)

lemma query_added:
  assumes "query_ok query" "0 < n" "bloom_spec n xs bf" "x \<in> set xs" "rk_value x"
  shows "query bf x = Inr True"
proof -
  have "query bf x = Inr (\<forall>p\<in>hash_positions n x. bloom_bit bf p)"
    using assms unfolding query_ok_def bloom_spec_def by blast
  moreover have "bloom_bit bf p" if "p \<in> hash_positions n x" for p
    using that hash_positions_range [OF assms(2)] assms(3,4) unfolding bloom_spec_def by blast
  ultimately show ?thesis by simp
qed

lemma bloom_init_ok: "init_ok (bloom_init True (\<lambda>_. True))"
proof -
  have "\<exists>bf. bloom_init True (\<lambda>_. True) n = Inr bf \<and> bloom_spec n [] bf" if "0 < n" "n mod 8 = 0" "in_int n" for n
  proof -
    have "bloom_init True (\<lambda>_. True) n = Inr \<lparr>buf = replicate (nat (n div 8)) 0, bsz = n\<rparr>"
      using bloom_init_value [of n "\<lambda>_. True"] that by simp
    moreover have "\<not> bloom_bit \<lparr>buf = replicate (nat (n div 8)) 0, bsz = n\<rparr> q" if "0 \<le> q" "q < n" for q
    proof -
      have "q div 8 < n div 8" using that \<open>n mod 8 = 0\<close> by presburger
      with that show ?thesis by (simp add: bloom_bit_def)
    qed
    ultimately show ?thesis using that by (auto simp: bloom_spec_def wf_filter_def)
  qed
  then show ?thesis by (auto simp: init_ok_def)
qed

lemma big_number_value:
  assumes "\<forall>j. 0 \<le> rnd j \<and> rnd j \<le> INT_MAX"
  shows "\<exists>x. big_number rnd r = Inr x \<and> rk_value x"
proof -
  have r: "0 \<le> rnd r" "rnd r \<le> INT_MAX" "0 \<le> rnd (Suc r)" "rnd (Suc r) \<le> INT_MAX" using assms by blast+
  then have p: "0 \<le> push_bit 31 (rnd r)" "push_bit 31 (rnd r) < 2 ^ 63"
    by (simp_all add: push_bit_eq_mult INT_MAX_def)
  have "push_bit 31 (rnd r) OR rnd (Suc r) < 2 ^ 63"
    by (rule OR_upper) (use p r in \<open>simp_all add: INT_MAX_def\<close>)
  moreover have "0 \<le> push_bit 31 (rnd r) OR rnd (Suc r)" using p(1) r by (simp only: or_nonnegative_int_iff)
  ultimately have "rk_value (push_bit 31 (rnd r) OR rnd (Suc r))" by (intro rk_valueI)
  moreover have "in_llong (push_bit 31 (rnd r))" using rk_valueI [OF p] by (simp add: rk_value_def)
  ultimately show ?thesis by (simp add: big_number_def)
qed

lemma add_numbers_ok:
  assumes "add_ok add" "add_ok add1" "0 < n" and rnd: "\<forall>j. 0 \<le> rnd j \<and> rnd j \<le> INT_MAX"
    and "bloom_spec n xs bf" "set ys = set xs" "\<forall>x\<in>set xs. rk_value x"
  shows "\<exists>bf' zs. add_numbers add add1 rnd k r bf bf ys = Inr (bf', bf', zs) \<and> bloom_spec n zs bf' \<and>
    (\<forall>x\<in>set zs. rk_value x)"
  using assms(5-7)
proof (induction k arbitrary: r bf xs ys)
  case 0
  then show ?case by (auto simp: bloom_spec_def)
next
  case (Suc k)
  obtain x where x: "big_number rnd r = Inr x" "rk_value x" using big_number_value [OF rnd] by blast
  obtain bf' where "add bf x = Inr bf'" "add1 bf x = Inr bf'" "bloom_spec n (x # xs) bf'"
    using add_okD [OF assms(1-3) x(2) Suc.prems(1)] .
  with Suc.IH [of "x # xs" bf' "ys @ [x]" "r + 2"] x Suc.prems show ?case by simp
qed

lemma query_all_ok:
  assumes "query_ok query" "0 < n" "bloom_spec n xs bf" "\<forall>x\<in>set xs. rk_value x" "set ys \<subseteq> set xs"
  shows "query_all query bf ys = Inr ()"
  using assms(5)
proof (induction ys)
  case (Cons y ys)
  then have "query bf y = Inr True" using query_added [OF assms(1-3)] assms(4) by simp
  with Cons show ?case by (simp add: rk_panic_cond_def)
qed simp

lemma test_bloom_ok:
  assumes "add_ok add" "query_ok query" "init_ok init1" "add_ok add1"
    and rnd: "\<forall>j. 0 \<le> rnd j \<and> rnd j \<le> INT_MAX"
  shows "test_bloom add query init1 add1 rnd = Inr ()"
proof -
  let ?s = test_bloom_bsz_small and ?l = test_bloom_bsz_large and ?x = "rnd 0 smod 100"
  have s: "0 < ?s" "?s mod 8 = 0" "in_int ?s" and l: "0 < ?l" "?l mod 8 = 0" "in_int ?l"
    by (simp_all add: test_bloom_bsz_small_def test_bloom_bsz_large_def in_int_iff)
  have "?x = rnd 0 mod 100" using rnd by (simp add: smod_nonneg)
  then have x: "rk_value ?x" by (intro rk_valueI) (simp_all add: order_less_trans [OF pos_mod_bound])
  obtain bf where bf: "bloom_init True (\<lambda>_. True) ?s = Inr bf" "init1 ?s = Inr bf" "bloom_spec ?s [] bf"
    using init_okD [OF bloom_init_ok assms(3) s] .
  obtain bf' where bf': "add bf ?x = Inr bf'" "add1 bf ?x = Inr bf'" "bloom_spec ?s [?x] bf'"
    using add_okD [OF assms(1,4) s(1) x bf(3)] .
  obtain b where b: "bloom_init True (\<lambda>_. True) ?l = Inr b" "init1 ?l = Inr b" "bloom_spec ?l [] b"
    using init_okD [OF bloom_init_ok assms(3) l] .
  obtain b' zs where b': "add_numbers add add1 rnd (nat (?l sdiv 10)) 1 b b [] = Inr (b', b', zs)"
    "bloom_spec ?l zs b'" "\<forall>x\<in>set zs. rk_value x"
    using add_numbers_ok [OF assms(1,4) l(1) rnd b(3), of "[]"] by fastforce
  have "query bf' ?x = Inr True" using query_added [OF assms(2) s(1) bf'(3) _ x] by simp
  moreover have "query_all query b' zs = Inr ()" using query_all_ok [OF assms(2) l(1) b'(2,3)] by simp
  ultimately show ?thesis
    by (simp only: test_bloom_def Let_def bf(1,2) bf'(1,2) b(1,2) b'(1) res_bind.simps prod.case
        compare_same [OF bf'(3)] compare_same [OF b'(2)] rk_panic_cond_def c_assert_True)
qed

section \<open>A filter that does it\<close>

definition set_bit_at :: "int \<Rightarrow> bloom_filter \<Rightarrow> bloom_filter" where
  "set_bit_at q bf =
     bf\<lparr>buf := (buf bf)[nat (q div 8) := (buf bf ! nat (q div 8)) OR push_bit (nat (7 - q mod 8)) 1]\<rparr>"

definition position_list :: "int \<Rightarrow> int \<Rightarrow> int list" where
  "position_list n x = map (\<lambda>i. case hash_i i x of Inl e \<Rightarrow> 0 | Inr v \<Rightarrow> v mod n) [0..BLOOM_HASH_NUM - 1]"

definition ref_add :: bloom_adder where
  "ref_add bf x = Inr (fold set_bit_at (position_list (bsz bf) x) bf)"

definition ref_query :: "bloom_filter \<Rightarrow> int \<Rightarrow> bool res" where
  "ref_query bf x = Inr (\<forall>p\<in>set (position_list (bsz bf) x). bloom_bit bf p)"

lemma set_position_list:
  assumes "0 \<le> x"
  shows "set (position_list n x) = hash_positions n x"
proof -
  have "\<exists>v. hash_i i x = Inr v" if "0 \<le> i" "i < BLOOM_HASH_NUM" for i
    using hash_i_value [OF that assms] by blast
  then show ?thesis by (force simp: position_list_def hash_positions_def image_iff)
qed

lemma set_bit_at_bit:
  assumes "wf_filter n bf" "0 \<le> q" "q < n" "0 \<le> p" "p < n"
  shows "bloom_bit (set_bit_at q bf) p \<longleftrightarrow> p = q \<or> bloom_bit bf p"
proof (cases "p div 8 = q div 8")
  case True
  have lt: "nat (q div 8) < length (buf bf)" using assms(1-3) unfolding wf_filter_def by linarith
  have "nat (7 - p mod 8) = nat (7 - q mod 8) \<longleftrightarrow> p mod 8 = q mod 8"
    using pos_mod_bound [of 8 p] pos_mod_bound [of 8 q] by linarith
  moreover have "p mod 8 = q mod 8 \<longleftrightarrow> p = q" using True by (metis div_mult_mod_eq)
  moreover have "nat (7 - q mod 8) < 8" by simp
  ultimately show ?thesis
    using True lt by (auto simp: bloom_bit_def set_bit_at_def bit_or_iff bit_exp_iff)
next
  case False
  then have "nat (p div 8) \<noteq> nat (q div 8)" "p \<noteq> q"
    using assms(2,4) by (auto simp: pos_imp_zdiv_nonneg_iff nat_eq_iff)
  then show ?thesis by (simp add: bloom_bit_def set_bit_at_def)
qed

lemma set_bits_at:
  assumes "wf_filter n bf" "\<forall>q\<in>set qs. 0 \<le> q \<and> q < n"
  shows "wf_filter n (fold set_bit_at qs bf) \<and>
    (\<forall>p. 0 \<le> p \<and> p < n \<longrightarrow> (bloom_bit (fold set_bit_at qs bf) p \<longleftrightarrow> p \<in> set qs \<or> bloom_bit bf p))"
  using assms
proof (induction qs arbitrary: bf)
  case (Cons q qs)
  have "wf_filter n (set_bit_at q bf)" using Cons.prems(1) by (simp add: wf_filter_def set_bit_at_def)
  with Cons.IH [of "set_bit_at q bf"] Cons.prems show ?case by (auto simp: set_bit_at_bit)
qed simp

lemma ref_add_ok: "add_ok ref_add"
proof -
  have "\<exists>bf'. ref_add bf x = Inr bf' \<and> bloom_spec n (x # xs) bf'"
    if "0 < n" "rk_value x" "bloom_spec n xs bf" for n xs bf x
  proof -
    have x: "0 \<le> x" and wf: "wf_filter n bf" and n: "bsz bf = n"
      using that by (auto simp: rk_value_def bloom_spec_def wf_filter_def)
    have "\<forall>q\<in>set (position_list n x). 0 \<le> q \<and> q < n"
      using hash_positions_range [OF that(1)] set_position_list [OF x] by blast
    then show ?thesis
      using set_bits_at [OF wf, of "position_list n x"] that(3) set_position_list [OF x, of n]
      by (auto simp: ref_add_def n bloom_spec_def)
  qed
  then show ?thesis by (auto simp: add_ok_def)
qed

lemma ref_query_ok: "query_ok ref_query"
  by (simp add: query_ok_def ref_query_def rk_value_def wf_filter_def set_position_list)

section \<open>What the matcher with a filter has to do\<close>

text \<open>The hashes of the windows of length \<open>m\<close>, which \<open>rk_create_doc_bloom\<close> adds to the filter.\<close>

definition window_hashes :: "nat \<Rightarrow> string \<Rightarrow> int list" where
  "window_hashes m d = map (\<lambda>k. rk_hash_spec (take m (drop k d))) [0..<length d - m + 1]"

definition create_ok :: "bloom_creator \<Rightarrow> bool" where
  "create_ok create \<longleftrightarrow>
     (\<forall>m doc n. 0 < m \<and> NUL \<in> set doc \<and> m \<le> length (c_str doc) \<and> 0 < n \<and> n mod 8 = 0 \<and> in_int n \<longrightarrow>
        (\<exists>bf. create (int m) doc n = Inr (Some bf) \<and> bloom_spec n (window_hashes m (c_str doc)) bf))"

definition using_ok :: "(string \<Rightarrow> string \<Rightarrow> bloom_filter option \<Rightarrow> int \<Rightarrow> (int \<times> int) res) \<Rightarrow> bool" where
  "using_ok match \<longleftrightarrow>
     (\<forall>pat doc n bf u. NUL \<in> set pat \<and> NUL \<in> set doc \<and> c_str pat \<noteq> [] \<and> 0 < n \<and>
        bloom_spec n (window_hashes (length (c_str pat)) (c_str doc)) bf \<longrightarrow>
        match_spec pat doc (match pat doc (Some bf) u))"

lemma using_okD:
  assumes "using_ok match" "NUL \<in> set pat" "NUL \<in> set doc" "c_str pat = p" "c_str doc = d" "p \<noteq> []" "0 < n"
    "bloom_spec n (window_hashes (length p) d) bf"
  shows "match_spec pat doc (match pat doc (Some bf) u)"
  using assms unfolding using_ok_def by blast

lemma create_okD:
  assumes "create_ok create" "create_ok create1" "0 < m" "NUL \<in> set doc" "m \<le> length (c_str doc)"
    "0 < n" "n mod 8 = 0" "in_int n"
  obtains bf where "create (int m) doc n = Inr (Some bf)" "create1 (int m) doc n = Inr (Some bf)"
    "bloom_spec n (window_hashes m (c_str doc)) bf"
proof -
  obtain bf bf1 where "create (int m) doc n = Inr (Some bf)" "create1 (int m) doc n = Inr (Some bf1)"
    "bloom_spec n (window_hashes m (c_str doc)) bf" "bloom_spec n (window_hashes m (c_str doc)) bf1"
    using assms unfolding create_ok_def by metis
  then show ?thesis using that bloom_spec_unique by blast
qed

text \<open>The functions as the comments of \<open>rkgrep.c\<close> describe them, over the filter above.\<close>

fun ref_add_all :: "int list \<Rightarrow> bloom_filter \<Rightarrow> bloom_filter res" where
  "ref_add_all [] bf = Inr bf"
| "ref_add_all (x # xs) bf = res_bind (ref_add bf x) (ref_add_all xs)"

definition ref_create :: bloom_creator where
  "ref_create m doc n =
     res_bind (bloom_init True (\<lambda>_. True) n) (\<lambda>bf.
     res_bind (ref_add_all (window_hashes (nat m) (c_str doc)) bf) (\<lambda>bf. Inr (Some bf)))"

definition ref_using :: "string \<Rightarrow> string \<Rightarrow> bloom_filter option \<Rightarrow> int \<Rightarrow> (int \<times> int) res" where
  "ref_using pat doc bf u =
     (case bf of None \<Rightarrow> Inl NullDeref
      | Some f \<Rightarrow> res_bind (ref_query f (rk_hash_spec (c_str pat))) (\<lambda>b. if b then ref_match pat doc u else Inr (0, u)))"

lemma window_hash_in: "i + m \<le> length d \<Longrightarrow> rk_hash_spec (take m (drop i d)) \<in> set (window_hashes m d)"
  unfolding window_hashes_def set_map set_upt by (rule image_eqI [of _ _ i]) simp_all

lemma rk_value_hash: "rk_value (rk_hash_spec w)"
  using mod_PRIME_bounds [of "window_sum w"] by (intro rk_valueI) (simp_all add: rk_hash_spec_alt PRIME_def)

lemma ref_add_all_ok:
  assumes "0 < n" "bloom_spec n ys bf" "\<forall>x\<in>set xs. rk_value x"
  shows "\<exists>bf'. ref_add_all xs bf = Inr bf' \<and> bloom_spec n (rev xs @ ys) bf'"
  using assms(2,3)
proof (induction xs arbitrary: ys bf)
  case (Cons x xs)
  obtain bf1 where "ref_add bf x = Inr bf1" "bloom_spec n (x # ys) bf1"
    using add_okD [OF ref_add_ok ref_add_ok assms(1) _ Cons.prems(1)] Cons.prems(2) by force
  with Cons.IH [of "x # ys" bf1] Cons.prems(2) show ?case by simp
qed simp

lemma bloom_spec_cong: "set xs = set ys \<Longrightarrow> bloom_spec n xs bf \<longleftrightarrow> bloom_spec n ys bf"
  by (simp add: bloom_spec_def)

lemma ref_create_ok: "create_ok ref_create"
proof -
  have "\<exists>bf. ref_create (int m) doc n = Inr (Some bf) \<and> bloom_spec n (window_hashes m (c_str doc)) bf"
    if n: "0 < n" "n mod 8 = 0" "in_int n" for m doc n
  proof -
    let ?w = "window_hashes m (c_str doc)"
    obtain bf where bf: "bloom_init True (\<lambda>_. True) n = Inr bf" "bloom_spec n [] bf"
      using init_okD [OF bloom_init_ok bloom_init_ok n] by blast
    have "\<forall>x\<in>set ?w. rk_value x" by (auto simp: window_hashes_def rk_value_hash)
    then obtain bf' where "ref_add_all ?w bf = Inr bf'" "bloom_spec n (rev ?w @ []) bf'"
      using ref_add_all_ok [OF n(1) bf(2)] by blast
    with bf(1) show ?thesis
      using bloom_spec_cong [of "rev ?w" ?w] by (simp add: ref_create_def)
  qed
  then show ?thesis by (auto simp: create_ok_def)
qed

text \<open>The filter has no false negatives, so looking there first does not change the result.\<close>

lemma ref_using_ok: "using_ok ref_using"
  unfolding using_ok_def
proof (intro allI impI, elim conjE)
  fix pat doc n bf u
  let ?p = "c_str pat" and ?d = "c_str doc"
  assume a: "NUL \<in> set pat" "NUL \<in> set doc" "?p \<noteq> []" "0 < n" "bloom_spec n (window_hashes (length ?p) ?d) bf"
  have q: "ref_query bf (rk_hash_spec ?p) = Inr True" if ne: "positions ?p ?d \<noteq> []"
  proof -
    obtain i where "i \<in> set (positions ?p ?d)" using hd_in_set [OF ne] by blast
    note i = positions_in [OF this a(3)]
    then have "rk_hash_spec ?p = rk_hash_spec (take (length ?p) (drop i ?d))" by (simp add: occurs_at_def)
    with window_hash_in [OF i(2)] have "rk_hash_spec ?p \<in> set (window_hashes (length ?p) ?d)" by simp
    then show ?thesis using query_added [OF ref_query_ok a(4,5) _ rk_value_hash] by blast
  qed
  obtain b where b: "ref_query bf (rk_hash_spec ?p) = Inr b" by (simp add: ref_query_def)
  have "match_spec pat doc (ref_match pat doc u)" by (rule matcher_okD [OF ref_match_ok a(1-3)])
  moreover have "match_spec pat doc (Inr (0, u))" if "\<not> b"
    using q b that by (auto simp: match_spec_def Let_def)
  ultimately show "match_spec pat doc (ref_using pat doc (Some bf) u)" by (simp add: ref_using_def b)
qed

section \<open>The test of the matcher with a filter accepts it\<close>

lemma test_match_spec:
  assumes "make_pattern rnd r doc pos m = Inr p" and "match_spec p doc (match p doc u)"
    and "positions (c_str p) (c_str doc) = ps" and "e = int (length ps)" and "ps \<noteq> [] \<Longrightarrow> pos = int (hd ps)"
  shows "test_match_at_pos match rnd r u doc pos e m = Inr ()"
  using assms by (auto simp: match_spec_def Let_def test_match_at_pos_def rk_panic_cond_def)

lemma lowercase_no_NUL: "list_all lowercase d \<Longrightarrow> NUL \<notin> set d"
  by (auto simp: list_all_iff lowercase_def NUL_def)

text \<open>The pattern that never matches, and the one taken from the document.\<close>

lemma random_pattern:
  assumes "0 < m" and "\<forall>j. 0 \<le> rnd j"
  obtains w where "make_pattern rnd r doc (- 1) (int m) = Inr (w @ [NUL])" "length w = m" "NUL \<notin> set w"
    "CHR ''!'' \<in> set w"
proof -
  obtain w where w: "generate_random_word rnd r (replicate (nat (int m + 1)) NUL) 0 (int m) =
      Inr (take (nat 0) (replicate (nat (int m + 1)) NUL) @ w @
        NUL # drop (nat (0 + int m) + 1) (replicate (nat (int m + 1)) NUL), r + nat (int m))"
    "length w = nat (int m)" "list_all lowercase w"
    using generate_random_word_value [of 0 "int m" "replicate (nat (int m + 1)) NUL" rnd r] assms(2) by auto
  have "put_arr (w @ [NUL]) (int (m - 1)) (CHR ''!'') = Inr (w[m - 1 := CHR ''!''] @ [NUL])"
    using w(2) assms(1) by (intro put_arr_append1) simp
  then have "make_pattern rnd r doc (- 1) (int m) = Inr (w[m - 1 := CHR ''!''] @ [NUL])"
    using w(1) assms(1) by (simp add: make_pattern_def of_nat_diff)
  moreover have "NUL \<notin> set (w[m - 1 := CHR ''!''])"
    using lowercase_no_NUL [OF w(3)] set_update_subset_insert [of w] by (fastforce simp: NUL_def)
  moreover have "CHR ''!'' \<in> set (w[m - 1 := CHR ''!''])" using w(2) assms(1) by (intro set_update_memI) simp
  ultimately show ?thesis using that w(2) by simp
qed

lemma window_pattern:
  assumes "k + m \<le> length d" "NUL \<notin> set d"
  shows "make_pattern rnd r (d @ [NUL]) (int k) (int m) = Inr (take m (drop k d) @ [NUL])"
proof -
  have "NUL \<notin> set (drop k d)" using assms(2) in_set_dropD by fastforce
  then have "c_str (drop k (d @ [NUL])) = drop k d" using assms(1) by (simp add: c_str_append_NUL)
  with assms(1) show ?thesis by (simp add: make_pattern_def c_strncpy_def Let_def)
qed

lemma no_position:
  assumes "c \<in> set p" "c \<notin> set d"
  shows "positions p d = []"
proof -
  have "\<not> occurs_at p d i" for i
    using assms in_set_takeD in_set_dropD unfolding occurs_at_def by metis
  then show ?thesis by (simp add: positions_def)
qed

lemma bloom_match_loop_ok:
  assumes "using_ok match" and "0 < N" "bloom_spec N (window_hashes m d) bf"
    and "0 < m" "m < length d" and low: "list_all lowercase d" and rnd: "\<forall>j. 0 \<le> rnd j"
    and uniq: "\<forall>k<length d - m. positions (take m (drop k d)) d = [k]"
  shows "bloom_match_loop (\<lambda>p d. match p d (Some bf)) u rnd (int m) (int (length d)) c r (d @ [NUL]) = Inr ()"
proof (induction c arbitrary: r)
  case (Suc c)
  have d: "c_str (d @ [NUL]) = d" using lowercase_no_NUL [OF low] by (simp add: c_str_append_NUL)
  have spec: "match_spec (w @ [NUL]) (d @ [NUL]) (match (w @ [NUL]) (d @ [NUL]) (Some bf) u)"
    and cw: "c_str (w @ [NUL]) = w" if "length w = m" "NUL \<notin> set w" for w
  proof -
    show cw: "c_str (w @ [NUL]) = w" using that(2) by (simp add: c_str_append_NUL)
    show "match_spec (w @ [NUL]) (d @ [NUL]) (match (w @ [NUL]) (d @ [NUL]) (Some bf) u)"
      by (rule using_okD [OF assms(1) _ _ cw d _ assms(2)]) (use assms(3,4) that(1) in auto)
  qed
  have neg: "test_match_at_pos (\<lambda>p d. match p d (Some bf)) rnd (Suc r) u (d @ [NUL]) (- 1) 0 (int m) = Inr ()"
  proof -
    obtain w where w: "make_pattern rnd (Suc r) (d @ [NUL]) (- 1) (int m) = Inr (w @ [NUL])" "length w = m"
      "NUL \<notin> set w" "CHR ''!'' \<in> set w"
      by (rule random_pattern [OF assms(4) rnd])
    have "CHR ''!'' \<notin> set d" using low by (auto simp: list_all_iff lowercase_def)
    from no_position [OF w(4) this] show ?thesis
      by (intro test_match_spec [where match = "\<lambda>p d. match p d (Some bf)" and ps = "[]", OF w(1) spec [OF w(2,3)]]) (simp_all only: cw [OF w(2,3)] d, simp_all)
  qed
  have pos: "test_match_at_pos (\<lambda>p d. match p d (Some bf)) rnd (r + 2) u (d @ [NUL])
      (rnd (Suc r) smod (int (length d) - int m)) 1 (int m) = Inr ()"
  proof -
    define k where "k = nat (rnd (Suc r) mod (int (length d) - int m))"
    have k: "rnd (Suc r) smod (int (length d) - int m) = int k" using assms(5) rnd by (simp add: k_def smod_nonneg)
    have "rnd (Suc r) mod (int (length d) - int m) < int (length d) - int m" using assms(5) by simp
    then have lt: "k < length d - m" using assms(5) unfolding k_def by linarith
    let ?w = "take m (drop k d)"
    have w: "length ?w = m" "NUL \<notin> set ?w"
      using lt lowercase_no_NUL [OF low] by (auto dest!: in_set_takeD in_set_dropD)
    have p: "make_pattern rnd (r + 2) (d @ [NUL]) (int k) (int m) = Inr (?w @ [NUL])"
      using lt lowercase_no_NUL [OF low] by (intro window_pattern) simp_all
    have "positions ?w d = [k]" using uniq lt by blast
    then show ?thesis unfolding k
      by (intro test_match_spec [where match = "\<lambda>p d. match p d (Some bf)" and ps = "[k]", OF p spec [OF w]]) (simp_all only: cw [OF w] d, simp_all)
  qed
  show ?case using Suc.IH neg pos assms(5) by simp
qed simp

lemma test_rk_bloom_ok:
  assumes create: "create_ok create" "create_ok create1" and "using_ok match"
    and m: "0 < m" "m < n" and n: "n mod 4 = 0" "in_int (10 * int n)"
    and rnd: "\<forall>j. 0 \<le> rnd j" "\<forall>j. 0 \<le> rnd2 j" and "length new = n + 1"
    and uniq: "\<forall>d. generate_random_document rnd new (int n) = Inr (d @ [NUL]) \<longrightarrow>
      (\<forall>k<n - m. positions (take m (drop k d)) d = [k])"
  shows "test_rk_bloom create create1 match u rnd rnd2 new (int m) (int n) = Inr ()"
proof -
  let ?doc = "''123 456 789'' @ [NUL]" and ?pat = "''456'' @ [NUL]" and ?s = test_bloom_bsz_small
  have cs: "c_str ?doc = ''123 456 789''" "c_str ?pat = ''456''" by (rule c_str_append_NUL, simp add: NUL_def)+
  have s: "0 < ?s" "?s mod 8 = 0" "in_int ?s" by (simp_all add: test_bloom_bsz_small_def in_int_iff)
  have l: "0 < (3 :: nat)" "NUL \<in> set ?doc" "3 \<le> length (c_str ?doc)" unfolding cs by simp_all
  obtain bf where bf: "create (int 3) ?doc ?s = Inr (Some bf)" "create1 (int 3) ?doc ?s = Inr (Some bf)"
    "bloom_spec ?s (window_hashes 3 (c_str ?doc)) bf"
    by (rule create_okD [OF create l s])
  have "positions ''456'' ''123 456 789'' = [4]" by (simp add: positions_def occurs_at_def upt_rec)
  moreover have "match_spec ?pat ?doc (match ?pat ?doc (Some bf) u)"
    by (rule using_okD [OF assms(3) _ _ cs(2,1) _ s(1)]) (use bf(3) in \<open>simp_all add: cs(1) [simplified] eval_nat_numeral\<close>)
  ultimately have mt: "match ?pat ?doc (Some bf) u = Inr (1, 4)" by (auto simp: match_spec_def Let_def cs [simplified])
  obtain d where d: "generate_random_document rnd new (int n) = Inr (d @ [NUL])" "length d = n" "list_all lowercase d"
    using random_document_ok [OF rnd(1), of "int n" new] assms(10) by auto
  have c: "c_str (d @ [NUL]) = d" using lowercase_no_NUL [OF d(3)] by (simp add: c_str_append_NUL)
  have N: "0 < int n * 10" "int n * 10 mod 8 = 0" "in_int (int n * 10)"
    using m n by (auto simp: mult.commute)
  obtain b where b: "create (int m) (d @ [NUL]) (int n * 10) = Inr (Some b)"
    "create1 (int m) (d @ [NUL]) (int n * 10) = Inr (Some b)" "bloom_spec (int n * 10) (window_hashes m d) b"
    using create_okD [OF create m(1) _ _ N, of "d @ [NUL]"] m(2) d(2) c by auto
  have "bloom_match_loop (\<lambda>p d. match p d (Some b)) u rnd2 (int m) (int (length d)) 100 0 (d @ [NUL]) = Inr ()"
    by (rule bloom_match_loop_ok [OF assms(3) N(1) b(3)]) (use m d rnd(2) uniq in auto)
  moreover have "create 3 ?doc ?s = Inr (Some bf)" "create1 3 ?doc ?s = Inr (Some bf)" using bf(1,2) by simp_all
  ultimately show ?thesis
    unfolding test_rk_bloom_def Let_def
    by (simp only: res_bind.simps compare_filters.simps compare_same [OF bf(3)] compare_same [OF b(3)] mt
        prod.case rk_panic_cond_def c_assert_True d(1,2) chk_int_Inr [OF N(3)] b(1,2) option.simps if_False simp_thms)
qed

section \<open>The main program accepts what it should, and rejects the stubs\<close>

definition solution_ok :: "rk_solution \<Rightarrow> bool" where
  "solution_ok S \<longleftrightarrow> matcher_ok (p_naive (s_pkg S)) \<and> matcher_ok (p_rk (s_pkg S)) \<and> hash_pkg_ok (s_hash S) \<and>
     add_ok (s_add S) \<and> query_ok (s_query S) \<and> create_ok (p_create_bloom (s_pkg S)) \<and> using_ok (p_using_bloom (s_pkg S))"

definition reference_ok :: "rk_reference \<Rightarrow> bool" where
  "reference_ok R \<longleftrightarrow> hash_pkg_ok (r_hash R) \<and> init_ok (r_init R) \<and> add_ok (r_add R) \<and> create_ok (r_create R)"

text \<open>What \<open>rand\<close> returns.\<close>

definition rand_ok :: "(nat \<Rightarrow> int) \<Rightarrow> bool" where
  "rand_ok rnd \<longleftrightarrow> (\<forall>j. 0 \<le> rnd j \<and> rnd j \<le> INT_MAX)"

definition ref_solution :: rk_solution where
  "ref_solution =
     \<lparr>s_pkg = \<lparr>p_naive = ref_match, p_rk = ref_match, p_create_bloom = ref_create, p_using_bloom = ref_using\<rparr>,
      s_hash = ref_hash, s_add = ref_add, s_query = ref_query\<rparr>"

definition ref_reference :: rk_reference where
  "ref_reference =
     \<lparr>r_hash = ref_hash, r_init = bloom_init True (\<lambda>_. True), r_add = ref_add, r_create = ref_create\<rparr>"

lemma ref_solution_ok: "solution_ok ref_solution" and ref_reference_ok: "reference_ok ref_reference"
  by (simp_all add: solution_ok_def ref_solution_def reference_ok_def ref_reference_def ref_match_ok ref_hash_ok
      ref_add_ok ref_query_ok ref_create_ok ref_using_ok bloom_init_ok)

text \<open>
  C33: the test program accepts every solution that does what the comments of \<open>rkgrep.c\<close> and \<open>bloom.c\<close> ask
  for, against every reference that does, whichever tests are selected: for lengths with \<open>0 < m < n\<close>, with \<open>n\<close>
  a multiple of 4 (else the filter of \<open>10 * n\<close> bits fails the assertion of \<open>bloom_init\<close>), and provided that the
  windows of the random document are distinct, since the test expects exactly one match.
\<close>

theorem rkgrep_test_passes:
  assumes "suite_options opts (AllAlgos, 800, 100000) = Inr (which, int m, int n)"
    and "solution_ok S" and "reference_ok R" and m: "0 < m" "m < n" and n: "n mod 4 = 0" "in_int (10 * int n)"
    and rnd: "\<And>t. rand_ok (rnd t)" "rand_ok rnd2" and "length (new (int n + 1)) = n + 1"
    and "\<forall>d. generate_random_document (rnd RKBloom) (new (int n + 1)) (int n) = Inr (d @ [NUL]) \<longrightarrow>
      (\<forall>k<n - m. positions (take m (drop k d)) d = [k])"
  shows "suite_main S R u rnd rnd2 new opts = Inr ()"
proof -
  note S = assms(2) [unfolded solution_ok_def] and R = assms(3) [unfolded reference_ok_def]
  have r: "\<forall>j. 0 \<le> rnd t j" "\<forall>j. 0 \<le> rnd2 j" for t using rnd unfolding rand_ok_def by blast+
  have "test_naive (p_naive (s_pkg S)) u (rnd Naive) (int m) (int n) = Inr ()"
    using test_naive_ok [OF m r(1)] S by blast
  moreover have "test_rk (s_hash S) (r_hash R) (p_rk (s_pkg S)) u (rnd RK) (int m) (int n) = Inr ()"
    using test_rk_ok [OF _ _ _ m r(1)] S R by blast
  moreover have "test_bloom (s_add S) (s_query S) (r_init R) (r_add R) (rnd Bloom) = Inr ()"
    using test_bloom_ok S R rnd(1) unfolding rand_ok_def by blast
  moreover have "test_rk_bloom (p_create_bloom (s_pkg S)) (r_create R) (p_using_bloom (s_pkg S)) u (rnd RKBloom) rnd2
      (new (int n + 1)) (int m) (int n) = Inr ()"
    using test_rk_bloom_ok [OF _ _ _ m n r assms(10,11)] S R by blast
  ultimately show ?thesis
    unfolding suite_main_def assms(1) by (simp add: test_if_def del: of_nat_add)
qed

text \<open>A run with \<open>-m 3 -n 8\<close> whose random document is \<open>efghijkl\<close>.\<close>

lemma demo_document:
  "generate_random_document (\<lambda>j. int (min j 100) + 3) (replicate 9 NUL) 8 = Inr (''efghijkl'' @ [NUL])"
  by code_simp

theorem rkgrep_test_passes_witness:
  "suite_main ref_solution ref_reference 0 (\<lambda>t j. int (min j 100) + 3) (\<lambda>j. int (min j 100) + 3)
     (\<lambda>k. replicate (nat k) NUL) [(CHR ''m'', ''3''), (CHR ''n'', ''8'')] = Inr ()"
proof (rule rkgrep_test_passes [OF _ ref_solution_ok ref_reference_ok, where m = 3 and n = 8])
  show "suite_options [(CHR ''m'', ''3''), (CHR ''n'', ''8'')] (AllAlgos, 800, 100000) = Inr (AllAlgos, int 3, int 8)"
    by (simp add: c_atoi_def digit_def)
  have "\<forall>k\<in>{0, 1, 2, 3, 4}. positions (take 3 (drop k ''efghijkl'')) ''efghijkl'' = [k]"
    by (simp add: positions_def occurs_at_def upt_rec)
  moreover have "{k::nat. k < 5} = {0, 1, 2, 3, 4}" by auto
  ultimately have "\<forall>k<5. positions (take 3 (drop k ''efghijkl'')) ''efghijkl'' = [k]" by blast
  then show "\<forall>d. generate_random_document (\<lambda>j. int (min j 100) + 3) (replicate (nat (int 8 + 1)) NUL) (int 8) =
      Inr (d @ [NUL]) \<longrightarrow> (\<forall>k<8 - 3. positions (take 3 (drop k d)) d = [k])"
    using demo_document by simp
qed (simp_all add: rand_ok_def INT_MAX_def in_int_iff min_le_iff_disj)

text \<open>The solution as shipped; \<open>g\<close> is what a function without \<open>return\<close> is taken to return.\<close>

definition stub_solution :: "int \<Rightarrow> rk_solution" where
  "stub_solution g =
     \<lparr>s_pkg = \<lparr>p_naive = naive_substring_match, p_rk = rk_substring_match, p_create_bloom = rk_create_doc_bloom,
        p_using_bloom = rk_substring_match_using_bloom\<rparr>,
      s_hash = \<lparr>hk_init = rkhash_init g, hk_next = rkhash_next g\<rparr>,
      s_add = (\<lambda>bf x. Inr (bloom_add bf x)), s_query = (\<lambda>bf x. Inr (bloom_query bf x))\<rparr>"

lemma panic_then:
  "r \<in> {Inr (), Inl AssertFail} \<Longrightarrow> res_bind (rk_panic_cond b) (\<lambda>_. r) \<in> {Inr (), Inl AssertFail}"
  by (cases b) (simp_all add: rk_panic_cond_def)

lemma next_loop_stub:
  assumes R: "hash_pkg_ok R" and m: "0 < m" and asc: "list_all ascii (take (j + m + k) doc)"
    and "j + m + k \<le> length doc"
  shows "next_loop \<lparr>hk_init = i, hk_next = rkhash_next g\<rparr> R (int m) doc (rk_pow m) k (int (j + m)) x
    (rk_hash_spec (take m (drop j doc))) \<in> {Inr (), Inl AssertFail}"
  using assms(3,4)
proof (induction k arbitrary: j x)
  case (Suc k)
  have lt: "j + m < length doc" using Suc.prems by simp
  have "hk_next R (rk_hash_spec (take m (drop j doc))) (rk_pow m) (doc ! j) (doc ! (j + m)) =
      Inr (rk_hash_spec (take m (drop (Suc j) doc)))"
    using Suc.prems by (intro hash_next_window [OF R m lt]) (simp_all add: list_all_length)
  moreover have "get_arr doc (int (j + m) - int m) = Inr (doc ! j)" "get_arr doc (int (j + m)) = Inr (doc ! (j + m))"
    using lt by (simp_all add: get_arr_def nat_add_distrib)
  moreover have "next_loop \<lparr>hk_init = i, hk_next = rkhash_next g\<rparr> R (int m) doc (rk_pow m) k (int (j + m) + 1) g
      (rk_hash_spec (take m (drop (Suc j) doc))) \<in> {Inr (), Inl AssertFail}"
    using Suc.IH [of "Suc j" g] Suc.prems by (simp add: add.commute)
  ultimately show ?case
    by (simp only: next_loop.simps res_bind.simps rk_hash_pkg.simps rkhash_next_def [of g "x"] panic_then)
qed simp

lemma test_rkhash_stub:
  assumes "hash_pkg_ok R"
  shows "test_rkhash (s_hash (stub_solution g)) R u 3 (''abracadabra'' @ [NUL]) \<in> {Inr (), Inl AssertFail}"
proof -
  let ?d = "''abracadabra'' @ [NUL]"
  have asc: "list_all ascii (take 11 ?d)" by (simp add: ascii_def)
  have init: "hk_init R ?d 3 u = Inr (rk_hash_spec (take 3 ?d), rk_pow 3)"
    using hash_pkg_initD [OF assms, of 3 ?d u] by (simp add: ascii_def)
  have len: "c_strlen ?d = Inr 11" by (simp add: c_strlen_def c_str_def NUL_def)
  have "next_loop \<lparr>hk_init = rkhash_init g, hk_next = rkhash_next g\<rparr> R (int 3) ?d (rk_pow 3) 8 (int (0 + 3)) g
      (rk_hash_spec (take 3 (drop 0 ?d))) \<in> {Inr (), Inl AssertFail}"
    using asc by (intro next_loop_stub [OF assms]) simp_all
  then have "next_loop (s_hash (stub_solution g)) R 3 ?d (rk_pow 3) (nat (11 - 3)) 3 g (rk_hash_spec (take 3 ?d))
      \<in> {Inr (), Inl AssertFail}"
    by (simp add: stub_solution_def)
  moreover have "hk_init (s_hash (stub_solution g)) ?d 3 u = Inr (g, u)"
    by (simp add: stub_solution_def rkhash_init_def)
  ultimately show ?thesis
    unfolding test_rkhash_def by (simp only: init len res_bind.simps prod.case panic_then)
qed

lemma worst_case_stub:
  assumes "0 < m" and "m < n" and "\<forall>j. 0 \<le> rnd j"
  shows "worst_case_loop rk_substring_match u rnd (int m) (int n) (Suc c) r (replicate n (CHR ''a'') @ [NUL]) = Inl AssertFail"
proof -
  define k where "k = nat (rnd r mod (int n - int m))"
  have k: "rnd r smod (int n - int m) = int k" using assms(2,3) by (simp add: k_def smod_nonneg)
  have "rnd r mod (int n - int m) < int n - int m" using assms(2) by simp
  then have km: "k + m \<le> n" using assms(2) unfolding k_def by linarith
  have i: "int k + int m - 1 = int (k + m - 1)" using assms(1) by simp
  have "put_arr (replicate n (CHR ''a'') @ [NUL]) (int k + int m - 1) (CHR ''b'') =
      Inr ((replicate n (CHR ''a''))[k + m - 1 := CHR ''b''] @ [NUL])"
    unfolding i using assms(1) km by (intro put_arr_append1) simp
  then show ?thesis
    using assms(2) worst_case_pattern [OF assms(1) km, of rnd "Suc r"]
    by (simp add: k Let_def test_match_at_pos_def rk_substring_match_def rk_panic_cond_def)
qed

lemma test_rk_stub:
  assumes "hash_pkg_ok R" and "\<forall>j. 0 \<le> rnd j"
  shows "test_rk (s_hash (stub_solution g)) R rk_substring_match u rnd 800 100000 = Inl AssertFail"
proof -
  have "worst_case_loop rk_substring_match u rnd 800 100000 100 0 (replicate (nat 100000) (CHR ''a'') @ [NUL]) = Inl AssertFail"
    using worst_case_stub [of 800 100000 rnd u 99 0] assms(2) by simp
  then show ?thesis
    using test_rkhash_stub [OF assms(1), of g u]
    by (auto simp: test_rk_def Let_def rk_substring_match_def rk_panic_cond_def)
qed

lemma test_bloom_stub:
  assumes "init_ok init1" "add_ok add1" "rand_ok rnd"
  shows "test_bloom (\<lambda>bf x. Inr (bloom_add bf x)) (\<lambda>bf x. Inr (bloom_query bf x)) init1 add1 rnd = Inl AssertFail"
proof -
  let ?s = test_bloom_bsz_small and ?x = "rnd 0 smod 100"
  have s: "0 < ?s" "?s mod 8 = 0" "in_int ?s" by (simp_all add: test_bloom_bsz_small_def in_int_iff)
  have "?x = rnd 0 mod 100" using assms(3) by (simp add: smod_nonneg rand_ok_def)
  then have x: "rk_value ?x" by (intro rk_valueI) (simp_all add: order_less_trans [OF pos_mod_bound])
  obtain bf where bf: "bloom_init True (\<lambda>_. True) ?s = Inr bf" "init1 ?s = Inr bf" "bloom_spec ?s [] bf"
    using init_okD [OF bloom_init_ok assms(1) s] .
  obtain bf' where bf': "add1 bf ?x = Inr bf'" "bloom_spec ?s [?x] bf'"
    using add_okD [OF assms(2,2) s(1) x bf(3)] .
  have "compare_bits bf bf' (nat ?s) 0 \<in> {Inr (), Inl AssertFail}"
    using compare_bits_value [of ?s bf bf' 0 "nat ?s"] bf(3) bf'(2) s(1) by (auto simp: bloom_spec_def)
  then show ?thesis
    using bf(1,2) bf'(1) by (auto simp: test_bloom_def Let_def bloom_add_def bloom_query_def rk_panic_cond_def)
qed

lemma test_rk_bloom_stub:
  assumes "create_ok create1"
  shows "test_rk_bloom rk_create_doc_bloom create1 match u rnd rnd2 new m n = Inl NullDeref"
proof -
  let ?doc = "''123 456 789'' @ [NUL]" and ?s = test_bloom_bsz_small
  have "0 < ?s" "?s mod 8 = 0" "in_int ?s" by (simp_all add: test_bloom_bsz_small_def in_int_iff)
  moreover have "c_str ?doc = ''123 456 789''" by (rule c_str_append_NUL) (simp add: NUL_def)
  then have "3 \<le> length (c_str ?doc)" by simp
  ultimately obtain bf where "create1 (int 3) ?doc ?s = Inr (Some bf)"
    using create_okD [OF assms assms, of 3 ?doc ?s] by auto
  then show ?thesis
    by (simp add: test_rk_bloom_def Let_def rk_create_doc_bloom_def test_bloom_bsz_small_def)
qed

text \<open>
  C36: the test program rejects the files as shipped, whichever test is selected and whatever the functions
  without \<open>return\<close> return: by a failed check, except that the test of the matcher with a filter crashes, since
  \<open>rk_create_doc_bloom\<close> returns \<open>NULL\<close>, which is not checked.
\<close>

theorem rkgrep_test_rejects_stubs:
  assumes "reference_ok R" and "\<And>t. rand_ok (rnd t)" and "t \<in> {''naive'', ''rk'', ''bloom'', ''rkbloom''}"
  shows "suite_main (stub_solution g) R u rnd rnd2 new [(CHR ''a'', t)] =
    Inl (if t = ''rkbloom'' then NullDeref else AssertFail)"
proof -
  note R = assms(1) [unfolded reference_ok_def]
  have r: "\<forall>j. 0 \<le> rnd a j" for a using assms(2) unfolding rand_ok_def by blast
  have "test_naive naive_substring_match u (rnd Naive) 800 100000 = Inl AssertFail"
    using test_naive_ok [of 800 100000 "rnd Naive" naive_substring_match u] r by simp
  moreover have "test_rk (s_hash (stub_solution g)) (r_hash R) rk_substring_match u (rnd RK) 800 100000 = Inl AssertFail"
    using test_rk_stub R r by blast
  moreover have "test_bloom (\<lambda>bf x. Inr (bloom_add bf x)) (\<lambda>bf x. Inr (bloom_query bf x)) (r_init R) (r_add R) (rnd Bloom) =
      Inl AssertFail"
    using test_bloom_stub R assms(2) by blast
  moreover have "test_rk_bloom rk_create_doc_bloom (r_create R) rk_substring_match_using_bloom u (rnd RKBloom) rnd2
      (new 100001) 800 100000 = Inl NullDeref"
    using test_rk_bloom_stub R by blast
  ultimately show ?thesis
    using assms(3) by (auto simp: suite_main_def which_test_def test_if_def stub_solution_def)
qed

theorem rkgrep_test_rejects_stubs_witness:
  "suite_main (stub_solution 0) ref_reference 0 (\<lambda>t j. 7) (\<lambda>j. 7) (\<lambda>k. []) [(CHR ''a'', ''bloom'')] = Inl AssertFail"
  using rkgrep_test_rejects_stubs [OF ref_reference_ok, of "\<lambda>t j. 7" "''bloom''" 0 0 "\<lambda>j. 7" "\<lambda>k. []"]
  by (simp add: rand_ok_def INT_MAX_def)

end
