(* ===== verification/Part7_Strings.thy ===== *)
theory Part7_Strings
  imports C_Alloc "HOL-Library.Char_ord" "HOL-Library.List_Lexorder" "HOL-Library.Multiset"
begin

text \<open>
  The strings of \<open>clab/mini/part7_harness.c\<close>: the order \<open>strcmp_for_qsort\<close> gives them, what \<open>qsort\<close> does
  with it, and the memory that \<open>gen_rand_strings\<close> takes and \<open>free_strings\<close> gives back. A string is the
  list of its characters before the terminator.
\<close>

section \<open>Comparison\<close>

text \<open>\<open>strcmp\<close> compares as unsigned characters; the terminator is smaller than every character.\<close>

fun c_strcmp :: "string \<Rightarrow> string \<Rightarrow> int" where
  "c_strcmp [] [] = 0"
| "c_strcmp [] (d # ds) = - of_char d"
| "c_strcmp (c # cs) [] = of_char c"
| "c_strcmp (c # cs) (d # ds) = (if c = d then c_strcmp cs ds else of_char c - of_char d)"

definition strcmp_for_qsort :: "string \<Rightarrow> string \<Rightarrow> int" where
  "strcmp_for_qsort a b = c_strcmp a b"

definition c_string :: "string \<Rightarrow> bool" where
  "c_string s \<longleftrightarrow> NUL \<notin> set s"

lemma of_char_int: "(of_char c :: int) = int (of_char c)"
  by (simp add: of_char_def)

lemma of_char_pos: "c \<noteq> NUL \<Longrightarrow> 0 < (of_char c :: int)"
proof -
  assume "c \<noteq> NUL"
  then have "(of_char c :: nat) \<noteq> of_char NUL" by simp
  then show ?thesis by (simp add: of_char_int NUL_def)
qed

lemma less_char_int: "c < d \<longleftrightarrow> (of_char c :: int) < of_char d"
  by (simp add: less_char_def of_char_int)

lemma c_strcmp_sign:
  "c_string a \<Longrightarrow> c_string b \<Longrightarrow> (c_strcmp a b < 0 \<longleftrightarrow> a < b) \<and> (c_strcmp a b = 0 \<longleftrightarrow> a = b)"
proof (induction a b rule: c_strcmp.induct)
  case (2 d ds)
  then show ?case using of_char_pos [of d] by (auto simp: c_string_def)
next
  case (3 c cs)
  then show ?case using of_char_pos [of c] by (auto simp: c_string_def)
next
  case (4 c cs d ds)
  then show ?case by (auto simp: c_string_def less_char_int)
qed simp

section \<open>Sorting\<close>

text \<open>What \<open>qsort\<close> leaves in the array: the same elements, in an order the comparison accepts.\<close>

definition qsort_result :: "('a \<Rightarrow> 'a \<Rightarrow> int) \<Rightarrow> 'a list \<Rightarrow> 'a list \<Rightarrow> bool" where
  "qsort_result cmp xs ys \<longleftrightarrow> mset ys = mset xs \<and> sorted_wrt (\<lambda>a b. cmp a b \<le> 0) ys"

lemma qsort_is_sort:
  assumes "qsort_result strcmp_for_qsort xs ys" and "\<forall>s\<in>set xs. c_string s"
  shows "ys = sort xs"
proof -
  have m: "mset ys = mset xs" using assms(1) by (simp add: qsort_result_def)
  then have set: "set ys = set xs" by (metis set_mset_mset)
  have le: "a \<le> b" if "a \<in> set ys" "b \<in> set ys" "strcmp_for_qsort a b \<le> 0" for a b
    using that c_strcmp_sign [of a b] assms(2) by (auto simp: strcmp_for_qsort_def le_less set)
  have "sorted_wrt (\<lambda>a b. strcmp_for_qsort a b \<le> 0) ys" using assms(1) by (simp add: qsort_result_def)
  then have "sorted_wrt (\<le>) ys" by (rule sorted_wrt_mono_rel [rotated]) (rule le)
  then show ?thesis by (rule properties_for_sort [OF m, symmetric])
qed

section \<open>Memory\<close>

text \<open>\<open>gen_rand_strings\<close> allocates the array and then each string.\<close>

fun gen_mallocs :: "new_addr \<Rightarrow> nat \<Rightarrow> ledger \<Rightarrow> addr list \<times> ledger" where
  "gen_mallocs new 0 l = ([], l)"
| "gen_mallocs new (Suc n) l =
     (let (p, l1) = led_malloc new l; (ps, l2) = gen_mallocs new n l1 in (p # ps, l2))"

definition strings_mallocs :: "new_addr \<Rightarrow> nat \<Rightarrow> ledger \<Rightarrow> addr \<times> addr list \<times> ledger" where
  "strings_mallocs new num_strings l =
     (let (strings, l1) = led_malloc new l; (ps, l2) = gen_mallocs new num_strings l1 in (strings, ps, l2))"

fun free_each :: "addr list \<Rightarrow> ledger \<Rightarrow> ledger res" where
  "free_each [] l = Inr l"
| "free_each (p # ps) l = res_bind (led_free p l) (free_each ps)"

definition free_strings :: "addr \<Rightarrow> addr list \<Rightarrow> ledger \<Rightarrow> ledger res" where
  "free_strings strings ps l = res_bind (free_each ps l) (led_free strings)"

lemma gen_mallocs_ok:
  assumes "malloc_fresh new" and "finite (l_live l)" and "gen_mallocs new n l = (ps, l')"
  shows "distinct ps \<and> NULL \<notin> set ps \<and> set ps \<inter> l_live l = {} \<and> l_live l' = l_live l \<union> set ps"
  using assms(2,3)
proof (induction n arbitrary: l ps)
  case (Suc n)
  obtain p l1 where 1: "led_malloc new l = (p, l1)" by fastforce
  obtain qs l2 where 2: "gen_mallocs new n l1 = (qs, l2)" by fastforce
  have m: "p \<noteq> NULL \<and> p \<notin> l_live l \<and> l_live l1 = insert p (l_live l) \<and> finite (l_live l1)"
    using led_malloc_ok [OF assms(1) Suc.prems(1) 1] .
  have "ps = p # qs" "l' = l2" using Suc.prems(2) 1 2 by auto
  then have 3: "gen_mallocs new n l1 = (qs, l')" using 2 by simp
  have fin: "finite (l_live l1)" using m by blast
  show ?case using Suc.IH [OF fin 3] m \<open>ps = p # qs\<close> by auto
qed simp

lemma free_each_ok:
  "distinct ps \<Longrightarrow> NULL \<notin> set ps \<Longrightarrow> set ps \<subseteq> l_live l \<Longrightarrow>
     free_each ps l = Inr (l\<lparr>l_live := l_live l - set ps\<rparr>)"
proof (induction ps arbitrary: l)
  case (Cons p ps)
  then have "free_each ps (l\<lparr>l_live := l_live l - {p}\<rparr>) = Inr (l\<lparr>l_live := l_live l - {p} - set ps\<rparr>)"
    by (subst Cons.IH) auto
  moreover have "l_live l - insert p (set ps) = l_live l - {p} - set ps" by auto
  ultimately show ?case using Cons.prems by simp
qed simp

text \<open>\<open>free_strings\<close> frees the blocks of \<open>gen_rand_strings\<close>, each once, and no other.\<close>

lemma free_strings_ok:
  assumes "malloc_fresh new" and "finite (l_live l)" and "strings_mallocs new n l = (strings, ps, l')"
  shows "\<exists>l''. free_strings strings ps l' = Inr l'' \<and> l_live l'' = l_live l"
proof -
  obtain a l1 where 1: "led_malloc new l = (a, l1)" by fastforce
  obtain qs l2 where 2: "gen_mallocs new n l1 = (qs, l2)" by fastforce
  have eq: "strings = a" "ps = qs" "l' = l2" using assms(3) by (simp_all add: strings_mallocs_def 1 2)
  have a: "a \<noteq> NULL" "a \<notin> l_live l" "l_live l1 = insert a (l_live l)" "finite (l_live l1)"
    using led_malloc_ok [OF assms(1,2) 1] by auto
  have g: "distinct qs" "NULL \<notin> set qs" "set qs \<inter> l_live l1 = {}" "l_live l2 = l_live l1 \<union> set qs"
    using gen_mallocs_ok [OF assms(1) a(4) 2] by auto
  have "free_each qs l2 = Inr (l2\<lparr>l_live := l_live l2 - set qs\<rparr>)" using g by (intro free_each_ok) auto
  moreover have "l_live l2 - set qs = l_live l1" using g(3,4) by auto
  ultimately show ?thesis using a by (simp add: eq free_strings_def)
qed

end
