(* ===== verification/Part7_Harness.thy ===== *)
theory Part7_Harness
  imports Part7_Strings "HOL-Library.Tree"
begin

text \<open>
  \<open>clab/mini/part7_harness.c\<close>: the program that tests the sorted binary tree of \<open>part7.c\<close>. The tree
  functions are to be written, so they are an argument (\<open>tree_pkg\<close>); the tree a pointer leads to is a
  value. Strings are compared as \<open>strcmp\<close> does, by unsigned characters, which is the order of lists
  of characters, and \<open>qsort\<close> with that order is \<open>sort\<close> (lemma \<open>qsort_is_sort\<close> of \<open>Part7_Strings\<close>). The calls of \<open>malloc\<close> in the harness are taken
  to succeed, and \<open>rnd i\<close> is what the \<open>i\<close>th call of \<open>rand\<close> returns.
\<close>

section \<open>The tree functions\<close>

text \<open>
  A traversal returns the number of strings it has stored, and the \<open>result\<close> array of \<open>result_max\<close>
  entries after the call. The trees are numbered in the order of the calls of \<open>init_tree\<close>, so that a
  package may return something else at each call.
\<close>

record 't tree_pkg =
  pk_init :: "nat \<Rightarrow> 't"
  pk_insert :: "'t \<Rightarrow> string \<Rightarrow> (int \<times> 't) res"
  pk_preorder :: "'t \<Rightarrow> int \<Rightarrow> (int \<times> string list) res"
  pk_inorder :: "'t \<Rightarrow> int \<Rightarrow> (int \<times> string list) res"
  pk_del :: "'t \<Rightarrow> unit res"

section \<open>The helpers\<close>

text \<open>\<open>panic_cond\<close> ends the program by \<open>abort\<close>, as a failed assertion does.\<close>

definition panic_cond :: "bool \<Rightarrow> unit res" where
  "panic_cond b = (if b then Inr () else Inl AssertFail)"

definition debug_strlen :: int where "debug_strlen = 10000"

fun concat_loop :: "nat \<Rightarrow> int \<Rightarrow> string list \<Rightarrow> string \<Rightarrow> string res" where
  "concat_loop 0 i strs out = Inr out"
| "concat_loop (Suc k) i strs out =
     res_bind (get_arr strs i) (\<lambda>s.
     (let out' = out @ s @ '' '' in
      if int (length out') + 1 > debug_strlen then Inl OutOfBounds
      else
        res_bind (c_assert (int (length out') < debug_strlen)) (\<lambda>_.
        concat_loop k (i + 1) strs out')))"

definition concat_strings :: "string list \<Rightarrow> int \<Rightarrow> string res" where
  "concat_strings strs n = concat_loop (nat n) 0 strs []"

definition gen_rand_strings :: "(nat \<Rightarrow> int) \<Rightarrow> nat \<Rightarrow> nat \<Rightarrow> string list" where
  "gen_rand_strings rnd num_strings n_chars =
     map (\<lambda>i. map (\<lambda>j. char_of (rnd (i * n_chars + j) smod 9 + 49)) [0..<n_chars]) [0..<num_strings]"

section \<open>The challenge question\<close>

fun insert_any :: "'t tree_pkg \<Rightarrow> 't \<Rightarrow> string list \<Rightarrow> 't res" where
  "insert_any pkg t [] = Inr t"
| "insert_any pkg t (s # ss) = res_bind (pk_insert pkg t s) (\<lambda>(ret, t'). insert_any pkg t' ss)"

definition challenge_question :: "'t tree_pkg \<Rightarrow> (nat \<Rightarrow> int) \<Rightarrow> int \<Rightarrow> unit res" where
  "challenge_question pkg rnd num_nodes =
     (let strings = gen_rand_strings rnd (nat num_nodes) 20 in
      res_bind (insert_any pkg (pk_init pkg 0) strings) (\<lambda>t.
      res_bind (pk_del pkg t) (\<lambda>_.
      res_bind (insert_any pkg (pk_init pkg 1) (sort strings)) (pk_del pkg))))"

section \<open>The fixed trees\<close>

definition NUM_NODES :: int where "NUM_NODES = 5"

definition test_strings :: "string list list" where
  "test_strings =
     [[''000'', ''111'', ''222'', ''333'', ''444''],
      [''444'', ''333'', ''222'', ''111'', ''000''],
      [''222'', ''111'', ''333'', ''000'', ''444''],
      [''000'', ''111'', ''333'', ''222'', ''444''],
      [''222'', ''000'', ''444'', ''111'', ''333'']]"

definition preorder_results :: "string list list" where
  "preorder_results =
     [[''000'', ''111'', ''222'', ''333'', ''444''],
      [''444'', ''333'', ''222'', ''111'', ''000''],
      [''222'', ''111'', ''000'', ''333'', ''444''],
      [''000'', ''111'', ''333'', ''222'', ''444''],
      [''222'', ''000'', ''111'', ''444'', ''333'']]"

fun insert_new :: "'t tree_pkg \<Rightarrow> 't \<Rightarrow> string list \<Rightarrow> 't res" where
  "insert_new pkg t [] = Inr t"
| "insert_new pkg t (s # ss) =
     res_bind (pk_insert pkg t s) (\<lambda>(ret, t').
     res_bind (panic_cond (ret = 0)) (\<lambda>_. insert_new pkg t' ss))"

text \<open>The messages are built before each comparison, whether it fails or not.\<close>

fun compare_loop :: "nat \<Rightarrow> int \<Rightarrow> string list \<Rightarrow> string list \<Rightarrow> unit res" where
  "compare_loop 0 j expected result = Inr ()"
| "compare_loop (Suc k) j expected result =
     res_bind (get_arr expected j) (\<lambda>e.
     res_bind (get_arr result j) (\<lambda>r.
     res_bind (concat_strings expected NUM_NODES) (\<lambda>_.
     res_bind (concat_strings result NUM_NODES) (\<lambda>_.
     res_bind (panic_cond (e = r)) (\<lambda>_.
     compare_loop k (j + 1) expected result)))))"

definition traversal_test ::
  "'t tree_pkg \<Rightarrow> ('t \<Rightarrow> int \<Rightarrow> (int \<times> string list) res) \<Rightarrow> nat \<Rightarrow> string list \<Rightarrow> string list \<Rightarrow> unit res" where
  "traversal_test pkg traversal k strs expected =
     res_bind (insert_new pkg (pk_init pkg k) strs) (\<lambda>tree.
     res_bind (traversal tree NUM_NODES) (\<lambda>(ret, result).
     res_bind (panic_cond (ret = NUM_NODES)) (\<lambda>_.
     res_bind (compare_loop (nat NUM_NODES) 0 expected result) (\<lambda>_.
     pk_del pkg tree))))"

text \<open>The trees of a loop over the tests, the first of them with the number \<open>k\<close>.\<close>

fun run_tests ::
  "(nat \<Rightarrow> string list \<Rightarrow> string list \<Rightarrow> unit res) \<Rightarrow> nat \<Rightarrow> (string list \<times> string list) list \<Rightarrow> unit res" where
  "run_tests test k [] = Inr ()"
| "run_tests test k ((strs, expected) # ts) =
     res_bind (test k strs expected) (\<lambda>_. run_tests test (Suc k) ts)"

section \<open>Many strings with duplicates\<close>

definition num_nodes :: nat where "num_nodes = 1000"

fun dup_loop :: "'t tree_pkg \<Rightarrow> 't \<Rightarrow> bool list \<Rightarrow> string list \<Rightarrow> 't res" where
  "dup_loop pkg t seen_before [] = Inr t"
| "dup_loop pkg t seen_before (s # ss) =
     (let val = c_atoi s in
      res_bind (c_assert (val > 0 \<and> val < int num_nodes)) (\<lambda>_.
      res_bind (pk_insert pkg t s) (\<lambda>(ret, t').
      res_bind (get_arr seen_before val) (\<lambda>seen.
      if \<not> seen
      then res_bind (panic_cond (ret = 0)) (\<lambda>_. dup_loop pkg t' (seen_before[nat val := True]) ss)
      else res_bind (panic_cond (ret = 1)) (\<lambda>_. dup_loop pkg t' seen_before ss)))))"

fun nodup_loop :: "string list \<Rightarrow> string list \<Rightarrow> string list" where
  "nodup_loop nodup [] = nodup"
| "nodup_loop nodup (s # ss) =
     (if nodup = [] \<or> s \<noteq> last nodup then nodup_loop (nodup @ [s]) ss else nodup_loop nodup ss)"

fun check_inorder :: "nat \<Rightarrow> int \<Rightarrow> string list \<Rightarrow> string list \<Rightarrow> unit res" where
  "check_inorder 0 i nodup result = Inr ()"
| "check_inorder (Suc k) i nodup result =
     res_bind (get_arr result i) (\<lambda>r.
     res_bind (get_arr nodup i) (\<lambda>s.
     res_bind (panic_cond (r = s)) (\<lambda>_. check_inorder k (i + 1) nodup result)))"

text \<open>The tree comes after the ten fixed ones.\<close>

definition dup_test :: "'t tree_pkg \<Rightarrow> (nat \<Rightarrow> int) \<Rightarrow> unit res" where
  "dup_test pkg rnd =
     (let strings = gen_rand_strings rnd num_nodes 3 in
      res_bind (dup_loop pkg (pk_init pkg 10) (replicate num_nodes False) strings) (\<lambda>tree.
      (let nodup = nodup_loop [] (sort strings) in
       res_bind (pk_inorder pkg tree (int num_nodes)) (\<lambda>(ret, result).
       res_bind (panic_cond (ret = int (length nodup))) (\<lambda>_.
       res_bind (check_inorder (length nodup) 0 nodup result) (\<lambda>_.
       pk_del pkg tree))))))"

section \<open>The program\<close>

text \<open>\<open>opts\<close> are the options \<open>getopt\<close> finds; only the first \<open>-n\<close> counts.\<close>

fun node_count :: "(char \<times> string) list \<Rightarrow> int" where
  "node_count [] = 0"
| "node_count ((c, optarg) # opts) = (if c = CHR ''n'' then c_atoi optarg else node_count opts)"

definition part7_main :: "'t tree_pkg \<Rightarrow> (nat \<Rightarrow> int) \<Rightarrow> bool \<Rightarrow> (char \<times> string) list \<Rightarrow> unit res" where
  "part7_main pkg rnd has_args opts =
     (if has_args
      then if node_count opts \<le> 0 then Inl (Exit 1) else challenge_question pkg rnd (node_count opts)
      else
        res_bind (run_tests (traversal_test pkg (pk_preorder pkg)) 0 (zip test_strings preorder_results)) (\<lambda>_.
        res_bind (run_tests (traversal_test pkg (pk_inorder pkg)) 5
          (map (\<lambda>strs. (strs, sort (hd test_strings))) test_strings)) (\<lambda>_.
        dup_test pkg rnd)))"

section \<open>What a sorted tree promises\<close>

text \<open>
  The tree the comments of \<open>part7.c\<close> describe is the plain unbalanced one. A package implements it when
  its trees stand for such trees (\<open>tree_of\<close>): \<open>insert\<close> returns 1 for a duplicate and 0 otherwise, and the
  traversals store the strings of the tree in their order, when they fit.
\<close>

fun bst_insert :: "'a :: linorder \<Rightarrow> 'a tree \<Rightarrow> 'a tree" where
  "bst_insert x \<langle>\<rangle> = \<langle>\<langle>\<rangle>, x, \<langle>\<rangle>\<rangle>"
| "bst_insert x \<langle>l, a, r\<rangle> =
     (if x < a then \<langle>bst_insert x l, a, r\<rangle> else if a < x then \<langle>l, a, bst_insert x r\<rangle> else \<langle>l, a, r\<rangle>)"

definition stores :: "string list \<Rightarrow> int \<Rightarrow> (int \<times> string list) res \<Rightarrow> bool" where
  "stores ss n r \<longleftrightarrow> (int (length ss) \<le> n \<longrightarrow> (\<exists>junk. r = Inr (int (length ss), ss @ junk)))"

definition sorted_tree_ok :: "'t tree_pkg \<Rightarrow> ('t \<Rightarrow> string tree) \<Rightarrow> bool" where
  "sorted_tree_ok pkg tree_of \<longleftrightarrow>
     (\<forall>k. tree_of (pk_init pkg k) = \<langle>\<rangle>) \<and>
     (\<forall>t s. \<exists>t'. pk_insert pkg t s = Inr (if s \<in> set_tree (tree_of t) then 1 else 0, t') \<and>
        tree_of t' = bst_insert s (tree_of t)) \<and>
     (\<forall>t n. stores (preorder (tree_of t)) n (pk_preorder pkg t n)) \<and>
     (\<forall>t n. stores (inorder (tree_of t)) n (pk_inorder pkg t n)) \<and>
     (\<forall>t. pk_del pkg t = Inr ())"

lemma sorted_tree_okD:
  assumes "sorted_tree_ok pkg tree_of"
  shows "tree_of (pk_init pkg k) = \<langle>\<rangle>" "stores (preorder (tree_of t)) n (pk_preorder pkg t n)"
    "stores (inorder (tree_of t)) n (pk_inorder pkg t n)" "pk_del pkg t = Inr ()"
  using assms by (simp_all add: sorted_tree_ok_def)

lemma sorted_tree_insert:
  assumes "sorted_tree_ok pkg tree_of"
  obtains t' where "pk_insert pkg t s = Inr (if s \<in> set_tree (tree_of t) then 1 else 0, t')"
    "tree_of t' = bst_insert s (tree_of t)"
  using assms unfolding sorted_tree_ok_def by blast

lemma set_bst_insert [simp]: "set_tree (bst_insert x t) = insert x (set_tree t)"
  by (induction t) auto

lemma bst_bst_insert: "bst t \<Longrightarrow> bst (bst_insert x t)"
  by (induction t) auto

lemma set_fold_bst_insert: "set_tree (fold bst_insert ss t) = set ss \<union> set_tree t"
  by (induction ss arbitrary: t) auto

lemma bst_fold_bst_insert: "bst t \<Longrightarrow> bst (fold bst_insert ss t)"
  by (induction ss arbitrary: t) (auto simp: bst_bst_insert)

text \<open>The inorder traversal of the tree built from \<open>ss\<close> is \<open>ss\<close> sorted, without duplicates.\<close>

lemma inorder_fold_bst_insert: "inorder (fold bst_insert ss \<langle>\<rangle>) = sorted_list_of_set (set ss)"
proof -
  have "bst (fold bst_insert ss \<langle>\<rangle>)" by (rule bst_fold_bst_insert) simp
  then have "sorted_wrt (<) (inorder (fold bst_insert ss \<langle>\<rangle>))" by (simp add: bst_iff_sorted_wrt_less)
  then show ?thesis
    by (intro sorted_distinct_set_unique) (auto simp: strict_sorted_iff set_fold_bst_insert)
qed

section \<open>The harness accepts every sorted tree\<close>

lemma panic_cond_simps [simp]: "panic_cond True = Inr ()" "panic_cond False = Inl AssertFail"
  by (simp_all add: panic_cond_def)

lemma insert_any_ok:
  assumes "sorted_tree_ok pkg tree_of"
  shows "\<exists>t'. insert_any pkg t ss = Inr t'"
proof (induction ss arbitrary: t)
  case (Cons s ss)
  obtain t' where "pk_insert pkg t s = Inr (if s \<in> set_tree (tree_of t) then 1 else 0, t')"
    using sorted_tree_insert [OF assms] by blast
  with Cons.IH [of t'] show ?case by simp
qed simp

lemma insert_new_ok:
  assumes "sorted_tree_ok pkg tree_of" and "distinct ss" and "set ss \<inter> set_tree (tree_of t) = {}"
  obtains t' where "insert_new pkg t ss = Inr t'" "tree_of t' = fold bst_insert ss (tree_of t)"
  using assms(2,3)
proof (induction ss arbitrary: t thesis)
  case (Cons s ss)
  obtain t1 where t1: "pk_insert pkg t s = Inr (if s \<in> set_tree (tree_of t) then 1 else 0, t1)"
    "tree_of t1 = bst_insert s (tree_of t)" using sorted_tree_insert [OF assms(1)] by blast
  have "distinct ss" "set ss \<inter> set_tree (tree_of t1) = {}" using Cons.prems(2,3) t1(2) by auto
  then obtain t2 where "insert_new pkg t1 ss = Inr t2" "tree_of t2 = fold bst_insert ss (tree_of t1)"
    using Cons.IH [of t1] by blast
  with t1 Cons.prems show ?case by simp
qed simp

lemma concat_loop_ok:
  assumes "0 \<le> i" and "nat i + k \<le> length strs" and "\<forall>s\<in>set strs. length s = 3"
    and "int (length out) + 4 * int k < debug_strlen"
  shows "\<exists>out'. concat_loop k i strs out = Inr out'"
  using assms
proof (induction k arbitrary: i out)
  case (Suc k)
  have "length (strs ! nat i) = 3" using Suc.prems(1,2,3) by simp
  with Suc.prems Suc.IH [of "i + 1" "out @ strs ! nat i @ '' ''"] show ?case
    by (simp add: Let_def nat_add_distrib debug_strlen_def)
qed simp

text \<open>The messages are built from the first five strings only.\<close>

lemma concat_loop_append:
  "0 \<le> i \<Longrightarrow> nat i + k \<le> length xs \<Longrightarrow> concat_loop k i (xs @ ys) out = concat_loop k i xs out"
proof (induction k arbitrary: i out)
  case (Suc k)
  then have "get_arr (xs @ ys) i = get_arr xs i" by (simp add: nth_append)
  with Suc show ?case by (simp add: Let_def nat_add_distrib)
qed simp

lemma compare_loop_ok:
  assumes "length expected = 5" and "\<forall>s\<in>set expected. length s = 3" and "0 \<le> j" and "nat j + k \<le> 5"
  shows "compare_loop k j expected (expected @ junk) = Inr ()"
proof -
  obtain o1 where "concat_strings expected NUM_NODES = Inr o1"
    using concat_loop_ok [of 0 5 expected "[]"] assms(1,2)
    by (auto simp: concat_strings_def NUM_NODES_def debug_strlen_def)
  moreover from this have "concat_strings (expected @ junk) NUM_NODES = Inr o1"
    using concat_loop_append [of 0 5 expected junk "[]"] assms(1) by (simp add: concat_strings_def NUM_NODES_def)
  ultimately show ?thesis using assms(3,4)
    by (induction k arbitrary: j) (simp_all add: nth_append assms(1) nat_add_distrib)
qed

lemma traversal_test_ok:
  assumes pkg: "sorted_tree_ok pkg tree_of" and strs: "distinct strs"
    and trav: "\<And>t. stores (tr (tree_of t)) NUM_NODES (traversal t NUM_NODES)"
    and exp: "tr (fold bst_insert strs \<langle>\<rangle>) = expected" "length expected = 5"
      "\<forall>s\<in>set expected. length s = 3"
  shows "traversal_test pkg traversal k strs expected = Inr ()"
proof -
  obtain t where t: "insert_new pkg (pk_init pkg k) strs = Inr t" "tree_of t = fold bst_insert strs \<langle>\<rangle>"
    using insert_new_ok [OF pkg strs, of "pk_init pkg k"] by (auto simp: sorted_tree_okD(1) [OF pkg])
  then obtain junk where "traversal t NUM_NODES = Inr (5, expected @ junk)"
    using trav [of t] exp(1,2) by (auto simp: stores_def NUM_NODES_def)
  with t exp(2,3) compare_loop_ok [of expected 0 5 junk] show ?thesis
    by (simp add: traversal_test_def NUM_NODES_def sorted_tree_okD(4) [OF pkg])
qed

text \<open>The random strings have three digits from 1 to 9, and \<open>atoi\<close> tells them apart.\<close>

definition digits3 :: "string \<Rightarrow> bool" where
  "digits3 s \<longleftrightarrow> length s = 3 \<and> (\<forall>c\<in>set s. 1 \<le> digit c \<and> digit c \<le> 9)"

lemma digits3E:
  assumes "digits3 s"
  obtains a b c where "s = [a, b, c]" "1 \<le> digit a" "digit a \<le> 9" "1 \<le> digit b" "digit b \<le> 9"
    "1 \<le> digit c" "digit c \<le> 9"
  using assms by (auto simp: digits3_def length_Suc_conv numeral_3_eq_3)

lemma atoi_digits3:
  assumes "1 \<le> digit a" "digit a \<le> 9" "1 \<le> digit b" "digit b \<le> 9" "1 \<le> digit c" "digit c \<le> 9"
  shows "c_atoi [a, b, c] = 100 * digit a + 10 * digit b + digit c"
proof -
  have "(of_char a :: int) = digit a + 48" by (simp add: digit_def)
  then have "49 \<le> (of_char a :: int)" "(of_char a :: int) \<le> 57" using assms by simp_all
  then have "a \<noteq> CHR '' ''" "\<not> (9 \<le> (of_char a :: int) \<and> (of_char a :: int) \<le> 13)" "a \<noteq> CHR ''-''" "a \<noteq> CHR ''+''"
    by auto
  moreover from this have "dropWhile (\<lambda>c. c = CHR '' '' \<or> (9 \<le> (of_char c :: int) \<and> (of_char c :: int) \<le> 13)) [a, b, c] =
      [a, b, c]" by auto
  ultimately show ?thesis using assms unfolding c_atoi_def by simp
qed

lemma digit_inj: "digit a = digit b \<longleftrightarrow> a = b"
  by (simp add: digit_def of_char_eq_iff)

lemma atoi_range: "digits3 s \<Longrightarrow> 0 < c_atoi s \<and> c_atoi s < 1000"
  by (erule digits3E) (simp add: atoi_digits3)

lemma atoi_inj:
  assumes "digits3 s" and "digits3 t" and "c_atoi s = c_atoi t"
  shows "s = t"
proof -
  obtain a b c where s: "s = [a, b, c]" "1 \<le> digit a" "digit a \<le> 9" "1 \<le> digit b" "digit b \<le> 9"
    "1 \<le> digit c" "digit c \<le> 9" using assms(1) by (rule digits3E)
  obtain a' b' c' where t: "t = [a', b', c']" "1 \<le> digit a'" "digit a' \<le> 9" "1 \<le> digit b'" "digit b' \<le> 9"
    "1 \<le> digit c'" "digit c' \<le> 9" using assms(2) by (rule digits3E)
  have "100 * digit a + 10 * digit b + digit c = 100 * digit a' + 10 * digit b' + digit c'"
    using assms(3) s t by (simp add: atoi_digits3)
  moreover from this have "digit a = digit a'" using s(2-) t(2-) by linarith
  moreover from calculation have "digit b = digit b'" using s(2-) t(2-) by linarith
  ultimately have "digit a = digit a'" "digit b = digit b'" "digit c = digit c'" by simp_all
  then show ?thesis using s(1) t(1) by (simp add: digit_inj)
qed

lemma gen_rand_digits3:
  assumes "\<And>i. 0 \<le> rnd i" and "s \<in> set (gen_rand_strings rnd n 3)"
  shows "digits3 s"
proof -
  have "1 \<le> digit (char_of (rnd i smod 9 + 49))" "digit (char_of (rnd i smod 9 + 49)) \<le> 9" for i
  proof -
    have "rnd i smod 9 = rnd i mod 9" using assms(1) by (simp add: smod_nonneg)
    then have "0 \<le> rnd i smod 9" "rnd i smod 9 < 9" by simp_all
    then have "(of_char (char_of (rnd i smod 9 + 49) :: char) :: int) = rnd i smod 9 + 49"
      by (simp only: of_char_of) simp
    then show "1 \<le> digit (char_of (rnd i smod 9 + 49))" "digit (char_of (rnd i smod 9 + 49)) \<le> 9"
      using \<open>0 \<le> rnd i smod 9\<close> \<open>rnd i smod 9 < 9\<close> by (simp_all add: digit_def)
  qed
  with assms(2) show ?thesis by (auto simp: gen_rand_strings_def digits3_def)
qed

lemma dup_loop_ok:
  assumes pkg: "sorted_tree_ok pkg tree_of" and "\<forall>s\<in>set ss. digits3 s" and "length seen = num_nodes"
    and "\<And>s. digits3 s \<Longrightarrow> seen ! nat (c_atoi s) \<longleftrightarrow> s \<in> set_tree (tree_of t)"
  shows "\<exists>t'. dup_loop pkg t seen ss = Inr t' \<and> tree_of t' = fold bst_insert ss (tree_of t)"
  using assms(2-)
proof (induction ss arbitrary: t seen)
  case (Cons s ss)
  obtain t1 where t1: "pk_insert pkg t s = Inr (if s \<in> set_tree (tree_of t) then 1 else 0, t1)"
    "tree_of t1 = bst_insert s (tree_of t)" using sorted_tree_insert [OF pkg] by blast
  have s: "digits3 s" using Cons.prems(1) by simp
  note r = atoi_range [OF s]
  let ?seen = "if seen ! nat (c_atoi s) then seen else seen[nat (c_atoi s) := True]"
  have "?seen ! nat (c_atoi u) \<longleftrightarrow> u \<in> set_tree (tree_of t1)" if u: "digits3 u" for u
  proof (cases "u = s")
    case True
    moreover have "nat (c_atoi s) < length seen" using r Cons.prems(2) by (auto simp: num_nodes_def nat_less_iff)
    ultimately show ?thesis by (simp add: t1(2))
  next
    case False
    then have "nat (c_atoi u) \<noteq> nat (c_atoi s)" using atoi_inj [OF u s] atoi_range [OF u] r
      by (metis eq_nat_nat_iff less_imp_le)
    with False show ?thesis using Cons.prems(3) [OF u] by (simp add: t1(2))
  qed
  moreover have "length ?seen = num_nodes" "\<forall>s\<in>set ss. digits3 s" using Cons.prems(1,2) by simp_all
  ultimately obtain t' where "dup_loop pkg t1 ?seen ss = Inr t'" "tree_of t' = fold bst_insert ss (tree_of t1)"
    using Cons.IH [of ?seen t1] by blast
  moreover have "get_arr seen (c_atoi s) = Inr (seen ! nat (c_atoi s))"
    using r Cons.prems(2) by (simp add: num_nodes_def)
  ultimately show ?case
    using t1 r Cons.prems(3) [OF s] by (simp add: Let_def num_nodes_def split: if_splits)
qed simp

lemma nodup_loop_sorted:
  assumes "sorted_wrt (<) acc" and "sorted ss" and "\<forall>x\<in>set acc. \<forall>y\<in>set ss. x \<le> y"
  shows "sorted_wrt (<) (nodup_loop acc ss) \<and> set (nodup_loop acc ss) = set acc \<union> set ss"
  using assms
proof (induction ss arbitrary: acc)
  case (Cons s ss)
  show ?case
  proof (cases "acc = [] \<or> s \<noteq> last acc")
    case True
    have "x < s" if "x \<in> set acc" for x
    proof -
      have ne: "acc \<noteq> []" using that by auto
      then have "last acc < s" using True Cons.prems(3) by (simp add: order_less_le)
      moreover have "x \<le> last acc"
        using that Cons.prems(1) append_butlast_last_id [OF ne] sorted_wrt_append [of "(<)" "butlast acc" "[last acc]"]
        by (metis Un_iff empty_iff less_imp_le list.set(1) list.set_intros(1) order_refl set_ConsD set_append)
      ultimately show ?thesis by simp
    qed
    then have "sorted_wrt (<) (acc @ [s])" using Cons.prems(1) by (simp add: sorted_wrt_append)
    moreover have "\<forall>x\<in>set (acc @ [s]). \<forall>y\<in>set ss. x \<le> y" using Cons.prems(2,3) by auto
    ultimately show ?thesis using Cons.IH [of "acc @ [s]"] Cons.prems(2) True by auto
  next
    case False
    then have "s \<in> set acc" by (metis last_in_set)
    with False Cons show ?thesis by auto
  qed
qed simp

lemma nodup_loop_sort: "nodup_loop [] (sort ss) = sorted_list_of_set (set ss)"
  using nodup_loop_sorted [of "[]" "sort ss"]
  by (intro sorted_distinct_set_unique) (auto simp: strict_sorted_iff)

lemma check_inorder_ok:
  "0 \<le> i \<Longrightarrow> nat i + k \<le> length xs \<Longrightarrow> check_inorder k i xs (xs @ junk) = Inr ()"
  by (induction k arbitrary: i) (simp_all add: nth_append nat_add_distrib)

lemma dup_test_ok:
  assumes pkg: "sorted_tree_ok pkg tree_of" and "\<And>i. 0 \<le> rnd i"
  shows "dup_test pkg rnd = Inr ()"
proof -
  let ?ss = "gen_rand_strings rnd num_nodes 3"
  have dig: "\<forall>s\<in>set ?ss. digits3 s" using gen_rand_digits3 [of rnd] assms(2) by blast
  have "\<exists>t. dup_loop pkg (pk_init pkg 10) (replicate num_nodes False) ?ss = Inr t \<and>
      tree_of t = fold bst_insert ?ss (tree_of (pk_init pkg 10))"
    by (rule dup_loop_ok [OF pkg dig])
      (auto simp: sorted_tree_okD(1) [OF pkg] num_nodes_def nth_replicate dest!: atoi_range)
  then obtain t where t: "dup_loop pkg (pk_init pkg 10) (replicate num_nodes False) ?ss = Inr t"
    "inorder (tree_of t) = sorted_list_of_set (set ?ss)"
    by (auto simp: sorted_tree_okD(1) [OF pkg] inorder_fold_bst_insert)
  have "length (sorted_list_of_set (set ?ss)) \<le> num_nodes"
    using card_length [of ?ss] by (simp add: gen_rand_strings_def)
  then obtain junk where "pk_inorder pkg t (int num_nodes) =
      Inr (int (length (sorted_list_of_set (set ?ss))), sorted_list_of_set (set ?ss) @ junk)"
    using sorted_tree_okD(3) [OF pkg, of t "int num_nodes"] t(2) by (auto simp: stores_def)
  with t(1) show ?thesis
    by (simp add: dup_test_def Let_def nodup_loop_sort check_inorder_ok sorted_tree_okD(4) [OF pkg])
qed

lemma preorder_tests_ok:
  assumes "sorted_tree_ok pkg tree_of"
  shows "run_tests (traversal_test pkg (pk_preorder pkg)) k (zip test_strings preorder_results) = Inr ()"
  unfolding test_strings_def preorder_results_def zip_Cons_Cons zip_Nil run_tests.simps
  by (subst traversal_test_ok [OF assms, where tr = preorder];
      (simp add: sorted_tree_okD [OF assms] less_char_def)?)+

lemma inorder_tests_ok:
  assumes "sorted_tree_ok pkg tree_of"
  shows "run_tests (traversal_test pkg (pk_inorder pkg)) k
    (map (\<lambda>strs. (strs, sort (hd test_strings))) test_strings) = Inr ()"
  unfolding test_strings_def list.map list.sel run_tests.simps
  by (subst traversal_test_ok [OF assms, where tr = inorder];
      (simp add: sorted_tree_okD [OF assms] less_char_def less_eq_char_def)?)+

lemma challenge_ok:
  assumes "sorted_tree_ok pkg tree_of"
  shows "challenge_question pkg rnd n = Inr ()"
proof -
  let ?ss = "gen_rand_strings rnd (nat n) 20"
  obtain t u where "insert_any pkg (pk_init pkg 0) ?ss = Inr t" "insert_any pkg (pk_init pkg 1) (sort ?ss) = Inr u"
    using insert_any_ok [OF assms] by meson
  then show ?thesis by (simp add: challenge_question_def sorted_tree_okD(4) [OF assms])
qed

text \<open>
  C9: the harness accepts every correct sorted tree: with a package that implements the unbalanced
  tree of the comments of \<open>part7.c\<close>, the five fixed trees in both traversals, the 1000 random strings
  with duplicates and the challenge question all pass, whatever \<open>rand\<close> returns; no array of the harness
  is overrun. Only a node count that is not positive ends the program, with status 1.
\<close>

theorem part7_accepts_sorted_tree:
  assumes "sorted_tree_ok pkg tree_of" and "\<And>i. 0 \<le> rnd i"
  shows "part7_main pkg rnd has_args opts =
    (if has_args \<and> node_count opts \<le> 0 then Inl (Exit 1) else Inr ())"
  using preorder_tests_ok [OF assms(1)] inorder_tests_ok [OF assms(1)] dup_test_ok [OF assms]
    challenge_ok [OF assms(1)]
  by (simp add: part7_main_def)

definition demo_tree_pkg :: "string tree tree_pkg" where
  "demo_tree_pkg = \<lparr>pk_init = (\<lambda>k. \<langle>\<rangle>), pk_insert = (\<lambda>t s. Inr (if s \<in> set_tree t then 1 else 0, bst_insert s t)),
     pk_preorder = (\<lambda>t n. Inr (int (length (preorder t)), preorder t)),
     pk_inorder = (\<lambda>t n. Inr (int (length (inorder t)), inorder t)), pk_del = (\<lambda>t. Inr ())\<rparr>"

lemma demo_tree_pkg_ok: "sorted_tree_ok demo_tree_pkg (\<lambda>t. t)"
  by (simp add: sorted_tree_ok_def demo_tree_pkg_def stores_def)

theorem part7_accepts_sorted_tree_witness:
  "part7_main demo_tree_pkg (\<lambda>i. int i) False [] = Inr () \<and>
   part7_main demo_tree_pkg (\<lambda>i. int i) True [] = Inl (Exit 1)"
  using part7_accepts_sorted_tree [OF demo_tree_pkg_ok, of "\<lambda>i. int i"] by simp

section \<open>The harness rejects a tree that takes duplicates\<close>

lemma dup_loop_rejects:
  assumes ins: "\<And>t s. \<exists>t'. pk_insert pkg t s = Inr (0, t')" and "\<forall>s\<in>set ss. digits3 s"
    and "length seen = num_nodes" and "\<not> distinct ss \<or> (\<exists>s\<in>set ss. seen ! nat (c_atoi s))"
  shows "dup_loop pkg t seen ss = Inl AssertFail"
  using assms(2-)
proof (induction ss arbitrary: t seen)
  case (Cons s ss)
  obtain t1 where t1: "pk_insert pkg t s = Inr (0, t1)" using ins by blast
  note r = atoi_range [of s]
  have i: "nat (c_atoi s) < length seen" "0 < c_atoi s" "c_atoi s < 1000"
    using r Cons.prems(1,2) by (auto simp: num_nodes_def nat_less_iff)
  show ?case
  proof (cases "seen ! nat (c_atoi s)")
    case True
    with t1 i show ?thesis by (simp add: Let_def num_nodes_def)
  next
    case False
    let ?seen = "seen[nat (c_atoi s) := True]"
    have "?seen ! nat (c_atoi u) \<or> \<not> seen ! nat (c_atoi u)" if "u \<in> set ss" for u
      by (cases "nat (c_atoi u) = nat (c_atoi s)") (use i in simp_all)
    moreover have "?seen ! nat (c_atoi s)" using i(1) by simp
    ultimately have "\<not> distinct ss \<or> (\<exists>u\<in>set ss. ?seen ! nat (c_atoi u))"
      using Cons.prems(3) False by auto
    then have "dup_loop pkg t1 ?seen ss = Inl AssertFail" using Cons.prems(1,2) by (intro Cons.IH) auto
    with t1 i False show ?thesis by (simp add: Let_def num_nodes_def)
  qed
qed simp

lemma digits3_duplicate:
  assumes "\<forall>s\<in>set ss. digits3 s" and "length ss = num_nodes"
  shows "\<not> distinct ss"
proof
  assume "distinct ss"
  then have "card (set ss) = 1000" using assms(2) by (simp add: distinct_card num_nodes_def)
  moreover have "card (set ss) \<le> card {1..<1000 :: int}"
  proof (rule card_inj_on_le)
    show "inj_on c_atoi (set ss)" using assms(1) atoi_inj by (auto intro!: inj_onI)
    show "c_atoi ` set ss \<subseteq> {1..<1000}" using assms(1) atoi_range by fastforce
  qed simp
  ultimately show False by simp
qed

text \<open>
  An \<open>insert\<close> that never reports a duplicate is always caught: among 1000 random strings there are
  two equal ones, as the comment says, and the second is reported, whatever \<open>rand\<close> returns.
\<close>

theorem dup_test_rejects:
  assumes "\<And>t s. \<exists>t'. pk_insert pkg t s = Inr (0, t')" and "\<And>i. 0 \<le> rnd i"
  shows "dup_test pkg rnd = Inl AssertFail"
proof -
  let ?ss = "gen_rand_strings rnd num_nodes 3"
  have dig: "\<forall>s\<in>set ?ss. digits3 s" using gen_rand_digits3 [of rnd] assms(2) by blast
  then have "\<not> distinct ?ss" by (rule digits3_duplicate) (simp add: gen_rand_strings_def)
  then have "dup_loop pkg (pk_init pkg 10) (replicate num_nodes False) ?ss = Inl AssertFail"
    by (intro dup_loop_rejects [OF assms(1) dig]) simp_all
  then show ?thesis by (simp add: dup_test_def Let_def)
qed

theorem dup_test_rejects_witness:
  "dup_test (demo_tree_pkg\<lparr>pk_insert := \<lambda>t s. Inr (0, bst_insert s t)\<rparr>) (\<lambda>i. int i) = Inl AssertFail"
  by (rule dup_test_rejects) simp_all

end
