(* ===== verification/Part7.thy ===== *)
theory Part7
  imports Part7_Harness
begin

text \<open>
  \<open>clab/mini/part7.c\<close> as shipped: functions that end without \<open>return\<close>, and \<open>init_tree\<close>, which returns what
  \<open>alloc_node\<close> returns. What the caller finds as the result of such a function is its argument \<open>u\<close>, and may
  be something else at each call; no function stores into the array of a traversal. The theorem
  runs the harness on these functions.
\<close>

definition alloc_node :: "addr \<Rightarrow> addr" where
  "alloc_node u = u"

definition init_tree :: "addr \<Rightarrow> addr" where
  "init_tree u = alloc_node u"

definition tree_insert :: "int \<Rightarrow> addr \<Rightarrow> string \<Rightarrow> int \<times> addr" where
  "tree_insert u tree s = (u, tree)"

definition tree_preorder :: "int \<Rightarrow> string list \<Rightarrow> addr \<Rightarrow> int \<Rightarrow> int \<times> string list" where
  "tree_preorder u result tree result_max = (u, result)"

definition tree_inorder :: "int \<Rightarrow> string list \<Rightarrow> addr \<Rightarrow> int \<Rightarrow> int \<times> string list" where
  "tree_inorder u result tree result_max = (u, result)"

definition del_tree :: "addr \<Rightarrow> unit" where
  "del_tree tree = ()"

text \<open>
  The results the callers find: of the call \<open>k\<close> of \<open>init_tree\<close>, of the insertion \<open>i\<close> into its tree, and of
  the traversal of that tree, each in its own way. \<open>g_result\<close> is what \<open>malloc\<close> left in the array of the
  first ten traversals, which is allocated once and which nothing writes to, and \<open>g_result2\<close> what it
  left in the array of the last one.
\<close>

record garbage =
  g_init :: "nat \<Rightarrow> addr"
  g_insert :: "nat \<Rightarrow> nat \<Rightarrow> int"
  g_preorder :: "nat \<Rightarrow> int"
  g_inorder :: "nat \<Rightarrow> int"
  g_result :: "string list"
  g_result2 :: "string list"

text \<open>The package of these functions. Its tree also counts the calls: its number and its insertions.\<close>

definition part7_pkg :: "garbage \<Rightarrow> (nat \<times> nat \<times> addr) tree_pkg" where
  "part7_pkg g =
     \<lparr>pk_init = (\<lambda>k. (k, 0, init_tree (g_init g k))),
      pk_insert = (\<lambda>(k, i, t) s. (let (ret, t') = tree_insert (g_insert g k i) t s in Inr (ret, k, Suc i, t'))),
      pk_preorder = (\<lambda>(k, i, t) n. Inr (tree_preorder (g_preorder g k) (g_result g) t n)),
      pk_inorder = (\<lambda>(k, i, t) n.
        Inr (tree_inorder (g_inorder g k) (if k < 10 then g_result g else g_result2 g) t n)),
      pk_del = (\<lambda>(k, i, t). Inr (del_tree t))\<rparr>"

lemma insert_any_stub: "insert_any (part7_pkg g) (k, i, t) ss = Inr (k, i + length ss, t)"
  by (induction ss arbitrary: i) (simp_all add: part7_pkg_def tree_insert_def)

lemma challenge_stub: "challenge_question (part7_pkg g) rnd n = Inr ()"
proof -
  have "pk_init (part7_pkg g) k = (k, 0, init_tree (g_init g k))" "pk_del (part7_pkg g) t = Inr ()" for k t
    by (simp_all add: part7_pkg_def case_prod_beta)
  then show ?thesis by (simp add: challenge_question_def Let_def insert_any_stub)
qed

text \<open>
  A test of a fixed tree that passes has found the first expected string at the start of an array that
  nothing was stored into. The first two tests expect different strings there.
\<close>

lemma compare_loop_first: "compare_loop (Suc k) 0 (e # es) rs = Inr () \<Longrightarrow> get_arr rs 0 = Inr e"
  by (auto simp: panic_cond_def split: if_splits)

lemma preorder_test_sees:
  assumes "traversal_test (part7_pkg g) (pk_preorder (part7_pkg g)) k strs (e # es) = Inr ()"
  shows "\<exists>rs. g_result g = e # rs"
proof -
  obtain tree n where "res_bind (panic_cond (n = NUM_NODES)) (\<lambda>_.
      res_bind (compare_loop (nat NUM_NODES) 0 (e # es) (g_result g)) (\<lambda>_. pk_del (part7_pkg g) tree)) = Inr ()"
    using assms by (auto simp: traversal_test_def part7_pkg_def tree_preorder_def case_prod_beta)
  then have "compare_loop 5 0 (e # es) (g_result g) = Inr ()" by (auto simp: NUM_NODES_def)
  then have "get_arr (g_result g) 0 = Inr e" using compare_loop_first [of 4 e es "g_result g"] by simp
  then show ?thesis by (cases "g_result g") (simp_all add: get_arr_def)
qed

text \<open>
  C38: the harness never accepts the shipped \<open>part7.c\<close>, whatever its functions without \<open>return\<close> appear to
  return at each of their calls and whatever the fresh arrays hold: even if every count is right and
  every insertion appears to succeed or to find a duplicate as it should, the array of the first two
  traversals is the same memory, which nothing has written to, and it cannot hold the strings of
  both. With \<open>-n\<close>, however, nothing is checked, and the challenge question accepts the package.
\<close>

theorem part7_stub_rejected:
  "part7_main (part7_pkg g) rnd False opts \<noteq> Inr () \<and>
    (0 < node_count opts \<longrightarrow> part7_main (part7_pkg g) rnd True opts = Inr ())"
proof -
  let ?test = "traversal_test (part7_pkg g) (pk_preorder (part7_pkg g))"
  have "run_tests ?test 0 (zip test_strings preorder_results) \<noteq> Inr ()"
  proof
    assume "run_tests ?test 0 (zip test_strings preorder_results) = Inr ()"
    then have "?test 0 (test_strings ! 0) (''000'' # tl (preorder_results ! 0)) = Inr ()"
      "?test (Suc 0) (test_strings ! 1) (''444'' # tl (preorder_results ! 1)) = Inr ()"
      by (simp_all add: test_strings_def preorder_results_def res_bind_eq_Inr)
    then show False by (auto dest!: preorder_test_sees)
  qed
  then have "part7_main (part7_pkg g) rnd False opts \<noteq> Inr ()" by (auto simp: part7_main_def res_bind_eq_Inr)
  then show ?thesis by (simp add: part7_main_def challenge_stub)
qed

text \<open>Garbage that is right about every count and every string of the first tree.\<close>

theorem part7_stub_rejected_witness:
  "part7_main (part7_pkg \<lparr>g_init = (\<lambda>k. 64), g_insert = (\<lambda>k i. 0), g_preorder = (\<lambda>k. 5), g_inorder = (\<lambda>k. 5),
       g_result = test_strings ! 0, g_result2 = []\<rparr>) (\<lambda>i. int i) True [(CHR ''n'', ''7'')] = Inr ()"
  using part7_stub_rejected [of "\<lparr>g_init = (\<lambda>k. 64), g_insert = (\<lambda>k i. 0), g_preorder = (\<lambda>k. 5),
      g_inorder = (\<lambda>k. 5), g_result = test_strings ! 0, g_result2 = []\<rparr>" "\<lambda>i. int i" "[(CHR ''n'', ''7'')]"]
  by (simp add: c_atoi_def digit_def)

end
