(* ===== verification/Exercise_Stubs.thy ===== *)
theory Exercise_Stubs
  imports Complex_Main C_Prelude
begin

text \<open>
  The exercises of \<open>clab/mini\<close> (\<open>part1.c\<close> to \<open>part6.c\<close>, \<open>part8.c\<close>) and of \<open>binarylab\<close> as shipped: but for
  \<open>part8.c\<close>, every function checks the pointers it is given and then fails \<open>assert(0)\<close>, before it could
  touch what the pointers lead to. \<open>mem\<close> holds the pointer \<open>list_remove\<close> reads.
\<close>

record point =
  pt_x :: real
  pt_y :: real

record list_node =
  ln_value :: int
  ln_next :: addr

definition todo :: "'a \<Rightarrow> 'a res" where
  "todo r = res_bind (c_assert False) (\<lambda>_. Inr r)"

definition set_to_five :: "addr \<Rightarrow> unit res" where "set_to_five ptr = todo ()"

definition array_sum :: "addr \<Rightarrow> int \<Rightarrow> int res" where "array_sum arr n = todo (- 1)"

definition swap_ints :: "addr \<Rightarrow> addr \<Rightarrow> unit res" where
  "swap_ints p1 p2 = res_bind (c_assert (p1 \<noteq> 0)) (\<lambda>_. res_bind (c_assert (p2 \<noteq> 0)) (\<lambda>_. todo ()))"

definition bubble_sort :: "addr \<Rightarrow> int \<Rightarrow> unit res" where "bubble_sort arr n = todo ()"

definition initialize_array :: "addr \<Rightarrow> int \<Rightarrow> unit res" where "initialize_array arr n = todo ()"

definition mark_multiples :: "addr \<Rightarrow> int \<Rightarrow> int \<Rightarrow> unit res" where "mark_multiples arr n p = todo ()"

definition prime_number_sieves :: "addr \<Rightarrow> int \<Rightarrow> unit res" where "prime_number_sieves arr n = todo ()"

definition find_smallest_divisor :: "int \<Rightarrow> addr \<Rightarrow> unit res" where "find_smallest_divisor n divisor = todo ()"

definition set_point :: "addr \<Rightarrow> real \<Rightarrow> real \<Rightarrow> unit res" where "set_point pt x y = todo ()"

definition point_dist :: "addr \<Rightarrow> addr \<Rightarrow> real res" where "point_dist pt1 pt2 = todo 0"

definition list_insert :: "addr \<Rightarrow> int \<Rightarrow> unit res" where
  "list_insert head value = res_bind (c_assert (head \<noteq> NULL)) (\<lambda>_. todo ())"

definition list_end :: "addr \<Rightarrow> addr res" where
  "list_end head = res_bind (c_assert (head \<noteq> NULL)) (\<lambda>_. todo NULL)"

definition list_size :: "addr \<Rightarrow> int res" where
  "list_size head = res_bind (c_assert (head \<noteq> NULL)) (\<lambda>_. todo 0)"

definition list_find :: "addr \<Rightarrow> int \<Rightarrow> addr \<Rightarrow> addr res" where
  "list_find head value predp =
     res_bind (c_assert (head \<noteq> NULL)) (\<lambda>_. res_bind (c_assert (predp \<noteq> NULL)) (\<lambda>_. todo NULL))"

definition list_remove :: "(addr \<Rightarrow> addr) \<Rightarrow> addr \<Rightarrow> int \<Rightarrow> int res" where
  "list_remove mem headp value =
     res_bind (c_assert (headp \<noteq> NULL)) (\<lambda>_. res_bind (c_assert (mem headp \<noteq> NULL)) (\<lambda>_. todo 0))"

definition get_exponent_field :: "int \<Rightarrow> unit res" where "get_exponent_field f = todo ()"

definition clear_msb :: "32 word \<Rightarrow> int \<Rightarrow> unit res" where "clear_msb number b = todo ()"

definition bit_at_index :: "addr \<Rightarrow> int \<Rightarrow> int \<Rightarrow> unit res" where "bit_at_index array array_size i = todo ()"

text \<open>\<open>string_token\<close> of \<open>part8.c\<close> ends without \<open>return\<close>: its caller finds \<open>u\<close>; \<open>*saveptr\<close> stays as it was.\<close>

definition string_token :: "addr \<Rightarrow> addr \<Rightarrow> char \<Rightarrow> addr \<Rightarrow> addr \<times> addr" where
  "string_token u str delim saveptr = (u, saveptr)"

definition ex1 :: "unit res" where "ex1 = todo ()"

definition ex2 :: "unit res" where "ex2 = todo ()"

definition ex3 :: "unit res" where "ex3 = todo ()"

definition ex4 :: "unit res" where "ex4 = todo ()"

definition ex5 :: "addr \<Rightarrow> unit res" where "ex5 n = todo ()"

lemma todo_fails [simp]: "todo r = Inl AssertFail"
  by (simp add: todo_def)

text \<open>The list functions fail the same way with and without a list.\<close>

lemma list_stubs_fail:
  "list_insert head v = Inl AssertFail" "list_end head = Inl AssertFail" "list_size head = Inl AssertFail"
  "list_find head v predp = Inl AssertFail" "list_remove mem headp v = Inl AssertFail"
  "swap_ints p q = Inl AssertFail"
  by (simp_all add: list_insert_def list_end_def list_size_def list_find_def list_remove_def swap_ints_def
      c_assert_def)

end
