(* ===== verification/Spec2Isabelle.thy ===== *)
theory Spec2Isabelle
  imports MM_Naive MM_Stub Mdriver_Safe Fcyc HTable_Race Tester RKGrep_Suite Part7 Exercise_Stubs
begin

text \<open>
  A verification library for the C labs of the repository: the malloc lab (\<open>src/malloclab\<close>), the thread
  lab (\<open>src/threadlab\<close>), the Rabin-Karp lab (\<open>src/rklab\<close>), and the exercises and the tree harness of
  \<open>src/clab/mini\<close> and \<open>src/binarylab\<close>.

  \<^bold>\<open>How C is modelled.\<close> \<open>C_Prelude\<close> holds what all parts share. A function that can end other than by
  returning has a value of type \<open>'a res\<close>: \<open>Inl\<close> is a failed assertion, a call of \<open>exit\<close> or a behaviour C
  leaves undefined (an access outside an array or block, a use of \<open>NULL\<close> or of freed memory, signed
  overflow, a bad shift). A theorem that gives \<open>Inr\<close> therefore also says that none of this happens. A
  loop that may not end has a value of type \<open>'a run\<close>, where \<open>None\<close> is not returning; such loops are
  \<open>partial_function (option)\<close>, all others terminate by a measure, and no fuel is used. \<open>int\<close> is \<open>int\<close>
  with checked overflow, \<open>unsigned\<close> and \<open>size_t\<close> are words, \<open>double\<close> is \<open>real\<close>. What the C library and
  the system answer (addresses from \<open>malloc\<close>, \<open>rand\<close>, clocks, file contents, uninitialised bytes) is an
  argument of the definitions, and hypotheses of the theorems say what is relied on. \<open>C_Alloc\<close> is the
  ledger of the blocks a program has taken from \<open>malloc\<close> and not freed; freeing any other is undefined.

  \<^bold>\<open>The malloc lab.\<close> \<open>mdriver.c\<close> reads trace files and runs a malloc package on them; the package gets its
  heap from \<open>memlib.c\<close>, and \<open>fsecs.c\<close> times it.
  \<^item> \<open>Memlib\<close>: \<open>memlib.c\<close>, over the three pointers and the bytes of the block.
  \<^item> \<open>MM_Package\<close>: the functions of \<open>mm.h\<close> as a record, and the locale \<open>mm_contract\<close>, what a package
    promises: fresh, aligned, disjoint payloads inside the heap, kept contents. The driver is verified
    inside this locale.
  \<^item> \<open>MM_Naive\<close>: \<open>mm-naive.c\<close>, headers read and written in the bytes of the heap; the interpretation
    \<open>naive\<close> of the contract; out-of-memory, \<open>mm_checkheap\<close>, and the requests it mishandles. \<open>MM_Stub\<close>: the
    shipped \<open>mm.c\<close>.
  \<^item> \<open>Mdriver_Ranges\<close>: the list of live payloads (\<open>add_range\<close>); \<open>Mdriver_Trace\<close>: trace files (\<open>read_trace\<close>),
    with the round trip and the bounds of what is read, and the file that slips through the check
    of the indices (\<open>hole_file\<close>); \<open>Mdriver_Eval\<close>: \<open>eval_mm_valid\<close>, \<open>eval_mm_util\<close>,
    \<open>eval_mm_speed\<close>; \<open>Mdriver_Main\<close>: the C library's turn, the performance index, options and \<open>main\<close>,
    with the memory \<open>main\<close> takes for the traces, the names and the tables (\<open>with_trace\<close>, \<open>free_trace\<close>,
    \<open>option_mem\<close>, \<open>main_cleanup\<close>), the heap and the range list, of which it is shown what is left at
    the end (\<open>main_end\<close>). \<open>Mdriver_Safe\<close>: no evaluation of a trace that was read leaves an array or a
    block, for any C library and for any package that stays inside its memory.
  \<^item> \<open>Clock\<close>: \<open>clock.c\<close>, \<open>ftimer.c\<close>, and \<open>fsecs.c\<close> as \<open>config.h\<close> selects it; \<open>Fcyc\<close>: the sampler of \<open>fcyc.c\<close>,
    run with the counters of \<open>clock.c\<close> (\<open>plain_timer\<close>, \<open>comp_timer\<close>; the latter calibrates at its first
    use, which ends when the clocks keep running, \<open>clocks_run\<close>), over a cache buffer of any contents, and \<open>fsecs.c\<close> in its two other
    configurations.

  \<^bold>\<open>The thread lab.\<close> \<open>tester.c\<close> runs the tests of the hash table and of the lock.
  \<^item> \<open>HTable_Hash\<close>: hash codes and prime sizes; \<open>get_prime\<close> is shown to end for every bound up to 3120017,
    the first prime above twice \<open>BIG_PRIME\<close> (\<open>SIZE_LIMIT\<close>).
  \<^item> \<open>HTable\<close>: \<open>htable.c\<close> over a heap of linked nodes, refining maps: the locale \<open>dictionary\<close> states what
    the test relies on, and the interpretation \<open>ht\<close> discharges it for the table without resizing;
    \<open>growing_dictionary\<close> does so for the table that resizes, for keys of which no more than ten share a
    hash code. Such a table stops growing at \<open>SIZE_LIMIT\<close>, since it never has to grow once it has a
    slot for every hash code. \<open>HTable_Collide\<close>: what happens when more than ten keys share one.
  \<^item> \<open>HTable_Race\<close>: two threads inside \<open>htable_insert\<close>, split into its search and its update. The shipped
    table takes no lock, and the interleaving of the two loses a key.
  \<^item> \<open>TestHash\<close>: \<open>testhash.c\<close>; the calls of the threads take effect in any order, one at a time, as they do
    in a table with the lock the lab asks for. The sizes and throughputs it prints are a report; the
    division by the number of threads in one of its messages is part of the model.
  \<^item> \<open>RWLock\<close>: the stubs of \<open>rwlock.c\<close> and \<open>test_rwl_basic\<close>; \<open>RWLock_Priority\<close>: \<open>test_rwl_priority\<close> as a
    step relation over its eleven threads, with an invariant, progress and a decreasing measure; a
    lock without priority for writers fails it. \<open>Tester\<close>: \<open>tester.c\<close>.

  \<^bold>\<open>The Rabin-Karp lab.\<close>
  \<^item> \<open>RKGrep\<close>: the modular arithmetic of \<open>rkgrep.c\<close> and the rolling hash; what a matcher promises. The
    matchers themselves are stubs. \<open>Bloom\<close>: \<open>bloom.c\<close>.
  \<^item> \<open>RKGrep_Main\<close>: \<open>rkgrep_main.c\<close>, with the matchers as an argument.
  \<^item> \<open>RKGrep_Test\<close>: the random documents and \<open>test_naive\<close> of \<open>rkgrep_test.c\<close>; \<open>RKGrep_Suite\<close>: its tests that
    compare with the reference in \<open>rkgrep_harness.o\<close>, whose functions are arguments, and \<open>main\<close>. What the
    comments ask of the functions to be written is stated as predicates (\<open>matcher_ok\<close>, \<open>hash_pkg_ok\<close>,
    \<open>add_ok\<close>, \<open>query_ok\<close>, \<open>create_ok\<close>, \<open>using_ok\<close>); an implementation over the modelled \<open>bloom_init\<close> and
    \<open>hash_i\<close> is shown to satisfy them.

  \<^bold>\<open>The C mini lab and the binary lab.\<close> \<open>Part7_Strings\<close>: the order of \<open>strcmp_for_qsort\<close>, in which \<open>qsort\<close>
  is \<open>sort\<close>, and the memory of the test strings. \<open>Part7_Harness\<close>: \<open>part7_harness.c\<close>, which accepts every package that
    implements the unbalanced tree of the comments and rejects one that takes duplicates. \<open>Part7\<close>: the
    shipped \<open>part7.c\<close> and the verdict of the harness on it, whatever its functions without \<open>return\<close> appear
    to return at each call (\<open>garbage\<close>). \<open>Exercise_Stubs\<close>: the exercises that fail
    \<open>assert(0)\<close>, and the one of \<open>part8.c\<close>.

  \<^bold>\<open>This theory\<close> puts the parts of the malloc lab together: the driver with \<open>mm-naive.c\<close>, from the trace
  file to the summary \<open>main\<close> prints, and the driver with the stub; it also shows that the driver stays
  inside its arrays on every trace it reads that satisfies the two conditions \<open>read_trace\<close> leaves open.

  \<^bold>\<open>Not modelled.\<close> The reference functions in \<open>rkgrep_harness.o\<close> and the object files of the binary lab,
  whose sources are not in the repository; the Python grading scripts; the trace files, which are data;
  printed messages that are not results, the usage texts, the timings \<open>rkgrep_test.c\<close> prints, and the
  freeing of test data other than the traces of the driver and the strings of the harness, and of the
  slot arrays of the hash table, which are values. Rounding of \<open>double\<close> is not modelled, nor are its
  infinities: a quotient by 0 is 0. The error count and the line numbers of the driver are not cut to
  32 bits. Functions of \<open>rkgrep.c\<close> that end without \<open>return\<close> are taken to return a fixed but arbitrary
  value, those of \<open>part7.c\<close> an arbitrary one at each call.
\<close>

section \<open>A trace and a heap the witnesses run on\<close>

text \<open>One allocation, its reallocation and its release, on a heap malloc placed at 4096.\<close>

definition demo_mem :: memlib where
  "demo_mem = \<lparr>mem_bytes = (\<lambda>_. 0), mem_start_brk = 4096, mem_brk = 4096,
     mem_max_addr = 4096 + MAX_HEAP, mem_live = True, mem_errno = 0\<rparr>"

definition demo_trace :: trace_t where
  "demo_trace = \<lparr>sugg_heapsize = 20000, num_ids = 1, num_ops = 3, weight = 1,
     ops = [\<lparr>op_type = ALLOC, op_index = 0, op_size = 512\<rparr>,
            \<lparr>op_type = REALLOC, op_index = 0, op_size = 1024\<rparr>,
            \<lparr>op_type = FREE, op_index = 0, op_size = 0\<rparr>],
     blocks = [0], block_sizes = [0]\<rparr>"

definition demo_drv :: mdriver where
  "demo_drv = \<lparr>errors = 0, reports = [], libc_avail = 3\<rparr>"

definition demo_state :: vstate where
  "demo_state = \<lparr>v_drv = demo_drv, v_mem = demo_mem, v_ranges = [], v_trace = demo_trace\<rparr>"

lemma demo_mem_inv: "memlib_inv demo_mem"
  by (simp add: demo_mem_def memlib_inv_def libc_block_def MAX_HEAP_def NULL_def)

lemma demo_trace_wf: "wf_trace demo_trace"
  by (simp add: demo_trace_def wf_trace_def wf_op_def step_live_def)

lemma demo_trace_cost: "ops_cost chunk_size (ops demo_trace) \<le> MAX_HEAP"
  by (simp add: demo_trace_def op_cost_def chunk_size_def MAX_HEAP_def)

lemma demo_trace_low: "list_all low_index (ops demo_trace)"
  by (simp add: demo_trace_def low_index_def)

section \<open>The driver on the packages of the repository\<close>

text \<open>The facts the driver adds to the package contract, for \<open>mm-naive.c\<close>.\<close>

lemmas naive_driver =
  mm_contract.eval_mm_valid_ok [OF naive.mm_contract_axioms]
  mm_contract.eval_mm_util_ok [OF naive.mm_contract_axioms]
  mm_contract.eval_mm_speed_ok [OF naive.mm_contract_axioms]
  mm_contract.mdriver_main_ok [OF naive.mm_contract_axioms]

text \<open>
  C1: on every well-formed trace whose requests fit the 200 MB heap and whose reallocated
  identifiers have a low byte below 128, \<open>eval_mm_valid\<close> linked with \<open>mm-naive.c\<close> runs to the end,
  returns 1 and reports no error: no assertion fails, no access leaves the heap, every payload is
  aligned, inside the heap and disjoint from the live ones, and reallocated data is preserved.
\<close>

theorem naive_passes_eval_mm_valid:
  assumes "memlib_inv (v_mem st)" and "wf_trace (v_trace st)"
    and "list_all low_index (ops (v_trace st))"
    and "ops_cost chunk_size (ops (v_trace st)) \<le> MAX_HEAP"
    and "length (ops (v_trace st)) \<le> libc_avail (v_drv st) + length (v_ranges st)"
  shows "\<exists>st'. eval_mm_valid naive_pkg st tracenum = Inr (1, st') \<and>
    errors (v_drv st') = errors (v_drv st) \<and> reports (v_drv st') = reports (v_drv st) \<and>
    same_block (v_mem st) (v_mem st') \<and> memlib_inv (v_mem st')"
  using assms by (rule naive_driver(1))

theorem naive_passes_eval_mm_valid_witness:
  "\<exists>st'. eval_mm_valid naive_pkg demo_state 0 = Inr (1, st') \<and>
    errors (v_drv st') = 0 \<and> reports (v_drv st') = [] \<and> same_block demo_mem (v_mem st')"
  using naive_passes_eval_mm_valid [of demo_state 0] demo_mem_inv demo_trace_wf demo_trace_cost
    demo_trace_low
  by (auto simp: demo_state_def demo_drv_def demo_trace_def)

text \<open>
  C6: from the trace file to the verdict: a file written from a trace with well-formed requests, whose
  16-byte rounded sizes and headers add up to at most the 200 MB of the heap and which reallocates
  only identifiers with a low byte below 128, is read by \<open>read_trace\<close>, and \<open>eval_mm_valid\<close> on what was
  read, with \<open>mm-naive.c\<close>, returns 1 without a report, when the C library serves the allocations of
  the driver. The default \<open>realloc-bal.rep\<close> is beyond the bound, with 1.48 GB.
\<close>

theorem naive_passes_trace_file:
  assumes "trace_ok t" and "wf_ops (num_ids t) Map.empty (ops t)" and "list_all low_index (ops t)"
    and "ops_cost chunk_size (ops t) \<le> MAX_HEAP" and "memlib_inv s" and "length (ops t) \<le> libc_avail d"
    and "\<And>k n. mal k n"
  shows "\<exists>t' st'. read_trace u mal (Some (print_trace t)) = Inr t' \<and>
    eval_mm_valid naive_pkg \<lparr>v_drv = d, v_mem = s, v_ranges = [], v_trace = t'\<rparr> tracenum = Inr (1, st') \<and>
    errors (v_drv st') = errors d \<and> reports (v_drv st') = reports d"
proof -
  note rd = read_trace_print [OF assms(1,7), of u]
  obtain t' where t': "read_trace u mal (Some (print_trace t)) = Inr t'" "num_ids t' = num_ids t"
    "num_ops t' = num_ops t" "length (blocks t') = nat (num_ids t)"
    "length (block_sizes t') = nat (num_ids t)"
    "ops t' = map2 stored_op (map (u_ops u) [0..<length (ops t)]) (ops t)"
    unfolding rd by simp
  let ?st = "\<lparr>v_drv = d, v_mem = s, v_ranges = [], v_trace = t'\<rparr>"
  have wf: "wf_trace t'"
    using t' assms(1,2) by (simp add: wf_trace_def trace_ok_def wf_ops_stored)
  have "list_all low_index (ops t')" "ops_cost chunk_size (ops t') \<le> MAX_HEAP"
    using t'(6) assms(3,4) by (simp_all add: low_index_stored ops_cost_stored)
  with naive_driver(1) [of ?st tracenum] wf assms(5,6) t'(1,6) show ?thesis by auto
qed

theorem naive_passes_trace_file_witness:
  "\<exists>t' st'. read_trace demo_uninit (\<lambda>k n. True) (Some (print_trace demo_trace)) = Inr t' \<and>
    eval_mm_valid naive_pkg \<lparr>v_drv = demo_drv, v_mem = demo_mem, v_ranges = [], v_trace = t'\<rparr> 0 =
      Inr (1, st') \<and>
    errors (v_drv st') = errors demo_drv \<and> reports (v_drv st') = reports demo_drv"
proof (rule naive_passes_trace_file)
  show "trace_ok demo_trace" by (simp add: trace_ok_def demo_trace_def op_ok_def)
  show "wf_ops (num_ids demo_trace) Map.empty (ops demo_trace)"
    using demo_trace_wf by (simp add: wf_trace_def)
  show "length (ops demo_trace) \<le> libc_avail demo_drv" by (simp add: demo_trace_def demo_drv_def)
qed (use demo_mem_inv demo_trace_cost demo_trace_low in simp_all)

text \<open>
  C22: on the same traces \<open>eval_mm_util\<close> returns the largest number of payload bytes in use at any
  point of the trace over the size of the heap, and the quotient is at most 1; no \<open>int\<close> of the
  computation overflows.
\<close>

theorem naive_eval_mm_util:
  assumes "memlib_inv s" and "wf_trace tr" and "ops_cost chunk_size (ops tr) \<le> MAX_HEAP"
  shows "\<exists>hs s' tr'. eval_mm_util naive_pkg s tr = Inr (peak_live Map.empty (ops tr), hs, s', tr') \<and>
    memlib_inv s' \<and> same_block s s' \<and> hs = mem_heapsize s' \<and>
    0 \<le> peak_live Map.empty (ops tr) \<and> peak_live Map.empty (ops tr) \<le> uint hs"
  using assms by (rule naive_driver(2))

theorem naive_eval_mm_util_witness:
  "\<exists>hs s' tr'. eval_mm_util naive_pkg demo_mem demo_trace =
      Inr (peak_live Map.empty (ops demo_trace), hs, s', tr') \<and>
    memlib_inv s' \<and> same_block demo_mem s' \<and> hs = mem_heapsize s' \<and>
    0 \<le> peak_live Map.empty (ops demo_trace) \<and> peak_live Map.empty (ops demo_trace) \<le> uint hs"
  by (rule naive_eval_mm_util [OF demo_mem_inv demo_trace_wf demo_trace_cost])

text \<open>
  The timed run of the same traces makes no failing call and leaves the memory system in order.
\<close>

theorem naive_eval_mm_speed:
  assumes "memlib_inv s" and "wf_trace tr" and "ops_cost chunk_size (ops tr) \<le> MAX_HEAP"
  shows "\<exists>s' tr'. eval_mm_speed naive_pkg s tr = Inr (s', tr') \<and> memlib_inv s' \<and> same_block s s'"
  using assms by (rule naive_driver(3))

theorem naive_eval_mm_speed_witness:
  "\<exists>s' tr'. eval_mm_speed naive_pkg demo_mem demo_trace = Inr (s', tr') \<and> memlib_inv s' \<and>
    same_block demo_mem s'"
  by (rule naive_eval_mm_speed [OF demo_mem_inv demo_trace_wf demo_trace_cost])

text \<open>
  C28: the shipped stub \<open>mm.c\<close> is rejected on every trace that starts with an allocation: the
  driver returns 0, counts one error and reports it at line 5 of the trace file, the line of the
  first request.
\<close>

theorem stub_rejected:
  assumes "num_ops (v_trace st) > 0" and "ops (v_trace st) = p # ps" and "op_type p = ALLOC"
  shows "\<exists>st'. eval_mm_valid stub_pkg st tracenum = Inr (0, st') \<and>
    errors (v_drv st') = errors (v_drv st) + 1 \<and>
    reports (v_drv st') = reports (v_drv st) @ [(tracenum, 5, MmMallocFailed)]"
proof -
  obtain k where "nat (num_ops (v_trace st)) = Suc k"
    using assms(1) by (cases "nat (num_ops (v_trace st))") auto
  with assms(2,3) show ?thesis
    by (simp add: eval_mm_valid_def clear_ranges_eq valid_op_def valid_alloc_def malloc_error_def
        LINENUM_def)
qed

theorem stub_rejected_witness:
  "\<exists>st'. eval_mm_valid stub_pkg demo_state 7 = Inr (0, st') \<and> errors (v_drv st') = 1 \<and>
    reports (v_drv st') = [(7, 5, MmMallocFailed)]"
  using stub_rejected [of demo_state "\<lparr>op_type = ALLOC, op_index = 0, op_size = 512\<rparr>"
      "tl (ops demo_trace)" 7]
  by (simp add: demo_state_def demo_drv_def demo_trace_def)

section \<open>The whole driver\<close>

text \<open>An environment in which every trace file holds the trace above, and a C library.\<close>

definition demo_env :: env where
  "demo_env = \<lparr>file_of = (\<lambda>_. Some (print_trace demo_trace)), fresh_mem = demo_uninit,
     can_malloc = (\<lambda>_ _. True), new_block = demo_new, clock_libc = (\<lambda>_. (\<lparr>tv_sec = 0, tv_usec = 0\<rparr>, \<lparr>tv_sec = 1, tv_usec = 0\<rparr>)),
     clock_mm = (\<lambda>_. (\<lparr>tv_sec = 2, tv_usec = 0\<rparr>, \<lparr>tv_sec = 3, tv_usec = 0\<rparr>))\<rparr>"

definition demo_libc :: "int libc_pkg" where
  "demo_libc = \<lparr>l_malloc = (\<lambda>h n. (4096 + 16 * \<bar>h\<bar>, \<bar>h\<bar> + 1)),
     l_realloc = (\<lambda>h p n. (4096 + 16 * \<bar>h\<bar>, \<bar>h\<bar> + 1)), l_free = (\<lambda>h p. h)\<rparr>"

text \<open>
  C2: the driver linked with \<open>mm-naive.c\<close> runs to its end on trace files that are well formed, fit the
  heap (each request at the 16-byte rounded size with its header, the space being never reused, in
  the 200 MB of \<open>mem_init\<close> altogether; the default \<open>realloc-bal.rep\<close>, with 1.48 GB, does not) and
  reallocate only identifiers whose low byte is below 128, when the C library serves the driver's own
  requests: every trace is counted as passed and no error is counted. This covers the whole of
  \<open>main\<close>: the options, the evaluation of the C library's allocator, and for each trace the reading,
  the checks, the utilization and the ten timed runs. At the end the heap of \<open>mem_init\<close> is freed, the
  range list is empty and all its nodes are freed, and of the memory \<open>main\<close> takes for itself every
  block is freed once, except one name for each option \<open>-f\<close> after the first.
\<close>

theorem naive_main_all_correct:
  assumes "handle_options opts default_options = Inr o1"
    and "\<And>f. f \<in> set (case tracefiles o1 of None \<Rightarrow> DEFAULT_TRACEFILES | Some fs \<Rightarrow> fs) \<Longrightarrow>
      good_file chunk_size (libc_avail d) e (tracedir o1 @ f)"
    and "\<And>k n. can_malloc e k n" and "malloc_fresh (new_block e)" and "libc_ok libc" and "libc_block blk MAX_HEAP"
  shows "\<exists>sm r. mdriver_main e libc naive_pkg blk opts h d mem = Inr (sm, r) \<and> sm_correct sm = sm_total sm \<and>
    sm_total sm = int (length (case tracefiles o1 of None \<Rightarrow> DEFAULT_TRACEFILES | Some fs \<Rightarrow> fs)) \<and>
    sm_errors sm = errors d \<and> finite (l_live (me_ledger r)) \<and>
    card (l_live (me_ledger r)) = count_f opts - 1 \<and> \<not> mem_live (me_mem r) \<and> me_ranges r = [] \<and>
    libc_avail (me_drv r) = libc_avail d"
  using assms by (rule naive_driver(4))

theorem naive_main_all_correct_witness:
  "\<exists>sm r. mdriver_main demo_env demo_libc naive_pkg 4096 [(CHR ''f'', ''one''), (CHR ''f'', ''two'')] 0 demo_drv
      demo_mem = Inr (sm, r) \<and>
    sm_correct sm = 1 \<and> sm_total sm = 1 \<and> sm_errors sm = 0 \<and> card (l_live (me_ledger r)) = 1 \<and>
    \<not> mem_live (me_mem r) \<and> me_ranges r = []"
proof -
  let ?opts = "[(CHR ''f'', ''one''), (CHR ''f'', ''two'')]"
  let ?o = "default_options\<lparr>tracefiles := Some [''two''], tracedir := ''./''\<rparr>"
  have "trace_ok demo_trace" by (simp add: trace_ok_def demo_trace_def op_ok_def)
  moreover have "wf_ops (num_ids demo_trace) Map.empty (ops demo_trace)"
    using demo_trace_wf by (simp add: wf_trace_def)
  moreover have "length (ops demo_trace) \<le> libc_avail demo_drv" by (simp add: demo_trace_def demo_drv_def)
  ultimately have "good_file chunk_size (libc_avail demo_drv) demo_env (''./'' @ ''two'')"
    using demo_trace_cost demo_trace_low by (auto simp: good_file_def demo_env_def MAXLINE_def)
  moreover have "4096 + 16 * \<bar>h\<bar> \<noteq> NULL" for h :: int
    using abs_ge_zero [of h] by (simp add: NULL_def)
  then have "libc_ok demo_libc" by (simp add: libc_ok_def demo_libc_def)
  moreover have "libc_block 4096 MAX_HEAP" by (simp add: libc_block_def NULL_def MAX_HEAP_def)
  moreover have "can_malloc demo_env k n" for k n by (simp add: demo_env_def)
  moreover have "malloc_fresh (new_block demo_env)" by (simp add: demo_env_def demo_new_fresh)
  moreover have "handle_options ?opts default_options = Inr ?o" by (simp add: handle_option_def)
  ultimately have "\<exists>sm r. mdriver_main demo_env demo_libc naive_pkg 4096 ?opts 0 demo_drv demo_mem = Inr (sm, r) \<and>
    sm_correct sm = sm_total sm \<and>
    sm_total sm = int (length (case tracefiles ?o of None \<Rightarrow> DEFAULT_TRACEFILES | Some fs \<Rightarrow> fs)) \<and>
    sm_errors sm = errors demo_drv \<and> finite (l_live (me_ledger r)) \<and>
    card (l_live (me_ledger r)) = count_f ?opts - 1 \<and> \<not> mem_live (me_mem r) \<and> me_ranges r = [] \<and>
    libc_avail (me_drv r) = libc_avail demo_drv"
    by (intro naive_main_all_correct) auto
  then show ?thesis by (auto simp: demo_drv_def count_f_def)
qed



text \<open>
  A name of 1022 characters or more given with \<open>-f\<close> is written beyond the array \<open>path\<close>: the command line
  alone makes the driver overrun its stack.
\<close>

theorem option_f_overruns:
  assumes "1022 \<le> length name" and "can_malloc e 1 40" and "malloc_fresh (new_block e)"
  shows "mdriver_main e libc pkg blk [(CHR ''f'', name)] h d mem = Inl OutOfBounds"
proof -
  have "load_trace e ''./'' name = Inl OutOfBounds" using assms(1,2) by (simp add: load_trace_def MAXLINE_def)
  then have "libc_trace e libc ''./'' 0 name h = Inl OutOfBounds" by (simp add: libc_trace_def)
  moreover have "new_block e k L \<noteq> NULL" if "finite L" for k L
    using assms(3) that by (simp add: malloc_fresh_def)
  ultimately show ?thesis
    by (simp add: mdriver_main_def handle_option_def default_options_def with_trace_def case_prod_beta Let_def
        led_malloc_def led_empty_def)
qed

text \<open>
  The option \<open>-l\<close>, which the usage text offers for running the C library's malloc as well, ends
  the driver with status 1 before anything is evaluated, whatever options come after it.
\<close>

theorem option_l_exits:
  "mdriver_main e libc pkg blk ((CHR ''l'', arg) # opts) h d mem = Inl (Exit 1)"
  by (simp add: mdriver_main_def handle_option_def)

end
